(* ===== verification/Prelude.thy ===== *)
theory Prelude
  imports Main "HOL-Library.Word" "HOL-Library.Monad_Syntax"
begin

text \<open>
  What every component theory shares: the machine integer types of the library, the
  conversion of a value to the C type \<open>int\<close>, the outcomes of code that can throw, and the
  generic lemmas on options, lists and words that the component proofs rest on.
\<close>

section \<open>Machine integers\<close>

type_synonym u16 = "16 word"
type_synonym u32 = "32 word"
type_synonym u64 = "64 word"

text \<open>
  \<open>int32 x\<close> is the value of \<open>x\<close> after the conversion to the 32-bit type \<open>int\<close>: two's
  complement, as every compiler the library is built with defines it.
\<close>

definition int32 :: "int \<Rightarrow> int" where
  "int32 x = signed_take_bit 31 x"

named_theorems int_conv
  \<open>conversions between the machine integer types, within and beyond their range\<close>

lemma int32_id [int_conv]: "- (2 ^ 31) \<le> x \<Longrightarrow> x < 2 ^ 31 \<Longrightarrow> int32 x = x"
  by (simp add: int32_def signed_take_bit_int_eq_self)

lemma int32_of_nat [int_conv]: "n < 2 ^ 31 \<Longrightarrow> int32 (int n) = int n"
  by (rule int32_id) simp_all

lemma int32_range: "- (2 ^ 31) \<le> int32 x \<and> int32 x < 2 ^ 31"
  using signed_take_bit_int_greater_eq_minus_exp [of 31 x]
    signed_take_bit_int_less_exp [of 31 x]
  by (simp add: int32_def)

lemma unat_of_nat64 [int_conv]: "n < 2 ^ 64 \<Longrightarrow> unat (of_nat n :: u64) = n"
  by (simp add: unat_of_nat take_bit_nat_eq_self)

lemma of_nat64_eq_0 [int_conv]: "n < 2 ^ 64 \<Longrightarrow> ((of_nat n :: u64) = 0) = (n = 0)"
  using unat_of_nat64 [of n] by (simp add: unat_eq_0 [symmetric])

lemma unat32_lt: "unat (w :: u32) < 2 ^ 32"
  by (rule order.strict_trans2 [OF unsigned_less]) simp

lemma unat64_lt: "unat (w :: u64) < 2 ^ 64"
  by (rule order.strict_trans2 [OF unsigned_less]) simp

section \<open>Options and lists\<close>

lemma bind_eq_Some [simp]: "(x \<bind> f) = Some z \<longleftrightarrow> (\<exists>y. x = Some y \<and> f y = Some z)"
  by (cases x) auto

lemma card_distinct_bound:
  assumes "distinct xs" and "set xs \<subseteq> {0<..<n}" and "0 < n"
  shows "length xs < n"
proof -
  have "card (set xs) \<le> card {0<..<n}"
    by (rule card_mono) (use assms in auto)
  then show ?thesis
    using assms by (simp add: distinct_card)
qed

lemma foldl_snoc_list: "foldl (\<lambda>acc x. acc @ [x]) ys xs = ys @ xs"
  by (induction xs arbitrary: ys) auto

text \<open>Running an operation that can fail over a list of arguments, in order.\<close>

fun iter_opt :: "('x \<Rightarrow> 'm \<Rightarrow> 'm option) \<Rightarrow> 'x list \<Rightarrow> 'm \<Rightarrow> 'm option" where
  "iter_opt f [] m = Some m"
| "iter_opt f (x # xs) m = f x m \<bind> iter_opt f xs"

end
