(* ===== verification/UvError.thy ===== *)
theory UvError
  imports Prelude
begin

text \<open>
  \<^verbatim>\<open>utils/uv_error.cpp\<close>: the error numbers the library looks at (their Linux values, from
  \<^verbatim>\<open>errno.h\<close>) and their translation. \<open>errno\<close> itself is a thread-local variable that a failed
  system call writes and a successful one leaves alone: the components that read it carry
  it in their state.
\<close>

type_synonym errno = int

abbreviation EINTR :: errno where "EINTR \<equiv> 4"
abbreviation EAGAIN :: errno where "EAGAIN \<equiv> 11"
abbreviation EWOULDBLOCK :: errno where "EWOULDBLOCK \<equiv> 11"
abbreviation ENOBUFS :: errno where "ENOBUFS \<equiv> 105"
abbreviation ENETUNREACH :: errno where "ENETUNREACH \<equiv> 101"
abbreviation ETIMEDOUT :: errno where "ETIMEDOUT \<equiv> 110"
abbreviation ECONNREFUSED :: errno where "ECONNREFUSED \<equiv> 111"
abbreviation EINPROGRESS :: errno where "EINPROGRESS \<equiv> 115"

definition uv_translate_posix_error :: "errno \<Rightarrow> errno" where
  "uv_translate_posix_error err =
     (if err = ENOBUFS \<or> err = EINPROGRESS \<or> err = EWOULDBLOCK then EAGAIN else err)"

text \<open>\<open>get_uv_error\<close> reads the current value of \<open>errno\<close>.\<close>

definition get_uv_error :: "errno \<Rightarrow> errno" where
  "get_uv_error e = uv_translate_posix_error e"

text \<open>The texts are those of \<open>strerror\<close>; \<open>get_uv_errmsg\<close> describes the translated error.\<close>

definition uv_strerror :: "(errno \<Rightarrow> string) \<Rightarrow> errno \<Rightarrow> string" where
  "uv_strerror strerror err = strerror err"

definition get_uv_errmsg :: "(errno \<Rightarrow> string) \<Rightarrow> errno \<Rightarrow> string" where
  "get_uv_errmsg strerror e = strerror (get_uv_error e)"

lemma uv_translate_EAGAIN [simp]:
  "uv_translate_posix_error e = EAGAIN \<longleftrightarrow> e \<in> {EAGAIN, ENOBUFS, EINPROGRESS}"
  by (auto simp: uv_translate_posix_error_def)

lemma uv_translate_EINTR [simp]: "uv_translate_posix_error e = EINTR \<longleftrightarrow> e = EINTR"
  by (auto simp: uv_translate_posix_error_def)

lemma uv_translate_idem [simp]:
  "uv_translate_posix_error (uv_translate_posix_error e) = uv_translate_posix_error e"
  by (auto simp: uv_translate_posix_error_def)

lemma get_uv_error_EAGAIN [simp]: "get_uv_error e = EAGAIN \<longleftrightarrow> e \<in> {EAGAIN, ENOBUFS, EINPROGRESS}"
  by (simp add: get_uv_error_def)

lemma get_uv_error_EINTR [simp]: "get_uv_error e = EINTR \<longleftrightarrow> e = EINTR"
  by (simp add: get_uv_error_def)

section \<open>Retrying an interrupted system call\<close>

text \<open>
  The loop \<^verbatim>\<open>do { ret = call(); } while (ret == -1 && get_uv_error() == EINTR);\<close> around
  \<open>read\<close>, \<open>write\<close>, \<open>recvfrom\<close>, \<open>accept\<close> and \<open>connect\<close>. It may run forever when every call is
  interrupted; \<open>err\<close> reads the current \<open>errno\<close>.
\<close>

partial_function (option) retry_eintr ::
  "('w \<Rightarrow> int \<times> 'w) \<Rightarrow> ('w \<Rightarrow> errno) \<Rightarrow> 'w \<Rightarrow> (int \<times> 'w) option" where
  "retry_eintr call err w =
     (case call w of (r, w') \<Rightarrow>
        if r = -1 \<and> get_uv_error (err w') = EINTR then retry_eintr call err w' else Some (r, w'))"

text \<open>A measure that drops with every interrupted call bounds the loop.\<close>

definition eintr_drops :: "('w \<Rightarrow> int \<times> 'w) \<Rightarrow> ('w \<Rightarrow> errno) \<Rightarrow> ('w \<Rightarrow> nat) \<Rightarrow> bool" where
  "eintr_drops call err \<mu> \<longleftrightarrow>
     (\<forall>w r w'. call w = (r, w') \<and> r = -1 \<and> err w' = EINTR \<longrightarrow> \<mu> w' < \<mu> w)"

lemma retry_eintr_returns:
  assumes "eintr_drops call err \<mu>"
  shows "\<exists>r w'. retry_eintr call err w = Some (r, w')"
proof (induction "\<mu> w" arbitrary: w rule: less_induct)
  case less
  obtain r w' where c: "call w = (r, w')" by (cases "call w")
  then show ?case
    using less [of w'] assms
    by (subst retry_eintr.simps) (auto simp: eintr_drops_def)
qed

text \<open>The loop's result is that of its last call; what every call keeps, the loop keeps.\<close>

lemma retry_eintr_result:
  assumes "retry_eintr call err w = Some y"
    and "I w" and I: "\<And>v r v'. I v \<Longrightarrow> call v = (r, v') \<Longrightarrow> I v'"
  shows "\<exists>v. I v \<and> call v = y \<and> \<not> (fst y = -1 \<and> err (snd y) = EINTR) \<and> I (snd y)"
proof -
  have "I w \<longrightarrow> (\<forall>v r v'. I v \<and> call v = (r, v') \<longrightarrow> I v') \<longrightarrow>
    (\<exists>v. I v \<and> call v = y \<and> \<not> (fst y = -1 \<and> err (snd y) = EINTR) \<and> I (snd y))"
  proof (rule retry_eintr.raw_induct [where P = "\<lambda>call err w y. I w \<longrightarrow>
        (\<forall>v r v'. I v \<and> call v = (r, v') \<longrightarrow> I v') \<longrightarrow>
        (\<exists>v. I v \<and> call v = y \<and> \<not> (fst y = -1 \<and> err (snd y) = EINTR) \<and> I (snd y))",
      OF _ assms(1)], intro impI)
    fix self call err w y
    assume IH: "\<And>call err w y. self call err w = Some y \<Longrightarrow>
        I w \<longrightarrow> (\<forall>v r v'. I v \<and> call v = (r, v') \<longrightarrow> I v') \<longrightarrow>
        (\<exists>v. I v \<and> call v = y \<and> \<not> (fst y = -1 \<and> err (snd y) = EINTR) \<and> I (snd y))"
    assume body: "(case call w of (r, w') \<Rightarrow>
          if r = -1 \<and> get_uv_error (err w') = EINTR then self call err w' else Some (r, w')) = Some y"
    assume w: "I w" and step: "\<forall>v r v'. I v \<and> call v = (r, v') \<longrightarrow> I v'"
    obtain r w' where c: "call w = (r, w')" by (cases "call w")
    then have "I w'" using w step by blast
    show "\<exists>v. I v \<and> call v = y \<and> \<not> (fst y = -1 \<and> err (snd y) = EINTR) \<and> I (snd y)"
    proof (cases "r = -1 \<and> err w' = EINTR")
      case True
      with c body have "self call err w' = Some y" by simp
      with IH \<open>I w'\<close> step show ?thesis by blast
    next
      case False
      with c body have "y = (r, w')" by (auto split: if_splits)
      with False c w \<open>I w'\<close> show ?thesis by auto
    qed
  qed
  with assms(2) I show ?thesis by blast
qed

end
