(* ===== verification/Helpers.thy ===== *)
theory Helpers
  imports Prelude
begin

text \<open>
  The language helpers of \<^verbatim>\<open>utils/\<close>: objects that are made once (\<open>INSTANCE_IMPL\<close> of \<^verbatim>\<open>utils.h\<close>, and
  local statics in general), \<open>OnceToken\<close>, \<open>MutexWrapper\<close>, \<open>StringPrinter\<close>, and the type traits of
  \<^verbatim>\<open>function_traits.h\<close>. Code that is passed in is a function on the state of the program.
\<close>

section \<open>Objects that are made once\<close>

text \<open>
  A local static variable: the first time control gets there its initialiser is run, and no other
  thread passes until it is done. The result is the object, and the variable and the state after.
\<close>

definition local_static :: "('s \<Rightarrow> 'a \<times> 's) \<Rightarrow> 'a option \<times> 's \<Rightarrow> 'a \<times> 'a option \<times> 's" where
  "local_static init v =
     (case fst v of
        Some x \<Rightarrow> (x, Some x, snd v)
      | None \<Rightarrow> (case init (snd v) of (x, s) \<Rightarrow> (x, Some x, s)))"

text \<open>
  However often it is asked for, and whatever happens to the state in between, the object is the one
  that the first call made, and no other is made.
\<close>

lemma local_static_same:
  assumes "local_static init v = (x, v')"
  shows "local_static init (fst v', s) = (x, Some x, s)"
  using assms by (auto simp: local_static_def split: option.splits prod.splits)

text \<open>
  \<open>OnceToken\<close>: a function that is run when the token is made and one that is run when it goes; either
  may be missing.
\<close>

definition run_opt :: "('s \<Rightarrow> 's) option \<Rightarrow> 's \<Rightarrow> 's" where
  "run_opt f s = (case f of None \<Rightarrow> s | Some g \<Rightarrow> g s)"

definition OnceToken_new :: "('s \<Rightarrow> 's) option \<Rightarrow> ('s \<Rightarrow> 's) option \<Rightarrow> 's \<Rightarrow> ('s \<Rightarrow> 's) option \<times> 's" where
  "OnceToken_new on_constructed on_destructed s = (on_destructed, run_opt on_constructed s)"

definition OnceToken_delete :: "('s \<Rightarrow> 's) option \<times> 's \<Rightarrow> 's" where
  "OnceToken_delete t = run_opt (fst t) (snd t)"

section \<open>MutexWrapper\<close>

text \<open>
  A recursive mutex that can be switched off: \<open>mw_owner\<close> and \<open>mw_depth\<close> are the mutex, which is left
  alone when \<open>mw_enable\<close> is false. A step that cannot be taken is a thread that blocks; \<open>mw_inside\<close>
  counts, for each thread, the guards of \<open>LOCK_GUARD\<close> that it holds.
\<close>

record mutex_wrapper =
  mw_enable :: bool
  mw_owner :: "nat option"
  mw_depth :: nat

definition MutexWrapper_new :: "bool \<Rightarrow> mutex_wrapper" where
  "MutexWrapper_new enable = \<lparr>mw_enable = enable, mw_owner = None, mw_depth = 0\<rparr>"

definition mw_lock :: "nat \<Rightarrow> mutex_wrapper \<Rightarrow> mutex_wrapper option" where
  "mw_lock t m =
     (if \<not> mw_enable m then Some m
      else if mw_owner m = None \<or> mw_owner m = Some t
      then Some (m\<lparr>mw_owner := Some t, mw_depth := mw_depth m + 1\<rparr>)
      else None)"

definition mw_unlock :: "nat \<Rightarrow> mutex_wrapper \<Rightarrow> mutex_wrapper option" where
  "mw_unlock t m =
     (if \<not> mw_enable m then Some m
      else if mw_owner m = Some t
      then Some (m\<lparr>mw_owner := (if mw_depth m = 1 then None else Some t), mw_depth := mw_depth m - 1\<rparr>)
      else None)"

text \<open>Threads that make and destroy guards, in any order among them.\<close>

inductive guard_steps :: "bool \<Rightarrow> mutex_wrapper \<Rightarrow> (nat \<Rightarrow> nat) \<Rightarrow> bool" for enable where
  start: "guard_steps enable (MutexWrapper_new enable) (\<lambda>_. 0)"
| enter: "guard_steps enable m inside \<Longrightarrow> mw_lock t m = Some m' \<Longrightarrow>
     guard_steps enable m' (inside(t := inside t + 1))"
| leave: "guard_steps enable m inside \<Longrightarrow> 0 < inside t \<Longrightarrow> mw_unlock t m = Some m' \<Longrightarrow>
     guard_steps enable m' (inside(t := inside t - 1))"

text \<open>The mutex knows who is inside, and how deep.\<close>

definition guard_inv :: "mutex_wrapper \<Rightarrow> (nat \<Rightarrow> nat) \<Rightarrow> bool" where
  "guard_inv m inside \<longleftrightarrow>
     (case mw_owner m of
        None \<Rightarrow> mw_depth m = 0 \<and> inside = (\<lambda>_. 0)
      | Some t \<Rightarrow> 0 < mw_depth m \<and> inside = (\<lambda>_. 0)(t := mw_depth m))"

lemma guard_steps_inv:
  "guard_steps enable m inside \<Longrightarrow> mw_enable m = enable \<and> (enable \<longrightarrow> guard_inv m inside)"
proof (induction rule: guard_steps.induct)
  case (enter m inside t m')
  then show ?case
    by (auto simp: mw_lock_def guard_inv_def fun_eq_iff split: if_splits option.splits)
next
  case (leave m inside t m')
  then show ?case
    by (auto simp: mw_unlock_def guard_inv_def fun_eq_iff split: if_splits option.splits)
qed (simp add: MutexWrapper_new_def guard_inv_def)

text \<open>
  A wrapper that is switched on lets one thread in at a time, which can always leave and can come in
  again; one that is switched off keeps nobody out.
\<close>

theorem mutex_wrapper_excludes:
  assumes "guard_steps enable m inside"
  shows "if enable
    then (0 < inside t \<and> 0 < inside u \<longrightarrow> t = u) \<and>
      (0 < inside t \<longrightarrow> (\<exists>m'. mw_unlock t m = Some m') \<and> (\<exists>m'. mw_lock t m = Some m'))
    else mw_lock t m = Some m"
  using guard_steps_inv [OF assms]
  by (auto simp: guard_inv_def mw_lock_def mw_unlock_def split: option.splits if_splits)

section \<open>StringPrinter\<close>

text \<open>A string that collects what is put into a stream beside it; \<open>std::endl\<close> gives the string.\<close>

record string_printer =
  sp_str :: string
  sp_ss :: string

definition StringPrinter :: string_printer where
  "StringPrinter = \<lparr>sp_str = [], sp_ss = []\<rparr>"

definition sp_put :: "string \<Rightarrow> string_printer \<Rightarrow> string_printer" where
  "sp_put s p = (let ss = sp_ss p @ s in p\<lparr>sp_ss := ss, sp_str := ss\<rparr>)"

definition sp_endl :: "string_printer \<Rightarrow> string" where
  "sp_endl p = sp_str p"

lemma StringPrinter_text: "sp_endl (fold sp_put ps StringPrinter) = concat ps"
proof -
  have "sp_str (fold sp_put ps p) = sp_str p @ concat ps \<and> sp_ss (fold sp_put ps p) = sp_ss p @ concat ps"
    if "sp_str p = sp_ss p" for p
    using that by (induction ps arbitrary: p) (simp_all add: sp_put_def Let_def)
  then show ?thesis by (simp add: sp_endl_def StringPrinter_def)
qed

section \<open>Function traits\<close>

text \<open>
  The types that \<open>function_traits\<close> is specialised for; anything else is taken for a class with a call
  operator. \<open>operators\<close> says what the type of \<open>&Callable::operator()\<close> is, if it has one.
\<close>

datatype qualifiers = NoCV | Const | Volatile | ConstVolatile

datatype cpp_type =
    Plain string
  | Fun cpp_type "cpp_type list"
  | FunPtr cpp_type "cpp_type list"
  | StdFunction cpp_type "cpp_type list"
  | MemFun cpp_type string "cpp_type list" qualifiers

record traits =
  ReturnType :: cpp_type
  Args :: "cpp_type list"

definition plain_traits :: "cpp_type \<Rightarrow> cpp_type list \<Rightarrow> traits" where
  "plain_traits r as = \<lparr>ReturnType = r, Args = as\<rparr>"

definition function_traits :: "(string \<Rightarrow> (cpp_type \<times> cpp_type list \<times> qualifiers) option) \<Rightarrow> cpp_type \<Rightarrow> traits option" where
  "function_traits operators T =
     (case T of
        Fun r as \<Rightarrow> Some (plain_traits r as)
      | FunPtr r as \<Rightarrow> Some (plain_traits r as)
      | StdFunction r as \<Rightarrow> Some (plain_traits r as)
      | MemFun r c as q \<Rightarrow> Some (plain_traits r as)
      | Plain c \<Rightarrow> map_option (\<lambda>(r, as, q). plain_traits r as) (operators c))"

definition arity :: "traits \<Rightarrow> nat" where
  "arity t = length (Args t)"

text \<open>\<open>args<I>::type\<close>; the assertion fails for an index out of range.\<close>

definition traits_args :: "traits \<Rightarrow> nat \<Rightarrow> cpp_type option" where
  "traits_args t i = (if i < arity t then Some (Args t ! i) else None)"

definition FunctionType :: "traits \<Rightarrow> cpp_type" where
  "FunctionType t = Fun (ReturnType t) (Args t)"

definition Pointer :: "traits \<Rightarrow> cpp_type" where
  "Pointer t = FunPtr (ReturnType t) (Args t)"

definition STLFunctionType :: "traits \<Rightarrow> cpp_type" where
  "STLFunctionType t = StdFunction (ReturnType t) (Args t)"

text \<open>The types that are made from the traits of a type have the same traits.\<close>

lemma traits_of_made:
  "function_traits ops (FunctionType t) = Some t" "function_traits ops (Pointer t) = Some t"
  "function_traits ops (STLFunctionType t) = Some t"
  by (simp_all add: function_traits_def FunctionType_def Pointer_def STLFunctionType_def plain_traits_def)

lemma traits_args_all: "map (traits_args t) [0..<arity t] = map Some (Args t)"
  by (rule nth_equalityI) (simp_all add: traits_args_def arity_def)

end
