(* ===== verification/LinkedList.thy ===== *)
theory LinkedList
  imports Prelude
begin

text \<open>
  \<^verbatim>\<open>utils/list.h\<close>: the singly linked \<open>List<T>\<close> every queue of the library is made of.

  The memory holds the nodes (\<open>ListNode<T>\<close>, reached by address) and the \<open>List\<close> objects
  (reached by a number), so that aliasing (\<open>l.swap(l)\<close>, \<open>l.append(l)\<close>, two lists that share
  nodes) is visible. \<open>new\<close> hands out the next address below \<open>2 ^ 64\<close> and never \<open>nullptr\<close>
  (address 0); \<open>delete\<close> removes the node. An operation returns \<open>None\<close> where the code has no
  defined result: a null or dangling pointer is dereferenced, or \<open>new\<close> throws \<open>bad_alloc\<close>.

  First the operations, then the relation between a memory and the abstract state that maps
  each \<open>List\<close> object to its elements, then one refinement lemma per operation and the
  simulation of every run.
\<close>

section \<open>State\<close>

record 'a list_node =
  data_f :: 'a
  next_f :: "nat option"

record list_obj =
  front_f :: "nat option"
  tail_f :: "nat option"
  size_f :: u64

record 'a list_mem =
  nodes :: "nat \<Rightarrow> 'a list_node option"
  brk :: nat
  lists :: "nat \<Rightarrow> list_obj"

definition list_init :: list_obj where
  "list_init = \<lparr>front_f = None, tail_f = None, size_f = 0\<rparr>"

definition mem_init :: "'a list_mem" where
  "mem_init = \<lparr>nodes = (\<lambda>_. None), brk = 1, lists = (\<lambda>_. list_init)\<rparr>"

definition new_node :: "'a \<Rightarrow> 'a list_mem \<Rightarrow> (nat \<times> 'a list_mem) option" where
  "new_node x m =
     (if brk m < 2 ^ 64
      then Some (brk m, m\<lparr>nodes := (nodes m)(brk m \<mapsto> \<lparr>data_f = x, next_f = None\<rparr>),
                          brk := brk m + 1\<rparr>)
      else None)"

definition set_next :: "nat \<Rightarrow> nat option \<Rightarrow> 'a list_mem \<Rightarrow> 'a list_mem option" where
  "set_next a v m =
     (case nodes m a of
        None \<Rightarrow> None
      | Some n \<Rightarrow> Some (m\<lparr>nodes := (nodes m)(a \<mapsto> n\<lparr>next_f := v\<rparr>)\<rparr>))"

definition put_list :: "nat \<Rightarrow> list_obj \<Rightarrow> 'a list_mem \<Rightarrow> 'a list_mem" where
  "put_list l ob m = m\<lparr>lists := (lists m)(l := ob)\<rparr>"

section \<open>Operations\<close>

definition emplace_front :: "nat \<Rightarrow> 'a \<Rightarrow> 'a list_mem \<Rightarrow> 'a list_mem option" where
  "emplace_front l x m = do {
     (a, m1) \<leftarrow> new_node x m;
     m2 \<leftarrow> (case front_f (lists m1 l) of
         None \<Rightarrow> Some (put_list l ((lists m1 l)\<lparr>front_f := Some a, tail_f := Some a\<rparr>) m1)
       | Some f \<Rightarrow> do {
           m' \<leftarrow> set_next a (Some f) m1;
           Some (put_list l ((lists m' l)\<lparr>front_f := Some a\<rparr>) m') });
     Some (put_list l ((lists m2 l)\<lparr>size_f := size_f (lists m2 l) + 1\<rparr>) m2) }"

definition emplace_back :: "nat \<Rightarrow> 'a \<Rightarrow> 'a list_mem \<Rightarrow> 'a list_mem option" where
  "emplace_back l x m = do {
     (a, m1) \<leftarrow> new_node x m;
     m2 \<leftarrow> (case tail_f (lists m1 l) of
         None \<Rightarrow> Some (put_list l ((lists m1 l)\<lparr>front_f := Some a, tail_f := Some a\<rparr>) m1)
       | Some t \<Rightarrow> do {
           m' \<leftarrow> set_next t (Some a) m1;
           Some (put_list l ((lists m' l)\<lparr>tail_f := Some a\<rparr>) m') });
     Some (put_list l ((lists m2 l)\<lparr>size_f := size_f (lists m2 l) + 1\<rparr>) m2) }"

definition delete_node :: "nat \<Rightarrow> 'a list_mem \<Rightarrow> 'a list_mem" where
  "delete_node a m = m\<lparr>nodes := (nodes m)(a := None)\<rparr>"

definition pop_front :: "nat \<Rightarrow> 'a list_mem \<Rightarrow> 'a list_mem option" where
  "pop_front l m =
     (case front_f (lists m l) of
        None \<Rightarrow> Some m
      | Some a \<Rightarrow> do {
          n \<leftarrow> nodes m a;
          let m1 = put_list l ((lists m l)\<lparr>front_f := next_f n\<rparr>) m;
          let m2 = delete_node a m1;
          let m3 = (if next_f n = None
                    then put_list l ((lists m2 l)\<lparr>tail_f := None\<rparr>) m2 else m2);
          Some (put_list l ((lists m3 l)\<lparr>size_f := size_f (lists m3 l) - 1\<rparr>) m3) })"

text \<open>
  The loops over the nodes follow \<open>next_f\<close> until \<open>nullptr\<close>. On a cyclic chain \<open>for_each\<close>
  does not return; \<open>clear\<close> then meets a node it has deleted.
\<close>

partial_function (option) clear_loop :: "nat option \<Rightarrow> 'a list_mem \<Rightarrow> 'a list_mem option" where
  "clear_loop ptr m =
     (case ptr of
        None \<Rightarrow> Some m
      | Some a \<Rightarrow> (case nodes m a of
          None \<Rightarrow> None
        | Some n \<Rightarrow> clear_loop (next_f n) (delete_node a m)))"

definition list_clear :: "nat \<Rightarrow> 'a list_mem \<Rightarrow> 'a list_mem option" where
  "list_clear l m = do {
     m1 \<leftarrow> clear_loop (front_f (lists m l)) m;
     Some (put_list l ((lists m1 l)\<lparr>front_f := None, tail_f := None, size_f := 0\<rparr>) m1) }"

definition list_front :: "nat \<Rightarrow> 'a list_mem \<Rightarrow> 'a option" where
  "list_front l m = do { a \<leftarrow> front_f (lists m l); n \<leftarrow> nodes m a; Some (data_f n) }"

definition list_back :: "nat \<Rightarrow> 'a list_mem \<Rightarrow> 'a option" where
  "list_back l m = do { a \<leftarrow> tail_f (lists m l); n \<leftarrow> nodes m a; Some (data_f n) }"

partial_function (option) for_each_loop ::
  "('a \<Rightarrow> 's \<Rightarrow> 's) \<Rightarrow> nat option \<Rightarrow> 'a list_mem \<Rightarrow> 's \<Rightarrow> 's option" where
  "for_each_loop f ptr m s =
     (case ptr of
        None \<Rightarrow> Some s
      | Some a \<Rightarrow> (case nodes m a of
          None \<Rightarrow> None
        | Some n \<Rightarrow> for_each_loop f (next_f n) m (f (data_f n) s)))"

definition list_for_each :: "nat \<Rightarrow> ('a \<Rightarrow> 's \<Rightarrow> 's) \<Rightarrow> 'a list_mem \<Rightarrow> 's \<Rightarrow> 's option" where
  "list_for_each l f m s = for_each_loop f (front_f (lists m l)) m s"

definition list_swap :: "nat \<Rightarrow> nat \<Rightarrow> 'a list_mem \<Rightarrow> 'a list_mem" where
  "list_swap l k m =
     (let tmp_node = front_f (lists m l);
          m1 = put_list l ((lists m l)\<lparr>front_f := front_f (lists m k)\<rparr>) m;
          m2 = put_list k ((lists m1 k)\<lparr>front_f := tmp_node\<rparr>) m1;
          tmp_tail = tail_f (lists m2 l);
          m3 = put_list l ((lists m2 l)\<lparr>tail_f := tail_f (lists m2 k)\<rparr>) m2;
          m4 = put_list k ((lists m3 k)\<lparr>tail_f := tmp_tail\<rparr>) m3;
          tmp_size = size_f (lists m4 l);
          m5 = put_list l ((lists m4 l)\<lparr>size_f := size_f (lists m4 k)\<rparr>) m4
      in put_list k ((lists m5 k)\<lparr>size_f := tmp_size\<rparr>) m5)"

text \<open>\<open>List(List&& that)\<close>: a fresh object takes the place of \<open>l\<close> and swaps with \<open>that\<close>.\<close>

definition list_move :: "nat \<Rightarrow> nat \<Rightarrow> 'a list_mem \<Rightarrow> 'a list_mem" where
  "list_move l k m = list_swap l k (put_list l list_init m)"

definition list_empty :: "nat \<Rightarrow> 'a list_mem \<Rightarrow> bool" where
  "list_empty l m \<longleftrightarrow> size_f (lists m l) = 0"

definition list_append :: "nat \<Rightarrow> nat \<Rightarrow> 'a list_mem \<Rightarrow> 'a list_mem option" where
  "list_append l k m =
     (if list_empty k m then Some m
      else do {
        m1 \<leftarrow> (case tail_f (lists m l) of
            Some t \<Rightarrow> set_next t (front_f (lists m k)) m
          | None \<Rightarrow> Some (put_list l ((lists m l)\<lparr>front_f := front_f (lists m k)\<rparr>) m));
        let m2 = put_list l ((lists m1 l)\<lparr>tail_f := tail_f (lists m1 k)\<rparr>) m1;
        let m3 = put_list l
          ((lists m2 l)\<lparr>size_f := size_f (lists m2 l) + size_f (lists m2 k)\<rparr>) m2;
        let m4 = put_list k ((lists m3 k)\<lparr>front_f := None, tail_f := None\<rparr>) m3;
        Some (put_list k ((lists m4 k)\<lparr>size_f := 0\<rparr>) m4) })"

text \<open>\<open>operator[]\<close>: \<open>while (pos--) ptr = ptr->next_f\<close>, then \<open>ptr->data_f\<close>.\<close>

fun index_loop :: "nat \<Rightarrow> nat option \<Rightarrow> 'a list_mem \<Rightarrow> 'a option" where
  "index_loop 0 ptr m = do { a \<leftarrow> ptr; n \<leftarrow> nodes m a; Some (data_f n) }"
| "index_loop (Suc pos) ptr m = do { a \<leftarrow> ptr; n \<leftarrow> nodes m a; index_loop pos (next_f n) m }"

definition list_index :: "nat \<Rightarrow> u64 \<Rightarrow> 'a list_mem \<Rightarrow> 'a option" where
  "list_index l pos m = index_loop (unat pos) (front_f (lists m l)) m"

definition list_size :: "nat \<Rightarrow> 'a list_mem \<Rightarrow> u64" where
  "list_size l m = size_f (lists m l)"

section \<open>Chains of nodes\<close>

fun chain :: "(nat \<Rightarrow> 'a list_node option) \<Rightarrow> nat option \<Rightarrow> nat list \<Rightarrow> bool" where
  "chain h p [] \<longleftrightarrow> p = None"
| "chain h p (a # as) \<longleftrightarrow> p = Some a \<and> (case h a of None \<Rightarrow> False | Some n \<Rightarrow> chain h (next_f n) as)"

definition cells :: "(nat \<Rightarrow> 'a list_node option) \<Rightarrow> nat list \<Rightarrow> 'a list" where
  "cells h ps = map (\<lambda>a. data_f (the (h a))) ps"

lemma cells_simps [simp]:
  "cells h [] = []"
  "cells h (a # ps) = data_f (the (h a)) # cells h ps"
  "cells h (ps @ qs) = cells h ps @ cells h qs"
  "length (cells h ps) = length ps"
  "cells h ps = [] \<longleftrightarrow> ps = []"
  by (auto simp: cells_def)

lemma chain_None [simp]: "chain h None ps \<longleftrightarrow> ps = []"
  by (cases ps) auto

lemma chain_Some: "chain h (Some a) ps \<longleftrightarrow>
  (\<exists>n qs. ps = a # qs \<and> h a = Some n \<and> chain h (next_f n) qs)"
  by (cases ps) (auto split: option.splits)

lemma chain_upd_notin [simp]: "a \<notin> set ps \<Longrightarrow> chain (h(a := v)) p ps = chain h p ps"
  by (induction ps arbitrary: p) (auto split: option.splits)

lemma cells_upd_notin [simp]: "a \<notin> set ps \<Longrightarrow> cells (h(a := v)) ps = cells h ps"
  by (auto simp: cells_def)

lemma cells_set_next [simp]:
  "h t = Some n \<Longrightarrow> cells (h(t \<mapsto> n\<lparr>next_f := v\<rparr>)) ps = cells h ps"
  by (auto simp: cells_def)

lemma chain_in_heap: "chain h p ps \<Longrightarrow> a \<in> set ps \<Longrightarrow> \<exists>n. h a = Some n"
  by (induction ps arbitrary: p) (auto split: option.splits)

lemma chain_front: "chain h p ps \<Longrightarrow> p = (if ps = [] then None else Some (hd ps))"
  by (cases ps) auto

text \<open>Redirecting the last node's \<open>next_f\<close> to another chain concatenates the two.\<close>

lemma chain_link:
  assumes "chain h p (ps @ [t])" and "distinct (ps @ [t])" and "chain h q qs"
    and "t \<notin> set qs" and "h t = Some n"
  shows "chain (h(t \<mapsto> n\<lparr>next_f := q\<rparr>)) p (ps @ t # qs)"
  using assms
proof (induction ps arbitrary: p)
  case Nil
  then show ?case by (simp del: fun_upd_apply add: fun_upd_same)
next
  case (Cons a ps)
  then show ?case by (auto split: option.splits)
qed

section \<open>The abstract state of a memory\<close>

text \<open>
  \<open>list_rep h ob ps\<close>: the object \<open>ob\<close> is a list whose nodes are \<open>ps\<close>. \<open>heap_inv m P\<close>: every
  object is a list, no node belongs to two of them, and every node of the memory belongs to
  one (nothing is leaked). \<open>list_rel m A\<close> forgets the addresses: \<open>A l\<close> are the elements of \<open>l\<close>.
\<close>

definition list_rep :: "(nat \<Rightarrow> 'a list_node option) \<Rightarrow> list_obj \<Rightarrow> nat list \<Rightarrow> bool" where
  "list_rep h ob ps \<longleftrightarrow>
     chain h (front_f ob) ps \<and> distinct ps \<and>
     tail_f ob = (if ps = [] then None else Some (last ps)) \<and>
     size_f ob = of_nat (length ps)"

definition heap_inv :: "'a list_mem \<Rightarrow> (nat \<Rightarrow> nat list) \<Rightarrow> bool" where
  "heap_inv m P \<longleftrightarrow>
     (\<forall>l. list_rep (nodes m) (lists m l) (P l)) \<and>
     (\<forall>l k. l \<noteq> k \<longrightarrow> set (P l) \<inter> set (P k) = {}) \<and>
     dom (nodes m) = (\<Union>l. set (P l)) \<and>
     dom (nodes m) \<subseteq> {0<..<brk m} \<and> 0 < brk m \<and> brk m \<le> 2 ^ 64"

definition list_rel :: "'a list_mem \<Rightarrow> (nat \<Rightarrow> 'a list) \<Rightarrow> bool" where
  "list_rel m A \<longleftrightarrow> (\<exists>P. heap_inv m P \<and> (\<forall>l. A l = cells (nodes m) (P l)))"

lemma chain_frame: "(\<And>a. a \<in> set ps \<Longrightarrow> h' a = h a) \<Longrightarrow> chain h' p ps = chain h p ps"
  by (induction ps arbitrary: p) (auto split: option.splits)

lemma cells_frame: "(\<And>a. a \<in> set ps \<Longrightarrow> h' a = h a) \<Longrightarrow> cells h' ps = cells h ps"
  by (auto simp: cells_def)

lemma list_rep_frame:
  "(\<And>a. a \<in> set ps \<Longrightarrow> h' a = h a) \<Longrightarrow> list_rep h' ob ps = list_rep h ob ps"
  using chain_frame [of ps h' h] by (simp add: list_rep_def)

lemma heap_invD:
  assumes "heap_inv m P"
  shows "list_rep (nodes m) (lists m l) (P l)"
    and "l \<noteq> k \<Longrightarrow> set (P l) \<inter> set (P k) = {}"
    and "dom (nodes m) = (\<Union>l. set (P l))"
    and "dom (nodes m) \<subseteq> {0<..<brk m}"
    and "brk m \<le> 2 ^ 64" and "0 < brk m"
  using assms unfolding heap_inv_def by (elim conjE, simp)+

lemma heap_inv_addr:
  assumes "heap_inv m P" and "a \<in> set (P l)"
  shows "0 < a" and "a < brk m"
proof -
  have "a \<in> dom (nodes m)"
    using heap_invD(3) [OF assms(1)] assms(2) by blast
  then have "a \<in> {0<..<brk m}"
    using heap_invD(4) [OF assms(1)] by blast
  then show "0 < a" and "a < brk m" by simp_all
qed

lemma heap_inv_fresh: "heap_inv m P \<Longrightarrow> brk m \<notin> set (P l)"
  using heap_inv_addr(2) by blast

lemma heap_inv_dom: "heap_inv m P \<Longrightarrow> set (P l) \<subseteq> dom (nodes m)"
  using heap_invD(3) by blast

lemma heap_inv_brk_dom: "heap_inv m P \<Longrightarrow> nodes m (brk m) = None"
  using heap_invD(4) by fastforce

lemma heap_inv_length: "heap_inv m P \<Longrightarrow> length (P l) < 2 ^ 64"
proof (cases "P l = []")
  case False
  assume inv: "heap_inv m P"
  have "set (P l) \<subseteq> {0<..<brk m}"
    using heap_invD(3,4) [OF inv] by auto
  moreover have "distinct (P l)"
    using heap_invD(1) [OF inv, of l] by (simp add: list_rep_def)
  ultimately have "length (P l) < brk m"
    using heap_invD(6) [OF inv] by (intro card_distinct_bound)
  then show ?thesis
    using heap_invD(5) [OF inv] by simp
qed simp

text \<open>The one step most operations take: object \<open>l\<close> and its own (or fresh) nodes change.\<close>

lemma heap_inv_upd:
  assumes inv: "heap_inv m P" and rep: "list_rep h' ob ps"
    and frame: "\<And>a. a \<in> dom (nodes m) \<Longrightarrow> a \<notin> set (P l) \<Longrightarrow> h' a = nodes m a"
    and dom: "dom h' = (dom (nodes m) - set (P l)) \<union> set ps"
    and fresh: "set ps \<subseteq> set (P l) \<union> {brk m..<b}" and b: "brk m \<le> b" "b \<le> 2 ^ 64"
  shows "heap_inv (m\<lparr>nodes := h', brk := b, lists := (lists m)(l := ob)\<rparr>) (P(l := ps)) \<and>
    (\<forall>k. k \<noteq> l \<longrightarrow> cells h' (P k) = cells (nodes m) (P k))"
proof -
  note D = heap_invD [OF inv]
  have other: "h' a = nodes m a" if "a \<in> set (P k)" "k \<noteq> l" for a k
    using that D(2) [of k l] D(3) by (intro frame) auto
  then have "\<forall>k. k \<noteq> l \<longrightarrow> cells h' (P k) = cells (nodes m) (P k)"
    by (intro allI impI cells_frame) auto
  moreover
  have "list_rep h' (lists m k) (P k)" if "k \<noteq> l" for k
    using D(1) [of k] list_rep_frame [of "P k" h' "nodes m", OF other [OF _ that]] by simp
  moreover have disj: "set ps \<inter> set (P k) = {}" if "k \<noteq> l" for k
  proof -
    have "a \<notin> set (P k)" if "a \<in> set ps" for a
    proof
      assume "a \<in> set (P k)"
      with heap_inv_addr(2) [OF inv this] D(2) [OF \<open>k \<noteq> l\<close>] fresh that show False by auto
    qed
    then show ?thesis by blast
  qed
  moreover have "dom h' = (\<Union>k. set ((P(l := ps)) k))"
  proof -
    have "dom (nodes m) - set (P l) = (\<Union>k\<in>-{l}. set (P k))"
    proof (intro set_eqI iffI)
      fix a assume "a \<in> dom (nodes m) - set (P l)"
      then show "a \<in> (\<Union>k\<in>-{l}. set (P k))" unfolding D(3) by blast
    next
      fix a assume "a \<in> (\<Union>k\<in>-{l}. set (P k))"
      then obtain k where "k \<noteq> l" "a \<in> set (P k)" by blast
      with D(2) [of k l] show "a \<in> dom (nodes m) - set (P l)" unfolding D(3) by blast
    qed
    moreover have "(\<Union>k. set ((P(l := ps)) k)) = (\<Union>k\<in>-{l}. set (P k)) \<union> set ps"
      by (auto split: if_splits)
    ultimately show ?thesis unfolding dom by simp
  qed
  moreover have "dom h' \<subseteq> {0<..<b}"
  proof
    fix a assume "a \<in> dom h'"
    then have "a \<in> dom (nodes m) \<or> a \<in> {brk m..<b}"
      unfolding dom using fresh D(3) by blast
    then have "a \<in> {0<..<brk m} \<or> a \<in> {brk m..<b}"
      using D(4) by blast
    then show "a \<in> {0<..<b}"
      using b D(6) by auto
  qed
  ultimately show ?thesis
    using rep b D(2,6) by (simp add: heap_inv_def Int_commute)
qed

section \<open>Each operation refines its list operation\<close>

lemma list_repD:
  assumes "list_rep h ob ps"
  shows "chain h (front_f ob) ps" and "distinct ps"
    and "tail_f ob = (if ps = [] then None else Some (last ps))"
    and "size_f ob = of_nat (length ps)"
  using assms by (simp_all add: list_rep_def)

lemma emplace_back_ok:
  assumes inv: "heap_inv m P" and room: "brk m < 2 ^ 64"
  obtains m' where "emplace_back l x m = Some m'"
    and "heap_inv m' (P(l := P l @ [brk m]))" and "brk m' = brk m + 1"
    and "\<And>k. cells (nodes m') ((P(l := P l @ [brk m])) k) =
           (if k = l then cells (nodes m) (P l) @ [x] else cells (nodes m) (P k))"
proof -
  note R = list_repD [OF heap_invD(1) [OF inv, of l]]
  obtain F T S where ob: "lists m l = \<lparr>front_f = F, tail_f = T, size_f = S\<rparr>"
    by (cases "lists m l")
  let ?a = "brk m" and ?new = "\<lparr>data_f = x, next_f = None\<rparr>"
  let ?ob = "\<lparr>front_f = (if P l = [] then Some ?a else front_f (lists m l)),
              tail_f = Some ?a, size_f = size_f (lists m l) + 1\<rparr>"
  define h' where "h' = (case tail_f (lists m l) of None \<Rightarrow> (nodes m)(?a \<mapsto> ?new)
      | Some t \<Rightarrow> ((nodes m)(?a \<mapsto> ?new))(t \<mapsto> (the (nodes m t))\<lparr>next_f := Some ?a\<rparr>))"
  let ?m = "m\<lparr>nodes := h', brk := ?a + 1, lists := (lists m)(l := ?ob)\<rparr>"
  have fresh: "?a \<notin> set (P k)" for k by (rule heap_inv_fresh [OF inv])
  have runs: "emplace_back l x m = Some ?m \<and> list_rep h' ?ob (P l @ [?a]) \<and>
      dom h' = insert ?a (dom (nodes m)) \<and>
      (\<forall>a \<in> dom (nodes m) - set (P l). h' a = nodes m a) \<and>
      cells h' (P l @ [?a]) = cells (nodes m) (P l) @ [x]"
  proof (cases "P l" rule: rev_cases)
    case Nil
    then show ?thesis
      using R room heap_inv_brk_dom [OF inv]
      by (auto simp: emplace_back_def new_node_def put_list_def h'_def list_rep_def ob)
  next
    case (snoc qs t)
    have t: "t \<in> set (P l)" "t \<noteq> ?a" using snoc fresh [of l] by auto
    then obtain n where n: "nodes m t = Some n" using R(1) chain_in_heap by blast
    let ?h = "(nodes m)(?a \<mapsto> ?new)"
    have "chain ?h (front_f (lists m l)) (qs @ [t])" "chain ?h (Some ?a) [?a]"
      using R(1) fresh [of l] snoc by simp_all
    moreover have "?h t = Some n" using t n by simp
    moreover have h': "h' = ?h(t \<mapsto> n\<lparr>next_f := Some ?a\<rparr>)"
      using R(3) snoc n by (simp add: h'_def)
    ultimately have "chain h' (front_f (lists m l)) (qs @ t # [?a])"
      using chain_link [of ?h "front_f (lists m l)" qs t "Some ?a" "[?a]" n] R(2) snoc t by simp
    moreover have "cells h' (P l @ [?a]) = cells (nodes m) (P l) @ [x]"
      using t n snoc fresh [of l] R(2) by (auto simp: h' cells_def)
    ultimately show ?thesis
      using R snoc room t n fresh [of l] heap_inv_brk_dom [OF inv]
      by (auto simp: emplace_back_def new_node_def put_list_def set_next_def h'_def list_rep_def ob
          split: if_splits)
  qed
  have upd: "heap_inv ?m (P(l := P l @ [?a])) \<and>
      (\<forall>k. k \<noteq> l \<longrightarrow> cells h' (P k) = cells (nodes m) (P k))"
    by (rule heap_inv_upd [OF inv])
      (use runs room heap_inv_dom [OF inv, of l] heap_inv_brk_dom [OF inv] in auto)
  from that [of ?m] runs upd show thesis by simp
qed

lemma emplace_front_ok:
  assumes inv: "heap_inv m P" and room: "brk m < 2 ^ 64"
  obtains m' where "emplace_front l x m = Some m'"
    and "heap_inv m' (P(l := brk m # P l))" and "brk m' = brk m + 1"
    and "\<And>k. cells (nodes m') ((P(l := brk m # P l)) k) =
           (if k = l then x # cells (nodes m) (P l) else cells (nodes m) (P k))"
proof -
  note R = list_repD [OF heap_invD(1) [OF inv, of l]]
  obtain F T S where ob: "lists m l = \<lparr>front_f = F, tail_f = T, size_f = S\<rparr>"
    by (cases "lists m l")
  let ?a = "brk m"
  let ?h = "(nodes m)(?a \<mapsto> \<lparr>data_f = x, next_f = F\<rparr>)"
  let ?ob = "\<lparr>front_f = Some ?a, tail_f = (if P l = [] then Some ?a else T), size_f = S + 1\<rparr>"
  let ?m = "m\<lparr>nodes := ?h, brk := ?a + 1, lists := (lists m)(l := ?ob)\<rparr>"
  have fresh: "?a \<notin> set (P k)" for k by (rule heap_inv_fresh [OF inv])
  have F: "F = (if P l = [] then None else Some (hd (P l)))"
    using chain_front [OF R(1)] ob by simp
  have runs: "emplace_front l x m = Some ?m"
    using R F room
    by (cases "P l") (simp_all add: emplace_front_def new_node_def put_list_def set_next_def ob)
  have rep: "list_rep ?h ?ob (?a # P l)"
    using R fresh [of l] by (auto simp: list_rep_def ob)
  have upd: "heap_inv ?m (P(l := ?a # P l)) \<and>
      (\<forall>k. k \<noteq> l \<longrightarrow> cells ?h (P k) = cells (nodes m) (P k))"
    by (rule heap_inv_upd [OF inv rep])
      (use room heap_inv_dom [OF inv, of l] heap_inv_brk_dom [OF inv] in auto)
  from that [of ?m] runs upd fresh [of l] show thesis by simp
qed

lemma pop_front_ok:
  assumes inv: "heap_inv m P"
  obtains m' where "pop_front l m = Some m'"
    and "heap_inv m' (P(l := tl (P l)))" and "brk m' = brk m"
    and "\<And>k. cells (nodes m') ((P(l := tl (P l))) k) =
           (if k = l then tl (cells (nodes m) (P l)) else cells (nodes m) (P k))"
proof (cases "P l")
  case Nil
  note R = list_repD [OF heap_invD(1) [OF inv, of l]]
  have "pop_front l m = Some m"
    using R(1) Nil by (simp add: pop_front_def)
  moreover have "P(l := tl (P l)) = P" using Nil by auto
  ultimately show thesis
    using inv Nil by (intro that [of m]) auto
next
  case (Cons a qs)
  note R = list_repD [OF heap_invD(1) [OF inv, of l]]
  obtain F T S where ob: "lists m l = \<lparr>front_f = F, tail_f = T, size_f = S\<rparr>"
    by (cases "lists m l")
  from R(1) Cons ob obtain n where n: "nodes m a = Some n" "F = Some a"
      and ch: "chain (nodes m) (next_f n) qs"
    by (auto split: option.splits)
  have a: "a \<notin> set qs" using R(2) Cons by simp
  let ?h = "(nodes m)(a := None)"
  let ?ob = "\<lparr>front_f = next_f n, tail_f = (if next_f n = None then None else T), size_f = S - 1\<rparr>"
  let ?m = "m\<lparr>nodes := ?h, lists := (lists m)(l := ?ob)\<rparr>"
  have runs: "pop_front l m = Some ?m"
    using n by (simp add: pop_front_def put_list_def delete_node_def ob Let_def)
  have rep: "list_rep ?h ?ob qs"
    using R ch a Cons chain_front [OF ch] by (auto simp: list_rep_def ob)
  have m: "?m = m\<lparr>nodes := ?h, brk := brk m, lists := (lists m)(l := ?ob)\<rparr>" by simp
  have upd: "heap_inv ?m (P(l := qs)) \<and>
      (\<forall>k. k \<noteq> l \<longrightarrow> cells ?h (P k) = cells (nodes m) (P k))"
    unfolding m
    by (rule heap_inv_upd [OF inv rep])
      (use heap_invD(5) [OF inv] heap_inv_dom [OF inv, of l] Cons a in auto)
  from that [of ?m] runs upd Cons a show thesis by simp
qed

lemma clear_loop_chain:
  "chain (nodes m) p ps \<Longrightarrow> distinct ps \<Longrightarrow>
   clear_loop p m = Some (m\<lparr>nodes := (\<lambda>a. if a \<in> set ps then None else nodes m a)\<rparr>)"
proof (induction ps arbitrary: p m)
  case Nil
  then show ?case by (simp add: clear_loop.simps)
next
  case (Cons a ps)
  then obtain n where n: "nodes m a = Some n" "chain (nodes m) (next_f n) ps" "p = Some a"
    by (auto split: option.splits)
  have "clear_loop p m = clear_loop (next_f n) (delete_node a m)"
    using n by (subst clear_loop.simps) simp
  also have "\<dots> = Some ((delete_node a m)\<lparr>nodes :=
      (\<lambda>b. if b \<in> set ps then None else nodes (delete_node a m) b)\<rparr>)"
    using Cons.prems n
    by (intro Cons.IH) (simp_all add: delete_node_def del: fun_upd_apply)
  also have "(\<lambda>b. if b \<in> set ps then None else nodes (delete_node a m) b) =
      (\<lambda>b. if b \<in> set (a # ps) then None else nodes m b)"
    by (auto simp: delete_node_def)
  also have "(delete_node a m)\<lparr>nodes := \<dots>\<rparr> = m\<lparr>nodes := \<dots>\<rparr>"
    by (simp add: delete_node_def)
  finally show ?case .
qed

lemma for_each_loop_chain:
  "chain (nodes m) p ps \<Longrightarrow> for_each_loop f p m s = Some (fold f (cells (nodes m) ps) s)"
proof (induction ps arbitrary: p s)
  case Nil
  then show ?case by (simp add: for_each_loop.simps)
next
  case (Cons a ps)
  then show ?case
    by (subst for_each_loop.simps) (auto split: option.splits)
qed

lemma index_loop_chain:
  "chain (nodes m) p ps \<Longrightarrow>
   index_loop i p m = (if i < length ps then Some (cells (nodes m) ps ! i) else None)"
proof (induction ps arbitrary: p i)
  case Nil
  then show ?case by (cases i) auto
next
  case (Cons a ps)
  then show ?case by (cases i) (auto split: option.splits)
qed

lemma list_clear_ok:
  assumes inv: "heap_inv m P"
  obtains m' where "list_clear l m = Some m'"
    and "heap_inv m' (P(l := []))" and "brk m' = brk m"
    and "\<And>k. cells (nodes m') ((P(l := [])) k) = (if k = l then [] else cells (nodes m) (P k))"
    and "dom (nodes m') = dom (nodes m) - set (P l)"
proof -
  note R = list_repD [OF heap_invD(1) [OF inv, of l]]
  let ?h = "\<lambda>a. if a \<in> set (P l) then None else nodes m a"
  let ?m = "m\<lparr>nodes := ?h, brk := brk m, lists := (lists m)(l := list_init)\<rparr>"
  have runs: "list_clear l m = Some ?m"
    using clear_loop_chain [OF R(1,2)]
    by (simp add: list_clear_def put_list_def list_init_def)
      (cases "lists m l"; simp)
  have upd: "heap_inv ?m (P(l := [])) \<and>
      (\<forall>k. k \<noteq> l \<longrightarrow> cells ?h (P k) = cells (nodes m) (P k))"
    by (rule heap_inv_upd [OF inv])
      (use heap_invD(5) [OF inv] in \<open>auto simp: list_rep_def list_init_def split: if_splits\<close>)
  have "dom ?h = dom (nodes m) - set (P l)" by (auto split: if_splits)
  with that [of ?m] runs upd show thesis by simp
qed

lemma list_swap_ok:
  assumes inv: "heap_inv m P"
  shows "heap_inv (list_swap l k m) (P(l := P k, k := P l))"
    and "nodes (list_swap l k m) = nodes m" and "brk (list_swap l k m) = brk m"
proof -
  have eq: "list_swap l k m = m\<lparr>lists := (lists m)(l := lists m k, k := lists m l)\<rparr>"
    by (cases "lists m l"; cases "lists m k")
      (auto simp: list_swap_def put_list_def Let_def fun_upd_twist)
  then show "nodes (list_swap l k m) = nodes m" and "brk (list_swap l k m) = brk m" by simp_all
  note D = heap_invD [OF inv]
  have "(\<Union>j. set ((P(l := P k, k := P l)) j)) = (\<Union>j. set (P j))"
    by (auto split: if_splits) metis+
  moreover have "i \<noteq> j \<Longrightarrow> set ((P(l := P k, k := P l)) i) \<inter> set ((P(l := P k, k := P l)) j) = {}" for i j
    using D(2) [of i j] D(2) [of i k] D(2) [of i l] D(2) [of l j] D(2) [of k j] D(2) [of k l] D(2) [of l k]
    by (auto split: if_splits)
  moreover have "list_rep (nodes m) (((lists m)(l := lists m k, k := lists m l)) i) ((P(l := P k, k := P l)) i)" for i
    using D(1) by simp
  ultimately show "heap_inv (list_swap l k m) (P(l := P k, k := P l))"
    unfolding eq heap_inv_def using D(3,4,5,6) by simp
qed

lemma list_empty_iff: "heap_inv m P \<Longrightarrow> list_empty l m \<longleftrightarrow> P l = []"
  using list_repD(4) [OF heap_invD(1), of m P l] heap_inv_length [of m P l]
  by (simp add: list_empty_def of_nat64_eq_0)

lemma list_append_ok:
  assumes inv: "heap_inv m P" and lk: "l \<noteq> k"
  obtains m' where "list_append l k m = Some m'"
    and "heap_inv m' (P(l := P l @ P k, k := []))" and "brk m' = brk m"
    and "\<And>j. cells (nodes m') ((P(l := P l @ P k, k := [])) j) =
           ((\<lambda>j. cells (nodes m) (P j))(l := cells (nodes m) (P l @ P k), k := [])) j"
proof (cases "P k = []")
  case True
  then have "list_append l k m = Some m"
    using list_empty_iff [OF inv] by (simp add: list_append_def)
  moreover have "P(l := P l @ P k, k := []) = P" using True by auto
  ultimately show thesis
    using inv True by (intro that [of m]) auto
next
  case False
  note D = heap_invD [OF inv]
  note L = list_repD [OF D(1) [of l]] and K = list_repD [OF D(1) [of k]]
  obtain F T S where ob: "lists m l = \<lparr>front_f = F, tail_f = T, size_f = S\<rparr>"
    by (cases "lists m l")
  obtain F' T' S' where ob': "lists m k = \<lparr>front_f = F', tail_f = T', size_f = S'\<rparr>"
    by (cases "lists m k")
  let ?obl = "\<lparr>front_f = (if P l = [] then F' else F), tail_f = T', size_f = S + S'\<rparr>"
  define h' where "h' = (case T of None \<Rightarrow> nodes m
      | Some t \<Rightarrow> (nodes m)(t \<mapsto> (the (nodes m t))\<lparr>next_f := F'\<rparr>))"
  let ?m = "m\<lparr>nodes := h', lists := (lists m)(l := ?obl, k := list_init)\<rparr>"
  let ?P = "P(l := P l @ P k, k := [])"
  have disj: "set (P l) \<inter> set (P k) = {}" using D(2) [OF lk] .
  have main: "list_append l k m = Some ?m \<and> chain h' (front_f ?obl) (P l @ P k) \<and>
      dom h' = dom (nodes m) \<and> (\<forall>a. a \<notin> set (P l) \<longrightarrow> h' a = nodes m a) \<and>
      (\<forall>ps. cells h' ps = cells (nodes m) ps)"
  proof (cases "P l" rule: rev_cases)
    case Nil
    then show ?thesis
      using L K False lk list_empty_iff [OF inv, of k]
      by (simp add: list_append_def put_list_def ob ob' h'_def list_init_def fun_upd_twist)
  next
    case (snoc qs t)
    then obtain n where n: "nodes m t = Some n"
      using L(1) chain_in_heap [of "nodes m" _ "P l" t] by auto
    have h': "h' = (nodes m)(t \<mapsto> n\<lparr>next_f := F'\<rparr>)"
      using L(3) snoc n by (simp add: h'_def ob)
    have "chain h' F (qs @ t # P k)"
      unfolding h' by (rule chain_link) (use L K snoc n disj in \<open>auto simp: ob ob'\<close>)
    then show ?thesis
      using L(3) K snoc n False lk list_empty_iff [OF inv, of k]
      by (auto simp: list_append_def put_list_def set_next_def ob ob' h' list_init_def fun_upd_twist)
  qed
  have "heap_inv ?m ?P"
  proof -
    have "list_rep h' (lists ?m j) (?P j)" for j
    proof -
      consider "j = l" | "j = k" | "j \<noteq> l" "j \<noteq> k" by blast
      then show ?thesis
      proof cases
        case 1
        then show ?thesis using main L K False lk disj by (auto simp: list_rep_def ob ob')
      next
        case 2
        then show ?thesis by (simp add: list_rep_def list_init_def)
      next
        case 3
        have "h' a = nodes m a" if "a \<in> set (P j)" for a
          using main D(2) [OF 3(1)] that by blast
        with list_rep_frame [of "P j" h' "nodes m"] D(1) [of j] 3 show ?thesis by simp
      qed
    qed
    moreover have "set (?P i) \<inter> set (?P j) = {}" if "i \<noteq> j" for i j
      using that D(2) [of i j] D(2) [of i k] D(2) [of i l] D(2) [of l j] D(2) [of k j] lk by auto
    moreover have "(\<Union>j. set (?P j)) = (\<Union>j. set (P j))"
      using lk by (auto split: if_splits) (metis Un_iff)+
    ultimately show ?thesis
      using main D(3,4,5,6) by (simp add: heap_inv_def)
  qed
  with that [of ?m] main lk show thesis by auto
qed

section \<open>Runs of operations\<close>

datatype 'a list_op =
    EmplaceFront nat 'a | EmplaceBack nat 'a | PopFront nat | Clear nat
  | Swap nat nat | Append nat nat

fun exec_list_op :: "'a list_op \<Rightarrow> 'a list_mem \<Rightarrow> 'a list_mem option" where
  "exec_list_op (EmplaceFront l x) m = emplace_front l x m"
| "exec_list_op (EmplaceBack l x) m = emplace_back l x m"
| "exec_list_op (PopFront l) m = pop_front l m"
| "exec_list_op (Clear l) m = list_clear l m"
| "exec_list_op (Swap l k) m = Some (list_swap l k m)"
| "exec_list_op (Append l k) m = list_append l k m"

fun spec_list_op :: "'a list_op \<Rightarrow> (nat \<Rightarrow> 'a list) \<Rightarrow> (nat \<Rightarrow> 'a list)" where
  "spec_list_op (EmplaceFront l x) A = A(l := x # A l)"
| "spec_list_op (EmplaceBack l x) A = A(l := A l @ [x])"
| "spec_list_op (PopFront l) A = A(l := tl (A l))"
| "spec_list_op (Clear l) A = A(l := [])"
| "spec_list_op (Swap l k) A = A(l := A k, k := A l)"
| "spec_list_op (Append l k) A = A(l := A l @ A k, k := [])"

fun list_op_ok :: "'a list_op \<Rightarrow> bool" where
  "list_op_ok (Append l k) = (l \<noteq> k)"
| "list_op_ok _ = True"

fun list_op_allocs :: "'a list_op \<Rightarrow> nat" where
  "list_op_allocs (EmplaceFront l x) = 1"
| "list_op_allocs (EmplaceBack l x) = 1"
| "list_op_allocs _ = 0"

lemma list_relI: "heap_inv m P \<Longrightarrow> (\<And>l. A l = cells (nodes m) (P l)) \<Longrightarrow> list_rel m A"
  by (auto simp: list_rel_def)

lemma list_relE:
  assumes "list_rel m A"
  obtains P where "heap_inv m P" and "A = (\<lambda>l. cells (nodes m) (P l))"
  using assms by (auto simp: list_rel_def)

lemma cells_tl: "cells h (tl ps) = tl (cells h ps)"
  by (cases ps) auto

lemma list_step_refines:
  assumes "list_rel m A" and "list_op_ok op" and "brk m + list_op_allocs op \<le> 2 ^ 64"
  shows "\<exists>m'. exec_list_op op m = Some m' \<and> list_rel m' (spec_list_op op A) \<and>
           brk m' = brk m + list_op_allocs op"
proof -
  from assms(1) obtain P where inv: "heap_inv m P" and A: "A = (\<lambda>l. cells (nodes m) (P l))"
    by (rule list_relE)
  show ?thesis
  proof (cases op)
    case (EmplaceFront l x)
    with assms(3) have "brk m < 2 ^ 64" by simp
    then show ?thesis
      by (rule emplace_front_ok [OF inv, of l x]) (auto simp: EmplaceFront A intro!: list_relI)
  next
    case (EmplaceBack l x)
    with assms(3) have "brk m < 2 ^ 64" by simp
    then show ?thesis
      by (rule emplace_back_ok [OF inv, of l x]) (auto simp: EmplaceBack A intro!: list_relI)
  next
    case (PopFront l)
    show ?thesis
      by (rule pop_front_ok [OF inv, of l]) (auto simp: PopFront A intro!: list_relI)
  next
    case (Clear l)
    show ?thesis
      by (rule list_clear_ok [OF inv, of l]) (auto simp: Clear A intro!: list_relI)
  next
    case (Swap l k)
    show ?thesis
      using list_swap_ok [OF inv, of l k] by (auto simp: Swap A intro!: list_relI)
  next
    case (Append l k)
    with assms(2) have "l \<noteq> k" by simp
    then show ?thesis
      by (rule list_append_ok [OF inv]) (auto simp: Append A intro!: list_relI)
  qed
qed

lemma mem_init_rel: "list_rel mem_init (\<lambda>_. [])"
  by (rule list_relI [where P = "\<lambda>_. []"])
    (auto simp: heap_inv_def mem_init_def list_rep_def list_init_def)

lemma list_move_rel:
  assumes "list_rel m A" and "A l = []" and "l \<noteq> k"
  shows "list_rel (list_move l k m) (A(l := A k, k := []))"
proof -
  from assms(1) obtain P where inv: "heap_inv m P" and A: "A = (\<lambda>l. cells (nodes m) (P l))"
    by (rule list_relE)
  have Pl: "P l = []" using assms(2) A by simp
  have "lists m l = list_init"
    using list_repD [OF heap_invD(1) [OF inv, of l]] Pl
    by (cases "lists m l") (simp add: list_init_def)
  then have "put_list l list_init m = m"
    by (simp add: put_list_def fun_upd_idem)
  then show ?thesis
    using list_swap_ok [OF inv, of l k] Pl assms(3)
    by (auto simp: list_move_def A intro!: list_relI)
qed

section \<open>The list interface\<close>

text \<open>
  What the queues of the library (\<open>TaskQueue\<close>, \<open>EventPoller::task_list_\<close>, the log writer,
  the send buffers) call, and the laws they rely on. The client lemmas are the two ways the
  library uses a list: elements pushed one by one come out in that order, and a list swapped
  into an empty local one is traversed completely while the shared one is left empty.
\<close>

locale list_queue =
  fixes rel :: "'m \<Rightarrow> (nat \<Rightarrow> 'a list) \<Rightarrow> bool"
    and push_back :: "nat \<Rightarrow> 'a \<Rightarrow> 'm \<Rightarrow> 'm option"
    and push_front :: "nat \<Rightarrow> 'a \<Rightarrow> 'm \<Rightarrow> 'm option"
    and first :: "nat \<Rightarrow> 'm \<Rightarrow> 'a option"
    and pop :: "nat \<Rightarrow> 'm \<Rightarrow> 'm option"
    and exchange :: "nat \<Rightarrow> nat \<Rightarrow> 'm \<Rightarrow> 'm"
    and each :: "nat \<Rightarrow> ('a \<Rightarrow> 's \<Rightarrow> 's) \<Rightarrow> 'm \<Rightarrow> 's \<Rightarrow> 's option"
  assumes push_back: "rel m A \<Longrightarrow> push_back l x m = Some m' \<Longrightarrow> rel m' (A(l := A l @ [x]))"
    and push_front: "rel m A \<Longrightarrow> push_front l x m = Some m' \<Longrightarrow> rel m' (A(l := x # A l))"
    and first: "rel m A \<Longrightarrow> first l m = (if A l = [] then None else Some (hd (A l)))"
    and pop: "rel m A \<Longrightarrow> \<exists>m'. pop l m = Some m' \<and> rel m' (A(l := tl (A l)))"
    and exchange: "rel m A \<Longrightarrow> rel (exchange l k m) (A(l := A k, k := A l))"
    and each: "rel m A \<Longrightarrow> each l f m s = Some (fold f (A l) s)"
begin

lemma push_all:
  "rel m A \<Longrightarrow> iter_opt (push_back l) xs m = Some m' \<Longrightarrow> rel m' (A(l := A l @ xs))"
proof (induction xs arbitrary: m A)
  case Nil
  then show ?case by simp
next
  case (Cons x xs)
  then obtain m1 where m1: "push_back l x m = Some m1" "iter_opt (push_back l) xs m1 = Some m'"
    by auto
  from Cons.IH [OF push_back [OF Cons.prems(1) m1(1)] m1(2)] show ?case
    by (simp add: fun_upd_same del: fun_upd_apply)
qed

lemma push_all_first:
  assumes "rel m A" and "A l = []" and "iter_opt (push_back l) (x # xs) m = Some m'"
  shows "first l m' = Some x"
  using first [OF push_all [OF assms(1,3)], of l] assms(2) by simp

lemma swap_drain:
  assumes "rel m A" and "k \<noteq> l" and "A k = []"
  shows "rel (exchange k l m) (A(k := A l, l := []))"
    and "each k f (exchange k l m) s = Some (fold f (A l) s)"
proof -
  show "rel (exchange k l m) (A(k := A l, l := []))"
    using exchange [OF assms(1), of k l] assms(3) by simp
  then show "each k f (exchange k l m) s = Some (fold f (A l) s)"
    using each assms(2) by fastforce
qed

end

lemma list_reads:
  assumes "list_rel m A"
  shows "list_front l m = (if A l = [] then None else Some (hd (A l)))"
    and "list_back l m = (if A l = [] then None else Some (last (A l)))"
    and "list_for_each l f m s = Some (fold f (A l) s)"
    and "list_index l pos m = (if unat pos < length (A l) then Some (A l ! unat pos) else None)"
    and "unat (list_size l m) = length (A l)"
    and "list_empty l m \<longleftrightarrow> A l = []"
proof -
  from assms(1) obtain P where inv: "heap_inv m P" and A: "A = (\<lambda>l. cells (nodes m) (P l))"
    by (rule list_relE)
  note R = list_repD [OF heap_invD(1) [OF inv, of l]]
  show "list_for_each l f m s = Some (fold f (A l) s)"
    by (simp add: list_for_each_def for_each_loop_chain [OF R(1)] A)
  show "list_index l pos m = (if unat pos < length (A l) then Some (A l ! unat pos) else None)"
    by (simp add: list_index_def index_loop_chain [OF R(1)] A)
  show "unat (list_size l m) = length (A l)"
    using heap_inv_length [OF inv, of l] by (simp add: list_size_def R(4) A unat_of_nat64)
  show "list_empty l m \<longleftrightarrow> A l = []"
    by (simp add: list_empty_iff [OF inv] A)
  have node: "\<exists>n. nodes m a = Some n" if "a \<in> set (P l)" for a
    using chain_in_heap [OF R(1) that] .
  show "list_front l m = (if A l = [] then None else Some (hd (A l)))"
    using chain_front [OF R(1)] node [of "hd (P l)"]
    by (cases "P l") (auto simp: list_front_def A)
  show "list_back l m = (if A l = [] then None else Some (last (A l)))"
    using R(3) node [of "last (P l)"]
    by (cases "P l" rule: rev_cases) (auto simp: list_back_def A)
qed

lemma emplace_back_rel:
  assumes "list_rel m A" and "emplace_back l x m = Some m'"
  shows "list_rel m' (A(l := A l @ [x]))"
proof -
  have "brk m < 2 ^ 64"
    using assms(2) by (auto simp: emplace_back_def new_node_def split: if_splits)
  with list_step_refines [OF assms(1), of "EmplaceBack l x"] assms(2) show ?thesis by simp
qed

lemma emplace_front_rel:
  assumes "list_rel m A" and "emplace_front l x m = Some m'"
  shows "list_rel m' (A(l := x # A l))"
proof -
  have "brk m < 2 ^ 64"
    using assms(2) by (auto simp: emplace_front_def new_node_def split: if_splits)
  with list_step_refines [OF assms(1), of "EmplaceFront l x"] assms(2) show ?thesis by simp
qed

lemma list_brk_bound: "list_rel m A \<Longrightarrow> brk m \<le> 2 ^ 64"
  using heap_invD(5) by (auto simp: list_rel_def)

interpretation lq: list_queue list_rel emplace_back emplace_front list_front pop_front list_swap
  list_for_each
proof unfold_locales
  fix m :: "'a list_mem" and A l k
  assume rel: "list_rel m A"
  show "\<exists>m'. pop_front l m = Some m' \<and> list_rel m' (A(l := tl (A l)))"
    using list_step_refines [OF rel, of "PopFront l"] list_brk_bound [OF rel] by auto
  show "list_rel (list_swap l k m) (A(l := A k, k := A l))"
    using list_step_refines [OF rel, of "Swap l k"] list_brk_bound [OF rel] by auto
qed (auto simp: list_reads emplace_back_rel emplace_front_rel)

section \<open>Properties\<close>

text \<open>
  Property C27. every run of list operations, over any number of list objects, returns and
  behaves as the operations on sequences do: no null or dangling pointer is followed, no two
  lists ever share a node, no node is leaked, and the size never wraps, provided \<open>append\<close> is
  not called with the list itself and the address space is not exhausted.
\<close>

theorem list_run_refines:
  assumes "list_rel m A" and "list_all list_op_ok ops"
    and "brk m + sum_list (map list_op_allocs ops) \<le> 2 ^ 64"
  shows "\<exists>m'. iter_opt exec_list_op ops m = Some m' \<and> list_rel m' (fold spec_list_op ops A)"
  using assms
proof (induction ops arbitrary: m A)
  case Nil
  then show ?case by simp
next
  case (Cons op ops)
  then obtain m1 where "exec_list_op op m = Some m1" "list_rel m1 (spec_list_op op A)"
      "brk m1 = brk m + list_op_allocs op"
    using list_step_refines [of m A op] by auto
  with Cons show ?case by simp
qed

theorem list_run_refines_witness:
  "\<exists>m'. iter_opt exec_list_op
          [EmplaceBack 0 (7::nat), EmplaceFront 0 3, EmplaceBack 1 9, Append 0 1, PopFront 0] mem_init
        = Some m' \<and> list_rel m' ((\<lambda>_. [])(0 := [7, 9], 1 := []))"
proof -
  let ?ops = "[EmplaceBack 0 (7::nat), EmplaceFront 0 3, EmplaceBack 1 9, Append 0 1, PopFront 0]"
  have ok: "list_all list_op_ok ?ops" by simp
  have room: "brk (mem_init :: nat list_mem) + sum_list (map list_op_allocs ?ops) \<le> 2 ^ 64"
    by (simp add: mem_init_def)
  have eq: "fold spec_list_op ?ops (\<lambda>_. []) = (\<lambda>_. [])(0 := [7, 9], 1 := [])"
    by (rule ext) simp
  from list_run_refines [OF mem_init_rel ok room] show ?thesis unfolding eq .
qed

text \<open>
  in every memory that represents \<open>A\<close>, the readers of a list return what the
  sequence says: \<open>front\<close> and \<open>back\<close> its ends (undefined on an empty list), \<open>operator[]\<close> the
  element at a position in range (a null dereference otherwise), \<open>for_each\<close> visits every
  element once in order, \<open>size\<close> is exact at 64 bits and \<open>empty\<close> agrees with it.
\<close>

theorem list_readers_correct:
  assumes "list_rel m A"
  shows "list_front l m = (if A l = [] then None else Some (hd (A l))) \<and>
         list_back l m = (if A l = [] then None else Some (last (A l))) \<and>
         list_index l pos m = (if unat pos < length (A l) then Some (A l ! unat pos) else None) \<and>
         list_for_each l f m s = Some (fold f (A l) s) \<and>
         unat (list_size l m) = length (A l) \<and> (list_empty l m \<longleftrightarrow> A l = [])"
  by (intro conjI list_reads [OF assms])

theorem list_readers_correct_witness:
  "\<exists>m. iter_opt (emplace_back 0) [5, 6 :: nat] mem_init = Some m \<and>
       list_front 0 m = Some 5 \<and> list_back 0 m = Some 6 \<and> list_index 0 1 m = Some 6 \<and>
       list_index 0 2 m = None \<and> list_for_each 0 (#) m [] = Some [6, 5] \<and>
       unat (list_size 0 m) = 2 \<and> \<not> list_empty 0 m"
proof -
  obtain m where m: "iter_opt (emplace_back 0) [5, 6 :: nat] mem_init = Some m"
    by (simp add: emplace_back_def new_node_def set_next_def put_list_def mem_init_def list_init_def)
  then have "list_rel m ((\<lambda>_. [])(0 := [5, 6]))"
    using lq.push_all [OF mem_init_rel m] by simp
  from list_readers_correct [OF this, of 0 1 "(#)" "[]"]
    list_readers_correct [OF this, of 0 2 "(#)" "[]"] m show ?thesis by auto
qed

text \<open>
  \<open>l.append(l)\<close> on a non-empty list returns, but loses every element: the object
  is an empty list afterwards while all its nodes stay allocated and unreachable.
\<close>

theorem list_append_self_leaks:
  assumes "list_rel m A" and "A l \<noteq> []"
  shows "\<exists>m'. list_append l l m = Some m' \<and> lists m' l = list_init \<and> dom (nodes m') = dom (nodes m)"
proof -
  from assms(1) obtain P where inv: "heap_inv m P" and A: "A = (\<lambda>l. cells (nodes m) (P l))"
    by (rule list_relE)
  note R = list_repD [OF heap_invD(1) [OF inv, of l]]
  have ne: "P l \<noteq> []" using assms(2) A by simp
  then obtain n where "nodes m (last (P l)) = Some n"
    using chain_in_heap [OF R(1) last_in_set] by blast
  then show ?thesis
    using R(3) ne list_empty_iff [OF inv, of l]
    by (auto simp: list_append_def set_next_def put_list_def list_init_def)
qed

theorem list_append_self_leaks_witness:
  "\<exists>m m'. emplace_back 0 (5::nat) mem_init = Some m \<and> list_append 0 0 m = Some m' \<and>
          lists m' 0 = list_init \<and> dom (nodes m') = {1}"
proof -
  obtain m where m: "emplace_back 0 (5::nat) mem_init = Some m" and d: "dom (nodes m) = {1}"
    by (auto simp: emplace_back_def new_node_def put_list_def mem_init_def list_init_def)
  have "list_rel m ((\<lambda>_. [])(0 := [5]))"
    using emplace_back_rel [OF mem_init_rel m] by simp
  from list_append_self_leaks [OF this, of 0] m d show ?thesis by auto
qed

end
