(* ===== verification/AsyncRace.thy ===== *)
theory AsyncRace
  imports LinkedList
begin

text \<open>
  \<^verbatim>\<open>poller/event_poller.cpp\<close>: \<open>async\<close> on several threads. The block in which it puts its task into the list
  takes no lock, so that the accesses of \<open>emplace_front\<close> and \<open>emplace_back\<close> of one thread fall between
  those of another and of the poller, which takes the list. Here each access to memory is a step,
  and the steps of a thread that is left alone are the operations of \<^theory_text>\<open>LinkedList\<close>. Calls that do not
  overlap lose nothing; two that do can lose a task, and one that overlaps with the poller can
  follow a null pointer.
\<close>

section \<open>The steps of a call\<close>

text \<open>
  Where a call is; the flag is \<open>first\<close>, the number the node. \<open>front_ = tail_ = node\<close> writes \<open>tail_\<close>
  first, and \<open>++size_\<close> reads before it writes.
\<close>

datatype 'a push_pc =
    PNew bool 'a
  | PTest bool nat
  | PTail nat
  | PFront nat
  | PLink bool nat
  | PEnd bool nat
  | PSize
  | PStore u64
  | PDone

definition upd_list :: "nat \<Rightarrow> (list_obj \<Rightarrow> list_obj) \<Rightarrow> 'a list_mem \<Rightarrow> 'a list_mem" where
  "upd_list l f m = put_list l (f (lists m l)) m"

fun push_step :: "nat \<Rightarrow> 'a push_pc \<times> 'a list_mem \<Rightarrow> ('a push_pc \<times> 'a list_mem) option" where
  "push_step l (PNew first x, m) = map_option (\<lambda>(a, m1). (PTest first a, m1)) (new_node x m)"
| "push_step l (PTest first a, m) =
     Some (if (if first then front_f (lists m l) else tail_f (lists m l)) = None then PTail a else PLink first a, m)"
| "push_step l (PTail a, m) = Some (PFront a, upd_list l (\<lambda>ob. ob\<lparr>tail_f := Some a\<rparr>) m)"
| "push_step l (PFront a, m) = Some (PSize, upd_list l (\<lambda>ob. ob\<lparr>front_f := Some a\<rparr>) m)"
| "push_step l (PLink True a, m) = map_option (Pair (PEnd True a)) (set_next a (front_f (lists m l)) m)"
| "push_step l (PLink False a, m) =
     (case tail_f (lists m l) of None \<Rightarrow> None | Some t \<Rightarrow> map_option (Pair (PEnd False a)) (set_next t (Some a) m))"
| "push_step l (PEnd True a, m) = Some (PSize, upd_list l (\<lambda>ob. ob\<lparr>front_f := Some a\<rparr>) m)"
| "push_step l (PEnd False a, m) = Some (PSize, upd_list l (\<lambda>ob. ob\<lparr>tail_f := Some a\<rparr>) m)"
| "push_step l (PSize, m) = Some (PStore (size_f (lists m l) + 1), m)"
| "push_step l (PStore n, m) = Some (PDone, upd_list l (\<lambda>ob. ob\<lparr>size_f := n\<rparr>) m)"
| "push_step l (PDone, m) = Some (PDone, m)"

definition emplace :: "bool \<Rightarrow> nat \<Rightarrow> 'a \<Rightarrow> 'a list_mem \<Rightarrow> 'a list_mem option" where
  "emplace first l x m = (if first then emplace_front l x m else emplace_back l x m)"

lemma upd_both_ends [simp]:
  "ob\<lparr>tail_f := x, front_f := y, size_f := n\<rparr> = ob\<lparr>front_f := y, tail_f := x, size_f := n\<rparr>"
  by (cases ob) simp

text \<open>A call that is left alone is the operation of the list.\<close>

lemma push_alone:
  "iter_opt (\<lambda>_. push_step l) (replicate 6 ()) (PNew first x, m) = map_option (Pair PDone) (emplace first l x m)"
proof (cases "new_node x m")
  case None
  then show ?thesis by (simp add: numeral_eq_Suc emplace_def emplace_front_def emplace_back_def)
next
  case (Some r)
  then obtain a m1 where new: "new_node x m = Some (a, m1)" by (cases r) auto
  show ?thesis
  proof (cases "if first then front_f (lists m1 l) else tail_f (lists m1 l)")
    case None
    then show ?thesis using new
      by (cases first) (simp_all add: numeral_eq_Suc emplace_def emplace_front_def emplace_back_def upd_list_def put_list_def)
  next
    case (Some t)
    then show ?thesis using new
      by (cases first; cases "set_next (if first then a else t) (Some (if first then t else a)) m1")
        (simp_all add: numeral_eq_Suc emplace_def emplace_front_def emplace_back_def upd_list_def put_list_def)
  qed
qed

section \<open>Threads and the poller\<close>

text \<open>
  The list of the poller is object 0, \<open>swap_list\<close> object 1; \<open>rc_pc\<close> is where each thread is, \<open>rc_ran\<close> are
  the tasks that have been run. \<open>RTake\<close> is the part of \<open>on_pipe_event\<close> that takes and runs the tasks,
  in one step: that is enough to go wrong.
\<close>

record 'a race =
  rc_mem :: "'a list_mem"
  rc_pc :: "nat \<Rightarrow> 'a push_pc"
  rc_ran :: "'a list"

datatype 'a race_event = RCall nat bool 'a | RStep nat | RTake

definition race_init :: "'a race" where
  "race_init = \<lparr>rc_mem = mem_init, rc_pc = (\<lambda>_. PDone), rc_ran = []\<rparr>"

fun race_step :: "'a race_event \<Rightarrow> 'a race \<Rightarrow> 'a race option" where
  "race_step (RCall t first x) s =
     (if rc_pc s t = PDone then Some (s\<lparr>rc_pc := (rc_pc s)(t := PNew first x)\<rparr>) else None)"
| "race_step (RStep t) s =
     map_option (\<lambda>(pc, m). s\<lparr>rc_pc := (rc_pc s)(t := pc), rc_mem := m\<rparr>) (push_step 0 (rc_pc s t, rc_mem s))"
| "race_step RTake s = do {
     let m = list_swap 1 0 (rc_mem s);
     rs \<leftarrow> list_for_each 1 (\<lambda>x xs. xs @ [x]) m (rc_ran s);
     m' \<leftarrow> list_clear 1 m;
     Some (s\<lparr>rc_mem := m', rc_ran := rs\<rparr>) }"

text \<open>A call as a whole, with no other step between its own.\<close>

definition whole_call :: "nat \<times> bool \<times> 'a \<Rightarrow> 'a race_event list" where
  "whole_call = (\<lambda>(t, first, x). RCall t first x # replicate 6 (RStep t))"

lemma iter_opt_append: "iter_opt f (xs @ ys) m = iter_opt f xs m \<bind> iter_opt f ys"
  by (induction xs arbitrary: m) (auto split: Option.bind_splits)

lemma race_steps:
  "iter_opt race_step (replicate n (RStep t)) s =
    map_option (\<lambda>(pc, m). s\<lparr>rc_pc := (rc_pc s)(t := pc), rc_mem := m\<rparr>)
      (iter_opt (\<lambda>_. push_step 0) (replicate n ()) (rc_pc s t, rc_mem s))"
proof (induction n arbitrary: s)
  case 0
  have "s\<lparr>rc_pc := (rc_pc s)(t := rc_pc s t), rc_mem := rc_mem s\<rparr> = s" by (cases s) (simp del: fun_upd_apply)
  then show ?case by (simp del: fun_upd_apply)
next
  case (Suc n)
  show ?case
    by (cases "push_step 0 (rc_pc s t, rc_mem s)") (auto simp: Suc split_beta fun_upd_same simp del: fun_upd_apply intro!: option.map_cong0)
qed

lemma whole_call_emplace:
  assumes "rc_pc s t = PDone"
  shows "iter_opt race_step (whole_call (t, first, x)) s = map_option (\<lambda>m. s\<lparr>rc_mem := m\<rparr>) (emplace first 0 x (rc_mem s))"
proof -
  have "(rc_pc s)(t := PDone) = rc_pc s" using assms by (rule fun_upd_idem)
  moreover have "s\<lparr>rc_pc := rc_pc s\<rparr> = s" by (cases s) simp
  ultimately have same: "s\<lparr>rc_pc := (rc_pc s)(t := PDone)\<rparr> = s" by (simp only:)
  have "iter_opt race_step (whole_call (t, first, x)) s =
      map_option (\<lambda>m. s\<lparr>rc_pc := (rc_pc s)(t := PDone), rc_mem := m\<rparr>) (emplace first 0 x (rc_mem s))"
    using race_steps [of 6 t "s\<lparr>rc_pc := (rc_pc s)(t := PNew first x)\<rparr>"] push_alone [of 0 first x "rc_mem s"] assms
    by (cases "emplace first 0 x (rc_mem s)") (simp_all add: whole_call_def fun_upd_same del: fun_upd_apply)
  then show ?thesis unfolding same .
qed

section \<open>Calls that do not overlap\<close>

text \<open>Whole calls, and turns of the poller between them; the queue and what has been run, as sequences.\<close>

datatype 'a turn = WholeCall nat bool 'a | Take

fun turn_events :: "'a turn \<Rightarrow> 'a race_event list" where
  "turn_events (WholeCall t first x) = whole_call (t, first, x)"
| "turn_events Take = [RTake]"

fun spec_turn :: "'a turn \<Rightarrow> 'a list \<times> 'a list \<Rightarrow> 'a list \<times> 'a list" where
  "spec_turn (WholeCall t first x) (q, rs) = (if first then x # q else q @ [x], rs)"
| "spec_turn Take (q, rs) = ([], rs @ q)"

definition race_rel :: "'a race \<Rightarrow> 'a list \<times> 'a list \<Rightarrow> bool" where
  "race_rel s a \<longleftrightarrow> list_rel (rc_mem s) ((\<lambda>_. [])(0 := fst a)) \<and> rc_ran s = snd a \<and> rc_pc s = (\<lambda>_. PDone)"

lemma fold_snoc: "fold (\<lambda>x xs. xs @ [x]) ys zs = zs @ ys"
  by (induction ys arbitrary: zs) auto

lemma turn_refines:
  assumes "race_rel s a" and "brk (rc_mem s) < 2 ^ 64"
  shows "\<exists>s'. iter_opt race_step (turn_events e) s = Some s' \<and> race_rel s' (spec_turn e a) \<and>
    brk (rc_mem s') \<le> brk (rc_mem s) + 1"
proof (cases e)
  case (WholeCall t first x)
  obtain q rs where a: "a = (q, rs)" by fastforce
  note rel = assms(1) [unfolded race_rel_def a fst_conv snd_conv]
  let ?op = "if first then EmplaceFront 0 x else EmplaceBack 0 x"
  from list_step_refines [OF conjunct1 [OF rel], of ?op] assms(2) obtain m where
    m: "emplace first 0 x (rc_mem s) = Some m" "list_rel m (spec_list_op ?op ((\<lambda>_. [])(0 := q)))"
      "brk m = brk (rc_mem s) + 1"
    by (cases first) (auto simp: emplace_def)
  have "spec_list_op ?op ((\<lambda>_. [])(0 := q)) = (\<lambda>_. [])(0 := if first then x # q else q @ [x])" by (auto simp: fun_eq_iff)
  with m whole_call_emplace [of s t first x] rel WholeCall show ?thesis by (simp add: race_rel_def a)
next
  case Take
  obtain q rs where a: "a = (q, rs)" by fastforce
  note rel = assms(1) [unfolded race_rel_def a fst_conv snd_conv]
  have ne: "(1::nat) \<noteq> 0" "((\<lambda>_. [])(0 := q)) (1::nat) = []" by simp_all
  note sw = lq.swap_drain(1) [OF conjunct1 [OF rel] ne]
  let ?A = "((\<lambda>_ :: nat. [])(0 := q))(1 := q, 0 := [])"
  have sw1: "list_rel (list_swap 1 0 (rc_mem s)) ?A" using sw by (simp only: fun_upd_same)
  have "list_for_each 1 (\<lambda>x xs. xs @ [x]) (list_swap 1 0 (rc_mem s)) (rc_ran s) = Some (rc_ran s @ q)"
    unfolding list_reads(3) [OF sw1] by (simp add: fold_snoc)
  moreover from list_step_refines [OF sw1, of "Clear 1"] list_brk_bound [OF sw1] obtain m where
    m: "list_clear 1 (list_swap 1 0 (rc_mem s)) = Some m" "list_rel m (?A(1 := []))"
      "brk m = brk (list_swap 1 0 (rc_mem s))"
    by auto
  moreover have "?A(1 := []) = (\<lambda>_ :: nat. [])(0 := [])" by (auto simp: fun_eq_iff)
  moreover have "brk (list_swap 1 0 (rc_mem s)) = brk (rc_mem s)" by (simp add: list_swap_def put_list_def Let_def)
  ultimately show ?thesis using Take rel by (simp add: race_rel_def a)
qed

text \<open>As long as no two calls overlap, every task is run, or still in the list, once and in its order.\<close>

theorem serial_async:
  assumes "length turns < 2 ^ 64 - 1"
  shows "\<exists>s. iter_opt race_step (concat (map turn_events turns)) race_init = Some s \<and>
    race_rel s (fold spec_turn turns ([], []))"
proof -
  have "race_rel s a \<Longrightarrow> brk (rc_mem s) + length turns < 2 ^ 64 \<Longrightarrow>
      \<exists>s'. iter_opt race_step (concat (map turn_events turns)) s = Some s' \<and> race_rel s' (fold spec_turn turns a)"
    for s :: "'a race" and a
  proof (induction turns arbitrary: s a)
    case (Cons e turns)
    from turn_refines [OF Cons.prems(1), of e] Cons.prems(2) obtain s1 where
      s1: "iter_opt race_step (turn_events e) s = Some s1" "race_rel s1 (spec_turn e a)"
        "brk (rc_mem s1) \<le> brk (rc_mem s) + 1" by auto
    with Cons.IH [OF s1(2)] Cons.prems(2) show ?case by (simp add: iter_opt_append)
  qed simp
  moreover have "race_rel (race_init :: 'a race) ([], [])"
  proof -
    have "(\<lambda>_ :: nat. [] :: 'a list)(0 := []) = (\<lambda>_. [])" by (rule ext) simp
    then show ?thesis using mem_init_rel by (simp add: race_rel_def race_init_def)
  qed
  ultimately show ?thesis using assms by (fastforce simp: race_init_def mem_init_def)
qed

section \<open>Calls that overlap\<close>

text \<open>
  Two threads find the list empty, and each makes its node the whole list: the task of the first is
  never run. The second schedule takes the list between the test and the link of \<open>emplace_back\<close>: \<open>tail_\<close>
  is null by then.
\<close>

definition losing :: "nat race_event list" where
  "losing = [RCall 1 False 10, RCall 2 False 20] @ concat (replicate 6 [RStep 1, RStep 2]) @ [RTake]"

definition crashing :: "nat race_event list" where
  "crashing = whole_call (1, False, 10) @ [RCall 2 False 20, RStep 2, RStep 2, RTake, RStep 2]"

lemma loop_steps:
  "for_each_loop f None m s = Some s"
  "for_each_loop f (Some a) m s = (case nodes m a of None \<Rightarrow> None | Some n \<Rightarrow> for_each_loop f (next_f n) m (f (data_f n) s))"
  "clear_loop None m = Some m"
  "clear_loop (Some a) m = (case nodes m a of None \<Rightarrow> None | Some n \<Rightarrow> clear_loop (next_f n) (delete_node a m))"
  by (simp_all add: for_each_loop.simps clear_loop.simps)

lemmas race_ops = race_init_def mem_init_def list_init_def new_node_def upd_list_def put_list_def set_next_def
  list_swap_def list_for_each_def list_clear_def list_empty_def delete_node_def loop_steps Let_def

lemma replicate_6: "replicate 6 x = [x, x, x, x, x, x]"
  by (simp add: numeral_eq_Suc)

theorem overlapping_async:
  "map_option (\<lambda>s. (rc_pc s 1, rc_pc s 2, rc_ran s, list_empty 0 (rc_mem s))) (iter_opt race_step losing race_init) =
     Some (PDone, PDone, [20], True)"
  "iter_opt race_step crashing race_init = None"
  by (simp_all add: losing_def crashing_def whole_call_def replicate_6 race_ops)

end
