(* ===== verification/Buffer.thy ===== *)
theory Buffer
  imports Prelude
begin

text \<open>
  \<^verbatim>\<open>net/buffer.h\<close> and the \<open>BufferSock\<close> part of \<^verbatim>\<open>net/buffer.cpp\<close>: the byte buffers.

  A block of memory is a list of bytes, \<open>None\<close> for a byte that was never written
  (\<open>new char[n]\<close> does not initialise). Reading or writing outside a block is the error
  \<open>OutOfBounds\<close>, \<open>SetSize\<close>'s exception is \<open>InvalidArgument\<close>. Sizes are \<open>uint32_t\<close>: words of
  32 bits whose arithmetic wraps.
\<close>

type_synonym byte = "8 word"
type_synonym block = "byte option list"

datatype buf_error = InvalidArgument | OutOfBounds

section \<open>BufferRaw\<close>

record raw_buf =
  raw_data :: "block option"
  raw_capacity :: u32
  raw_size :: u32

definition SetCapacity :: "u32 \<Rightarrow> raw_buf \<Rightarrow> raw_buf" where
  "SetCapacity capacity b =
     (if raw_data b \<noteq> None \<and> \<not> capacity > raw_capacity b \<and>
         (capacity < 2 * 1024 \<or> capacity * 2 > raw_capacity b)
      then b
      else b\<lparr>raw_data := Some (replicate (unat capacity) None), raw_capacity := capacity\<rparr>)"

text \<open>The constructor \<open>BufferRaw(capacity)\<close>.\<close>

definition raw_new :: "u32 \<Rightarrow> raw_buf" where
  "raw_new capacity =
     (let b = \<lparr>raw_data = None, raw_capacity = 0, raw_size = 0\<rparr>
      in if capacity \<noteq> 0 then SetCapacity capacity b else b)"

definition SetSize :: "u32 \<Rightarrow> raw_buf \<Rightarrow> buf_error + raw_buf" where
  "SetSize sz b = (if sz > raw_capacity b then Inl InvalidArgument else Inr (b\<lparr>raw_size := sz\<rparr>))"

text \<open>\<open>strlen\<close> on the bytes of the caller's object; \<open>None\<close> when it runs past its end.\<close>

fun c_strlen :: "byte list \<Rightarrow> nat option" where
  "c_strlen [] = None"
| "c_strlen (c # cs) = (if c = 0 then Some 0 else map_option Suc (c_strlen cs))"

definition block_of :: "raw_buf \<Rightarrow> block" where
  "block_of b = (case raw_data b of None \<Rightarrow> [] | Some d \<Rightarrow> d)"

text \<open>\<open>Assign\<close> on the bytes \<open>data\<close> of the caller's object; a size of 0 means a C string.\<close>

definition Assign :: "byte list \<Rightarrow> u32 \<Rightarrow> raw_buf \<Rightarrow> buf_error + raw_buf" where
  "Assign data len b =
     (case (if len \<le> 0 then map_option of_nat (c_strlen data) else Some len) of
        None \<Rightarrow> Inl OutOfBounds
      | Some sz \<Rightarrow>
          (let b1 = SetCapacity (sz + 1) b; d = block_of b1; n = unat sz
           in if n > length data \<or> n \<ge> length d then Inl OutOfBounds
              else SetSize sz
                (b1\<lparr>raw_data := Some (map Some (take n data) @ [Some 0] @ drop (Suc n) d)\<rparr>)))"

text \<open>\<open>Buffer::ToString\<close>: \<open>std::string(Data(), Size())\<close>.\<close>

definition raw_to_string :: "raw_buf \<Rightarrow> buf_error + block" where
  "raw_to_string b =
     (if unat (raw_size b) \<le> length (block_of b) then Inr (take (unat (raw_size b)) (block_of b))
      else Inl OutOfBounds)"

section \<open>BufferSock\<close>

record sock_buf =
  sb_buffer :: raw_buf
  sb_addr :: "byte list option"
  sb_addr_len :: u32

definition sock_new :: "raw_buf \<Rightarrow> byte list option \<Rightarrow> u32 \<Rightarrow> buf_error + sock_buf" where
  "sock_new buffer addr addr_len =
     (case addr of
        Some a \<Rightarrow>
          if addr_len \<noteq> 0
          then (if unat addr_len \<le> length a
                then Inr \<lparr>sb_buffer = buffer, sb_addr = Some (take (unat addr_len) a),
                          sb_addr_len = addr_len\<rparr>
                else Inl OutOfBounds)
          else Inr \<lparr>sb_buffer = buffer, sb_addr = None, sb_addr_len = 0\<rparr>
      | None \<Rightarrow> Inr \<lparr>sb_buffer = buffer, sb_addr = None, sb_addr_len = 0\<rparr>)"

definition sock_size :: "sock_buf \<Rightarrow> u32" where
  "sock_size b = raw_size (sb_buffer b)"

definition sock_block :: "sock_buf \<Rightarrow> block" where
  "sock_block b = block_of (sb_buffer b)"

text \<open>\<open>Buffer::Capacity\<close> and \<open>Buffer::ToString\<close> are inherited: over \<open>Data\<close> and \<open>Size\<close>.\<close>

definition sock_capacity :: "sock_buf \<Rightarrow> u32" where
  "sock_capacity b = sock_size b"

definition sock_to_string :: "sock_buf \<Rightarrow> buf_error + block" where
  "sock_to_string b =
     (if unat (sock_size b) \<le> length (sock_block b) then Inr (take (unat (sock_size b)) (sock_block b))
      else Inl OutOfBounds)"

section \<open>Well-formed buffers\<close>

text \<open>
  \<open>raw_alloc b\<close>: the block has \<open>capacity_\<close> bytes. \<open>raw_ok b\<close>: moreover the size is within it,
  which is what makes \<open>ToString\<close> (and \<open>sendmsg\<close> on the block) stay in bounds.
\<close>

definition raw_alloc :: "raw_buf \<Rightarrow> bool" where
  "raw_alloc b \<longleftrightarrow> length (block_of b) = unat (raw_capacity b)"

definition raw_ok :: "raw_buf \<Rightarrow> bool" where
  "raw_ok b \<longleftrightarrow> raw_alloc b \<and> raw_size b \<le> raw_capacity b"

lemma raw_new_ok: "raw_ok (raw_new c)"
  by (simp add: raw_ok_def raw_alloc_def raw_new_def SetCapacity_def block_of_def Let_def)

lemma SetCapacity_alloc [simp]: "raw_alloc b \<Longrightarrow> raw_alloc (SetCapacity c b)"
  by (simp add: raw_alloc_def SetCapacity_def block_of_def)

lemma SetCapacity_size [simp]: "raw_size (SetCapacity c b) = raw_size b"
  by (simp add: SetCapacity_def)

lemma SetCapacity_ge: "c \<le> raw_capacity (SetCapacity c b)"
  by (auto simp: SetCapacity_def)

lemma SetSize_ok: "raw_alloc b \<Longrightarrow> SetSize s b = Inr b' \<Longrightarrow> raw_ok b' \<and> raw_size b' = s"
  by (auto simp: SetSize_def raw_ok_def raw_alloc_def block_of_def split: if_splits)

lemma c_strlen_bound: "c_strlen cs = Some n \<Longrightarrow> n < length cs"
  by (induction cs arbitrary: n) (auto split: if_splits)

lemma raw_ok_string: "raw_ok b \<Longrightarrow> raw_to_string b = Inr (take (unat (raw_size b)) (block_of b))"
  by (simp add: raw_ok_def raw_alloc_def raw_to_string_def word_le_nat_alt)

section \<open>The buffer interface\<close>

text \<open>
  The abstract class \<open>Buffer\<close>: what \<open>BufferList\<close> and the read callbacks call. The law is that
  the block behind \<open>Data\<close> holds \<open>Size\<close> bytes; the client lemma is what gathering a list of
  buffers gives, the payload \<open>BufferList\<close> sends.
\<close>

locale buffer =
  fixes wf :: "'b \<Rightarrow> bool" and dat :: "'b \<Rightarrow> block" and sz :: "'b \<Rightarrow> u32"
    and cap :: "'b \<Rightarrow> u32" and to_string :: "'b \<Rightarrow> buf_error + block"
  assumes in_bounds: "wf b \<Longrightarrow> unat (sz b) \<le> length (dat b)"
    and within_cap: "wf b \<Longrightarrow> sz b \<le> cap b"
    and string: "wf b \<Longrightarrow> to_string b = Inr (take (unat (sz b)) (dat b))"
begin

lemma string_length: "wf b \<Longrightarrow> to_string b = Inr s \<Longrightarrow> length s = unat (sz b)"
  using in_bounds [of b] by (auto simp: string)

lemma gather_length:
  "list_all wf bs \<Longrightarrow>
   length (concat (map (\<lambda>b. take (unat (sz b)) (dat b)) bs)) = sum_list (map (\<lambda>b. unat (sz b)) bs)"
  using in_bounds by (induction bs) (simp_all add: min_absorb2)

end

definition sock_ok :: "sock_buf \<Rightarrow> bool" where
  "sock_ok b \<longleftrightarrow> raw_ok (sb_buffer b)"

lemma raw_ok_bounds: "raw_ok b \<Longrightarrow> unat (raw_size b) \<le> length (block_of b)"
  by (simp add: raw_ok_def raw_alloc_def word_le_nat_alt)

interpretation raw: buffer raw_ok block_of raw_size raw_capacity raw_to_string
  by unfold_locales (simp_all add: raw_ok_bounds raw_ok_string, simp add: raw_ok_def)

interpretation sock: buffer sock_ok sock_block sock_size sock_capacity sock_to_string
  by unfold_locales
    (simp_all add: sock_ok_def sock_block_def sock_size_def sock_capacity_def sock_to_string_def
      raw_ok_bounds)

section \<open>Properties\<close>

lemma unat_max32: "unat (of_nat (2 ^ 32 - 1) :: u32) = 2 ^ 32 - 1"
  by (simp add: unat_of_nat)

lemma Assign_sized:
  assumes alloc: "raw_alloc b" and n: "unat sz \<le> length data" and lim: "unat sz < 2 ^ 32 - 1"
    and b1: "b1 = SetCapacity (sz + 1) b"
    and b': "b' = b1\<lparr>raw_data := Some (map Some (take (unat sz) data) @ [Some 0] @
                 drop (Suc (unat sz)) (block_of b1)), raw_size := sz\<rparr>"
  shows "unat sz < length (block_of b1)" and "sz \<le> raw_capacity b1" and "raw_ok b'"
    and "raw_to_string b' = Inr (map Some (take (unat sz) data))"
    and "block_of b' ! unat sz = Some 0"
proof -
  have u: "unat (sz + 1) = unat sz + 1"
    using lim by (simp add: unat_word_ariths)
  have "raw_alloc b1" using alloc b1 by simp
  then have len: "length (block_of b1) = unat (raw_capacity b1)"
    by (simp add: raw_alloc_def)
  have ge: "unat sz + 1 \<le> unat (raw_capacity b1)"
    using SetCapacity_ge [of "sz + 1" b] u by (simp add: b1 word_le_nat_alt)
  then show lt: "unat sz < length (block_of b1)" and "sz \<le> raw_capacity b1"
    by (simp_all add: len word_le_nat_alt)
  have blk: "block_of b' = map Some (take (unat sz) data) @ [Some 0] @ drop (Suc (unat sz)) (block_of b1)"
    by (simp add: b' block_of_def)
  show ok: "raw_ok b'"
    using lt ge n unfolding raw_ok_def raw_alloc_def blk by (simp add: b' len word_le_nat_alt)
  show "raw_to_string b' = Inr (map Some (take (unat sz) data))"
    using n unfolding raw_ok_string [OF ok] blk by (simp add: b')
  show "block_of b' ! unat sz = Some 0"
    using n unfolding blk by (simp add: nth_append)
qed

lemma Assign_ok:
  assumes "raw_alloc b"
    and "if len = 0 then c_strlen data = Some n \<and> n < 2 ^ 32 else n = unat len \<and> n \<le> length data"
  shows "if n < 2 ^ 32 - 1
         then \<exists>b'. Assign data len b = Inr b' \<and> raw_ok b' \<and> unat (raw_size b') = n \<and>
                raw_to_string b' = Inr (map Some (take n data)) \<and> block_of b' ! n = Some 0
         else Assign data len b = Inl OutOfBounds"
proof -
  define sz where "sz = (if len = 0 then of_nat n else len)"
  have n: "unat sz = n" "n \<le> length data"
    using assms(2) c_strlen_bound [of data n]
    by (auto simp: sz_def unat_of_nat take_bit_nat_eq_self split: if_splits)
  have eff: "(if len \<le> 0 then map_option of_nat (c_strlen data) else Some len) = Some sz"
    using assms(2) by (auto simp: sz_def split: if_splits)
  show ?thesis
  proof (cases "n < 2 ^ 32 - 1")
    case True
    note S = Assign_sized [OF assms(1), of sz data, OF _ _ refl refl]
    show ?thesis
      using S n True unfolding Assign_def eff
      by (simp add: Let_def SetSize_def not_less [symmetric])
  next
    case False
    have "n < 2 ^ 32" using unat32_lt [of sz] n by simp
    with False have "n = 2 ^ 32 - 1" by simp
    then have "length (block_of (SetCapacity (sz + 1) b)) \<le> n"
      using SetCapacity_alloc [OF assms(1), of "sz + 1"]
        unat32_lt [of "raw_capacity (SetCapacity (sz + 1) b)"]
      by (simp add: raw_alloc_def)
    then show ?thesis
      using False n unfolding Assign_def eff by (simp add: Let_def)
  qed
qed

text \<open>
  Property C33. \<open>Assign\<close> makes the buffer hold exactly the \<open>n\<close> bytes given (or the C string up to
  its terminator when the size is 0), followed by a terminating zero inside the block, with the
  size set to \<open>n\<close> and all bounds kept, for every \<open>n\<close> below \<open>2 ^ 32 - 1\<close>. For \<open>n = 2 ^ 32 - 1\<close>
  the capacity computation \<open>size + 1\<close> wraps to 0 and the copy runs out of the block.
\<close>

theorem Assign_correct:
  assumes "raw_alloc b"
    and "if len = 0 then c_strlen data = Some n \<and> n < 2 ^ 32 else n = unat len \<and> n \<le> length data"
  shows "if n < 2 ^ 32 - 1
         then \<exists>b'. Assign data len b = Inr b' \<and> raw_ok b' \<and> unat (raw_size b') = n \<and>
                raw_to_string b' = Inr (map Some (take n data)) \<and> block_of b' ! n = Some 0
         else Assign data len b = Inl OutOfBounds"
  by (rule Assign_ok [OF assms])

theorem Assign_correct_witness:
  "\<exists>b'. Assign [104, 105, 0, 33] 0 (raw_new 0) = Inr b' \<and> raw_ok b' \<and> unat (raw_size b') = 2 \<and>
     raw_to_string b' = Inr [Some 104, Some 105] \<and> block_of b' ! 2 = Some 0"
proof -
  have a: "raw_alloc (raw_new 0)" using raw_new_ok by (simp add: raw_ok_def)
  have s: "if (0 :: u32) = 0 then c_strlen [104, 105, 0, 33] = Some 2 \<and> (2 :: nat) < 2 ^ 32
     else 2 = unat (0 :: u32) \<and> 2 \<le> length [104, 105, 0, 33 :: byte]" by simp
  show ?thesis using Assign_correct [OF a s] by simp
qed

text \<open>
  \<open>SetCapacity\<close> always leaves at least the requested capacity and a block of that
  size. Below \<open>2 ^ 31\<close> it keeps the block (and the bytes in it) exactly when the request fits
  and is either under 2048 bytes or more than half of what is allocated; otherwise it allocates
  exactly what was asked and the old bytes are gone.
\<close>

theorem SetCapacity_correct:
  assumes "raw_alloc b" and "unat c < 2 ^ 31"
  shows "let b' = SetCapacity c b;
             keep = (raw_data b \<noteq> None \<and> unat c \<le> unat (raw_capacity b) \<and>
                     (unat c < 2048 \<or> 2 * unat c > unat (raw_capacity b)))
         in raw_alloc b' \<and> c \<le> raw_capacity b' \<and> raw_size b' = raw_size b \<and>
            (if keep then b' = b
             else raw_capacity b' = c \<and> block_of b' = replicate (unat c) None)"
proof -
  have "unat (c * 2) = 2 * unat c"
    using assms(2) by (simp add: unat_word_ariths)
  then show ?thesis
    using assms(1) SetCapacity_ge [of c b]
    by (auto simp: SetCapacity_def word_less_nat_alt word_le_nat_alt Let_def block_of_def raw_alloc_def)
qed

theorem SetCapacity_correct_witness:
  "raw_capacity (SetCapacity 1500 (raw_new 3000)) = 3000 \<and>
   raw_capacity (SetCapacity 2048 (raw_new 8192)) = 2048"
proof -
  have a: "raw_alloc (raw_new c)" for c using raw_new_ok by (simp add: raw_ok_def)
  have c: "raw_data (raw_new 3000) \<noteq> None" "raw_capacity (raw_new 3000) = 3000"
    "raw_data (raw_new 8192) \<noteq> None" "raw_capacity (raw_new 8192) = 8192"
    by (simp_all add: raw_new_def SetCapacity_def)
  show ?thesis
    using SetCapacity_correct [OF a, of 1500 3000] SetCapacity_correct [OF a, of 2048 8192] c
    by (simp add: Let_def)
qed

text \<open>
  shrinking the capacity does not reset the size. After \<open>SetCapacity(c)\<close> with
  \<open>2048 \<le> c\<close> and \<open>2 * c\<close> at most the old capacity, a buffer whose size was above \<open>c\<close> reports
  more bytes than it has, and \<open>ToString\<close> reads past its block.
\<close>

theorem SetCapacity_shrink_out_of_bounds:
  assumes "raw_ok b" and "2048 \<le> unat c" and "2 * unat c \<le> unat (raw_capacity b)"
    and "unat c < unat (raw_size b)"
  shows "raw_size (SetCapacity c b) > raw_capacity (SetCapacity c b) \<and>
         raw_to_string (SetCapacity c b) = Inl OutOfBounds"
proof -
  have c: "unat c < 2 ^ 31"
    using assms(3) unat32_lt [of "raw_capacity b"] by simp
  have alloc: "raw_alloc b" using assms(1) by (simp add: raw_ok_def)
  have "raw_capacity (SetCapacity c b) = c \<and> block_of (SetCapacity c b) = replicate (unat c) None"
    using SetCapacity_correct [OF alloc c] assms(2,3) by (simp add: Let_def)
  then show ?thesis
    using assms(4) by (simp add: raw_to_string_def word_less_nat_alt)
qed

theorem SetCapacity_shrink_out_of_bounds_witness:
  "\<exists>b. SetSize 8192 (raw_new 8192) = Inr b \<and> raw_to_string (SetCapacity 2048 b) = Inl OutOfBounds"
proof -
  obtain b where b: "SetSize 8192 (raw_new 8192) = Inr b" "raw_size b = 8192" "raw_capacity b = 8192"
    by (simp add: SetSize_def raw_new_def SetCapacity_def)
  have "raw_ok b"
    using SetSize_ok [OF _ b(1)] raw_new_ok [of 8192] raw_ok_def by blast
  from SetCapacity_shrink_out_of_bounds [OF this, of 2048] b show ?thesis by auto
qed

end
