(* ===== verification/BufferList.thy ===== *)
theory BufferList
  imports Buffer UvError
begin

text \<open>
  The \<open>BufferList\<close> part of \<^verbatim>\<open>net/buffer.cpp\<close>: a batch of packets sent with \<open>sendmsg\<close>, on a
  stream (several packets in one call, partial sends) or as datagrams (one packet per call, to
  the address it carries).

  An \<open>iovec\<close> is a position in a block and a length. \<open>iovec_off_\<close> and \<open>remain_size_\<close> are \<open>int\<close>s,
  with the conversions from \<open>size_t\<close> written out as \<open>int32\<close>. The kernel is a parameter
  \<open>sm\<close> with a state of its own: a call of \<open>sendmsg\<close> returns its value and, if that is -1, the
  error number it stores in \<open>errno\<close>. The retry on \<open>EINTR\<close> and the loop of \<open>send\<close> may run
  forever, so their result is an option; \<open>None\<close> also stands for the undefined behaviour of
  reading a packet that is not there or has no address field.
\<close>

section \<open>Packets\<close>

text \<open>The concrete classes behind a \<open>Buffer::Ptr\<close>, and the virtual calls on it.\<close>

datatype packet = Raw raw_buf | Sock sock_buf

fun packet_block :: "packet \<Rightarrow> block" where
  "packet_block (Raw b) = block_of b"
| "packet_block (Sock b) = sock_block b"

fun packet_size :: "packet \<Rightarrow> u32" where
  "packet_size (Raw b) = raw_size b"
| "packet_size (Sock b) = sock_size b"

fun packet_capacity :: "packet \<Rightarrow> u32" where
  "packet_capacity (Raw b) = raw_capacity b"
| "packet_capacity (Sock b) = sock_capacity b"

fun packet_to_string :: "packet \<Rightarrow> buf_error + block" where
  "packet_to_string (Raw b) = raw_to_string b"
| "packet_to_string (Sock b) = sock_to_string b"

fun packet_ok :: "packet \<Rightarrow> bool" where
  "packet_ok (Raw b) = raw_ok b"
| "packet_ok (Sock b) = sock_ok b"

interpretation pkt: buffer packet_ok packet_block packet_size packet_capacity packet_to_string
proof unfold_locales
  fix b assume "packet_ok b"
  then show "unat (packet_size b) \<le> length (packet_block b)"
    and "packet_size b \<le> packet_capacity b"
    and "packet_to_string b = Inr (take (unat (packet_size b)) (packet_block b))"
    by (cases b; simp add: raw.in_bounds sock.in_bounds raw.within_cap sock.within_cap
        raw.string sock.string)+
qed

section \<open>State\<close>

record iovec =
  iov_mem :: block
  iov_off :: int
  iov_len :: int

record buffer_list =
  bl_iovec :: "iovec list"
  bl_iovec_off :: int
  bl_remain_size :: int
  bl_pkts :: "packet list"

record msghdr =
  msg_name :: "byte list option"
  msg_iov :: "block list"
  msg_flags :: int

abbreviation IOV_MAX :: nat where "IOV_MAX \<equiv> 1024"

text \<open>The bytes an \<open>iovec\<close> points to.\<close>

definition iov_bytes :: "iovec \<Rightarrow> block" where
  "iov_bytes v = take (nat (iov_len v)) (drop (nat (iov_off v)) (iov_mem v))"

section \<open>Operations\<close>

definition iov_of :: "packet \<Rightarrow> iovec" where
  "iov_of p = \<lparr>iov_mem = packet_block p, iov_off = 0, iov_len = uint (packet_size p)\<rparr>"

text \<open>The constructor takes the whole list over and adds up the sizes.\<close>

definition bl_new :: "packet list \<Rightarrow> buffer_list" where
  "bl_new pkts =
     \<lparr>bl_iovec = map iov_of pkts, bl_iovec_off = 0,
      bl_remain_size = fold (\<lambda>p r. int32 (r + uint (packet_size p))) pkts 0,
      bl_pkts = pkts\<rparr>"

definition bl_empty :: "buffer_list \<Rightarrow> bool" where
  "bl_empty bl \<longleftrightarrow> bl_iovec_off bl = int32 (int (length (bl_iovec bl)))"

definition bl_count :: "buffer_list \<Rightarrow> int" where
  "bl_count bl = int32 (int (length (bl_iovec bl)) - bl_iovec_off bl)"

text \<open>
  \<open>reoffset\<close>: the first loop walks to the iovec in which the last of \<open>n\<close> bytes lies and cuts it,
  the second drops the packets before the new position. The first returns the new iovecs and
  the new \<open>iovec_off_\<close>.
\<close>

function reoffset_loop :: "int \<Rightarrow> int \<Rightarrow> int \<Rightarrow> int \<Rightarrow> iovec list \<Rightarrow> iovec list \<times> int" where
  "reoffset_loop n cur i offset vs =
     (if i < int32 (int (length vs)) then
        (let ref = vs ! nat i; offset = int32 (offset + iov_len ref) in
         if offset < n then reoffset_loop n cur (i + 1) offset vs
         else (let remain = offset - n;
                   ref' = ref\<lparr>iov_off := iov_off ref + iov_len ref - remain, iov_len := remain\<rparr>
               in (vs[nat i := ref'], if remain = 0 then i + 1 else i)))
      else (vs, cur))"
  by pat_completeness auto
termination
  by (relation "measure (\<lambda>(n, cur, i, offset, vs). nat (int32 (int (length vs)) - i))") auto

declare reoffset_loop.simps [simp del]

definition reoffset :: "int \<Rightarrow> buffer_list \<Rightarrow> buffer_list" where
  "reoffset n bl =
     (let last_off = bl_iovec_off bl;
          (vs, cur) = reoffset_loop n last_off last_off 0 (bl_iovec bl)
      in bl\<lparr>bl_remain_size := bl_remain_size bl - n, bl_iovec := vs, bl_iovec_off := cur,
            bl_pkts := drop (nat (cur - last_off)) (bl_pkts bl)\<rparr>)"

definition mk_msg :: "int \<Rightarrow> bool \<Rightarrow> buffer_list \<Rightarrow> msghdr option" where
  "mk_msg flags udp bl = do {
     name \<leftarrow> (if \<not> udp then Some None
             else (case bl_pkts bl of Sock b # _ \<Rightarrow> Some (sb_addr b) | _ \<Rightarrow> None));
     let vs = drop (nat (bl_iovec_off bl)) (bl_iovec bl);
     let mx = (if udp then 1 else IOV_MAX);
     Some \<lparr>msg_name = name, msg_iov = map iov_bytes (take mx vs), msg_flags = flags\<rparr> }"

type_synonym 'k sendmsg = "'k \<Rightarrow> int \<Rightarrow> msghdr \<Rightarrow> (int \<times> errno) \<times> 'k"

partial_function (option) sendmsg_retry ::
  "'k sendmsg \<Rightarrow> int \<Rightarrow> msghdr \<Rightarrow> errno \<Rightarrow> 'k \<Rightarrow> (int \<times> errno \<times> 'k) option" where
  "sendmsg_retry sm fd msg e k =
     (let (n, err) = fst (sm k fd msg); k' = snd (sm k fd msg); e' = (if n = -1 then err else e)
      in if n = -1 \<and> get_uv_error e' = EINTR then sendmsg_retry sm fd msg e' k'
         else Some (n, e', k'))"

definition send_l ::
  "'k sendmsg \<Rightarrow> int \<Rightarrow> int \<Rightarrow> bool \<Rightarrow> buffer_list \<Rightarrow> errno \<Rightarrow> 'k \<Rightarrow>
   (int \<times> buffer_list \<times> errno \<times> 'k) option" where
  "send_l sm fd flags udp bl e k = do {
     msg \<leftarrow> mk_msg flags udp bl;
     (n, e', k') \<leftarrow> sendmsg_retry sm fd msg e k;
     Some (n,
       if n \<ge> bl_remain_size bl
       then bl\<lparr>bl_iovec_off := int32 (int (length (bl_iovec bl))), bl_remain_size := 0\<rparr>
       else if n > 0 then reoffset n bl
       else bl, e', k') }"

partial_function (option) send_loop ::
  "'k sendmsg \<Rightarrow> int \<Rightarrow> int \<Rightarrow> bool \<Rightarrow> buffer_list \<Rightarrow> errno \<Rightarrow> 'k \<Rightarrow>
   (buffer_list \<times> errno \<times> 'k) option" where
  "send_loop sm fd flags udp bl e k =
     (if bl_remain_size bl = 0 then Some (bl, e, k)
      else Option.bind (send_l sm fd flags udp bl e k) (\<lambda>r.
        if fst r \<noteq> -1
        then send_loop sm fd flags udp (fst (snd r)) (fst (snd (snd r))) (snd (snd (snd r)))
        else Some (snd r)))"

definition bl_send ::
  "'k sendmsg \<Rightarrow> int \<Rightarrow> int \<Rightarrow> bool \<Rightarrow> buffer_list \<Rightarrow> errno \<Rightarrow> 'k \<Rightarrow>
   (int \<times> buffer_list \<times> errno \<times> 'k) option" where
  "bl_send sm fd flags udp bl e k = do {
     (bl', e', k') \<leftarrow> send_loop sm fd flags udp bl e k;
     let sent = bl_remain_size bl - bl_remain_size bl';
     Some (if sent > 0 then sent else -1, bl', e', k') }"

section \<open>What a batch still has to send\<close>

definition iov_ok :: "iovec \<Rightarrow> bool" where
  "iov_ok v \<longleftrightarrow> 0 < iov_len v \<and> 0 \<le> iov_off v \<and> iov_off v + iov_len v \<le> int (length (iov_mem v))"

definition iov_total :: "iovec list \<Rightarrow> int" where
  "iov_total vs = sum_list (map iov_len vs)"

definition todo :: "buffer_list \<Rightarrow> iovec list" where
  "todo bl = drop (nat (bl_iovec_off bl)) (bl_iovec bl)"

definition pending :: "buffer_list \<Rightarrow> block" where
  "pending bl = concat (map iov_bytes (todo bl))"

text \<open>
  The invariant of a batch made of the packets \<open>ps\<close>: the position is in range, the remaining
  size is the total of what is left (and an \<open>int\<close> can hold it), every iovec left points inside
  its block, all but the first are untouched, and the packet list has moved in step.
\<close>

definition bl_inv :: "packet list \<Rightarrow> buffer_list \<Rightarrow> bool" where
  "bl_inv ps bl \<longleftrightarrow>
     0 \<le> bl_iovec_off bl \<and> nat (bl_iovec_off bl) \<le> length (bl_iovec bl) \<and>
     length (bl_iovec bl) = length ps \<and> length ps < 2 ^ 31 \<and>
     list_all iov_ok (todo bl) \<and>
     tl (todo bl) = map iov_of (tl (drop (nat (bl_iovec_off bl)) ps)) \<and>
     bl_remain_size bl = iov_total (todo bl) \<and> bl_remain_size bl < 2 ^ 31 \<and>
     (0 < bl_remain_size bl \<longrightarrow> bl_pkts bl = drop (nat (bl_iovec_off bl)) ps)"

lemma iov_total_simps [simp]:
  "iov_total [] = 0" "iov_total (v # vs) = iov_len v + iov_total vs"
  "iov_total (vs @ ws) = iov_total vs + iov_total ws"
  by (simp_all add: iov_total_def)

lemma iov_total_nonneg: "list_all iov_ok vs \<Longrightarrow> 0 \<le> iov_total vs"
  by (induction vs) (auto simp: iov_ok_def)

lemma iov_total_pos: "list_all iov_ok vs \<Longrightarrow> vs \<noteq> [] \<Longrightarrow> 0 < iov_total vs"
  using iov_total_nonneg by (cases vs) (auto simp: iov_ok_def add_pos_nonneg)

lemma iov_bytes_length: "iov_ok v \<Longrightarrow> length (iov_bytes v) = nat (iov_len v)"
  by (auto simp: iov_ok_def iov_bytes_def)

lemma iov_total_bytes:
  "list_all iov_ok vs \<Longrightarrow> int (length (concat (map iov_bytes vs))) = iov_total vs"
  by (induction vs) (auto simp: iov_bytes_length, auto simp: iov_ok_def)

lemma iov_bytes_cut:
  "iov_ok v \<Longrightarrow> 0 \<le> k \<Longrightarrow> k \<le> iov_len v \<Longrightarrow>
   iov_bytes (v\<lparr>iov_off := iov_off v + k, iov_len := iov_len v - k\<rparr>) = drop (nat k) (iov_bytes v)"
  by (simp add: iov_ok_def iov_bytes_def drop_take nat_add_distrib nat_diff_distrib add.commute)

lemma iov_ok_cut:
  "iov_ok v \<Longrightarrow> 0 \<le> k \<Longrightarrow> k < iov_len v \<Longrightarrow>
   iov_ok (v\<lparr>iov_off := iov_off v + k, iov_len := iov_len v - k\<rparr>)"
  by (auto simp: iov_ok_def)

lemma pending_length: "bl_inv ps bl \<Longrightarrow> int (length (pending bl)) = bl_remain_size bl"
  by (simp add: bl_inv_def pending_def iov_total_bytes)

section \<open>The walk of reoffset\<close>

lemma reoffset_loop_walk:
  assumes "list_all iov_ok ws" and "offset < n" and "n \<le> offset + iov_total ws"
    and "0 \<le> offset" and "offset + iov_total ws < 2 ^ 31" and "length (us @ ws) < 2 ^ 31"
  shows "\<exists>pre v post k. ws = pre @ v # post \<and> n = offset + iov_total pre + k \<and>
           0 < k \<and> k \<le> iov_len v \<and>
           reoffset_loop n cur (int (length us)) offset (us @ ws) =
             (us @ pre @ v\<lparr>iov_off := iov_off v + k, iov_len := iov_len v - k\<rparr> # post,
              int (length us + length pre) + (if k = iov_len v then 1 else 0))"
  using assms
proof (induction ws arbitrary: us offset)
  case Nil
  then show ?case by simp
next
  case (Cons v ws)
  have v: "0 < iov_len v" and nn: "0 \<le> iov_total ws"
    using Cons.prems(1) iov_total_nonneg [of ws] by (simp_all add: iov_ok_def [of v])
  have i: "int (length us) < int32 (int (length (us @ v # ws)))"
    using int32_of_nat [OF Cons.prems(6)] by simp
  have o: "int32 (offset + iov_len v) = offset + iov_len v"
    using Cons.prems v nn by (intro int32_id) auto
  show ?case
  proof (cases "offset + iov_len v < n")
    case True
    have "\<exists>pre u post k. ws = pre @ u # post \<and> n = offset + iov_len v + iov_total pre + k \<and>
        0 < k \<and> k \<le> iov_len u \<and>
        reoffset_loop n cur (int (length (us @ [v]))) (offset + iov_len v) ((us @ [v]) @ ws) =
          ((us @ [v]) @ pre @ u\<lparr>iov_off := iov_off u + k, iov_len := iov_len u - k\<rparr> # post,
           int (length (us @ [v]) + length pre) + (if k = iov_len u then 1 else 0))"
      using Cons.prems True v nn by (intro Cons.IH) auto
    then obtain pre u post k where *: "ws = pre @ u # post"
        "n = offset + iov_len v + iov_total pre + k" "0 < k" "k \<le> iov_len u"
        "reoffset_loop n cur (int (length us) + 1) (offset + iov_len v) (us @ v # ws) =
          (us @ (v # pre) @ u\<lparr>iov_off := iov_off u + k, iov_len := iov_len u - k\<rparr> # post,
           int (length us + length (v # pre)) + (if k = iov_len u then 1 else 0))"
      by (auto simp: add.commute)
    have "reoffset_loop n cur (int (length us)) offset (us @ v # ws) =
        reoffset_loop n cur (int (length us) + 1) (offset + iov_len v) (us @ v # ws)"
      using i o True by (subst reoffset_loop.simps) (simp add: Let_def)
    with * show ?thesis
      by (intro exI [of _ "v # pre"] exI [of _ u] exI [of _ post] exI [of _ k]) simp
  next
    case False
    have "reoffset_loop n cur (int (length us)) offset (us @ v # ws) =
        (us @ v\<lparr>iov_off := iov_off v + (n - offset), iov_len := iov_len v - (n - offset)\<rparr> # ws,
         int (length us) + (if n - offset = iov_len v then 1 else 0))"
      using i o False by (subst reoffset_loop.simps) (auto simp: Let_def algebra_simps)
    with Cons.prems False show ?thesis
      by (intro exI [of _ "[]"] exI [of _ v] exI [of _ ws] exI [of _ "n - offset"]) auto
  qed
qed

text \<open>The position and the packets after \<open>reoffset\<close>, and the bytes left.\<close>

lemma reoffset_inv:
  assumes inv: "bl_inv ps bl" and n: "0 < n" "n < bl_remain_size bl"
  shows "bl_inv ps (reoffset n bl)" and "pending (reoffset n bl) = drop (nat n) (pending bl)"
    and "bl_remain_size (reoffset n bl) = bl_remain_size bl - n"
proof -
  define off where "off = nat (bl_iovec_off bl)"
  define us where "us = take off (bl_iovec bl)"
  have I: "bl_iovec_off bl = int off" "off \<le> length (bl_iovec bl)" "length (bl_iovec bl) = length ps"
    "length ps < 2 ^ 31" "list_all iov_ok (todo bl)" "tl (todo bl) = map iov_of (tl (drop off ps))"
    "bl_remain_size bl = iov_total (todo bl)" "bl_remain_size bl < 2 ^ 31"
    "bl_pkts bl = drop off ps"
    using inv n by (auto simp: bl_inv_def off_def)
  have vs: "bl_iovec bl = us @ todo bl" and us: "length us = off"
    using I(2) by (simp_all add: us_def todo_def off_def min_def)
  have "\<exists>pre v post k. todo bl = pre @ v # post \<and> n = 0 + iov_total pre + k \<and>
      0 < k \<and> k \<le> iov_len v \<and>
      reoffset_loop n (int off) (int (length us)) 0 (us @ todo bl) =
        (us @ pre @ v\<lparr>iov_off := iov_off v + k, iov_len := iov_len v - k\<rparr> # post,
         int (length us + length pre) + (if k = iov_len v then 1 else 0))"
    using I n vs by (intro reoffset_loop_walk) auto
  then obtain pre v post k where W: "todo bl = pre @ v # post" "n = iov_total pre + k"
      "0 < k" "k \<le> iov_len v"
      "reoffset_loop n (int off) (int off) 0 (bl_iovec bl) =
        (us @ pre @ v\<lparr>iov_off := iov_off v + k, iov_len := iov_len v - k\<rparr> # post,
         int (off + length pre) + (if k = iov_len v then 1 else 0))"
    unfolding us vs [symmetric] by auto
  let ?v = "v\<lparr>iov_off := iov_off v + k, iov_len := iov_len v - k\<rparr>"
  define d where "d = (if k = iov_len v then length pre + 1 else length pre)"
  have re: "reoffset n bl = bl\<lparr>bl_remain_size := bl_remain_size bl - n,
      bl_iovec := us @ pre @ ?v # post, bl_iovec_off := int (off + d),
      bl_pkts := drop d (bl_pkts bl)\<rparr>"
    using W(5) nat_int [of "Suc (length pre)"]
    by (simp add: reoffset_def I(1) d_def Let_def algebra_simps)
  have ok: "list_all iov_ok pre" "iov_ok v" "list_all iov_ok post" using I(5) W(1) by simp_all
  have todo': "todo (reoffset n bl) = (if k = iov_len v then post else ?v # post)"
  proof -
    have "nat (bl_iovec_off (reoffset n bl)) = off + d"
      by (simp add: re del: of_nat_add)
    then show ?thesis
      unfolding todo_def by (simp add: re us d_def)
  qed
  show rem: "bl_remain_size (reoffset n bl) = bl_remain_size bl - n" by (simp add: re)
  have tot: "bl_remain_size bl - n = iov_total (todo (reoffset n bl))"
    using W(1,2) I(7) unfolding todo' by simp
  have lp: "int (length (concat (map iov_bytes pre))) = iov_total pre"
    using ok(1) by (rule iov_total_bytes)
  have "nat n = length (concat (map iov_bytes pre)) + nat k"
    using lp W(2,3) by linarith
  moreover have "length (iov_bytes v) = nat (iov_len v)" using ok(2) by (rule iov_bytes_length)
  ultimately show "pending (reoffset n bl) = drop (nat n) (pending bl)"
    using W(1,3,4) iov_bytes_cut [OF ok(2), of k] unfolding pending_def todo' by auto
  have "post = drop (length pre) (tl (pre @ v # post))" by (cases pre) auto
  also have "\<dots> = drop (length pre) (map iov_of (drop (Suc off) ps))"
    using I(6) W(1) by (simp add: tl_drop drop_Suc)
  finally have post: "post = map iov_of (drop (Suc (off + length pre)) ps)"
    by (simp add: drop_map add.commute)
  have "list_all iov_ok (todo (reoffset n bl))"
    using ok W(3,4) iov_ok_cut [OF ok(2), of k] by (simp add: todo')
  moreover have "tl (todo (reoffset n bl)) = map iov_of (tl (drop (off + d) ps))"
    using post by (auto simp: todo' d_def tl_drop drop_Suc map_tl [symmetric])
  moreover have "length (us @ pre @ ?v # post) = length ps" "off + d \<le> length ps"
    using vs W(1) I(3) us by (auto simp: d_def)
  ultimately show "bl_inv ps (reoffset n bl)"
    using I n tot rem by (simp add: bl_inv_def re add.commute del: of_nat_add)
qed

section \<open>The constructor establishes the invariant\<close>

definition payload :: "packet \<Rightarrow> block" where
  "payload p = take (unat (packet_size p)) (packet_block p)"

definition batch_ok :: "packet list \<Rightarrow> bool" where
  "batch_ok ps \<longleftrightarrow> list_all (\<lambda>p. packet_ok p \<and> 0 < packet_size p) ps \<and>
     length ps < 2 ^ 31 \<and> sum_list (map (\<lambda>p. uint (packet_size p)) ps) < 2 ^ 31"

lemma sizes_nonneg: "0 \<le> sum_list (map (\<lambda>p. uint (packet_size p)) ps)"
  by (induction ps) simp_all

lemma fold_sizes:
  "0 \<le> r \<Longrightarrow> r + sum_list (map (\<lambda>p. uint (packet_size p)) ps) < 2 ^ 31 \<Longrightarrow>
   fold (\<lambda>p r. int32 (r + uint (packet_size p))) ps r =
     r + sum_list (map (\<lambda>p. uint (packet_size p)) ps)"
proof (induction ps arbitrary: r)
  case Nil
  then show ?case by simp
next
  case (Cons p ps)
  have "int32 (r + uint (packet_size p)) = r + uint (packet_size p)"
  proof (rule int32_id)
    have "0 \<le> r + uint (packet_size p)" using Cons.prems(1) by simp
    then show "- (2 ^ 31) \<le> r + uint (packet_size p)" by simp
    show "r + uint (packet_size p) < 2 ^ 31"
      using Cons.prems(2) sizes_nonneg [of ps] by simp
  qed
  then show ?case
    using Cons.prems Cons.IH [of "r + uint (packet_size p)"] by simp
qed

lemma iov_of_total: "iov_total (map iov_of ps) = sum_list (map (\<lambda>p. uint (packet_size p)) ps)"
  by (induction ps) (simp_all add: iov_of_def)

lemma iov_of_ok: "packet_ok p \<Longrightarrow> 0 < packet_size p \<Longrightarrow> iov_ok (iov_of p)"
  using pkt.in_bounds [of p] by (simp add: iov_ok_def iov_of_def word_less_def)
    (metis of_nat_mono uint_nat)

lemma iov_of_bytes: "iov_bytes (iov_of p) = payload p"
  by (simp add: iov_bytes_def iov_of_def payload_def)

lemma bl_new_inv:
  assumes "batch_ok ps"
  shows "bl_inv ps (bl_new ps)" and "pending (bl_new ps) = concat (map payload ps)"
    and "todo (bl_new ps) = map iov_of ps"
proof -
  have rem: "bl_remain_size (bl_new ps) = sum_list (map (\<lambda>p. uint (packet_size p)) ps)"
    using fold_sizes [of 0 ps] assms by (simp add: bl_new_def batch_ok_def)
  show t: "todo (bl_new ps) = map iov_of ps"
    by (simp add: todo_def bl_new_def)
  show "pending (bl_new ps) = concat (map payload ps)"
    by (simp add: pending_def t iov_of_bytes comp_def)
  have "list_all iov_ok (map iov_of ps)"
    using assms iov_of_ok by (auto simp: batch_ok_def list_all_iff)
  then show "bl_inv ps (bl_new ps)"
    using assms rem t
    by (simp add: bl_inv_def batch_ok_def iov_of_total) (simp add: bl_new_def map_tl)
qed

section \<open>The kernel\<close>

text \<open>
  What the code relies on of \<open>sendmsg\<close>, as documented. \<open>kernel_ok\<close>: a call with something to
  send on \<open>fd\<close> either fails and sends nothing, or returns a count that is valid for the message
  and adds what it delivers to the log of \<open>fd\<close>. On a stream it may take any non-empty prefix of
  the bytes; a datagram is taken whole, to the address of the message. \<open>eintr_bounded\<close>: a signal
  does not interrupt the call for ever.
\<close>

definition kernel_ok ::
  "'k sendmsg \<Rightarrow> int \<Rightarrow> ('k \<Rightarrow> 'l list) \<Rightarrow> (msghdr \<Rightarrow> int \<Rightarrow> bool) \<Rightarrow> (msghdr \<Rightarrow> int \<Rightarrow> 'l list) \<Rightarrow> bool"
  where
  "kernel_ok sm fd log valid deliver \<longleftrightarrow>
     (\<forall>k msg. concat (msg_iov msg) \<noteq> [] \<longrightarrow>
        (let n = fst (fst (sm k fd msg)); k' = snd (sm k fd msg)
         in n = -1 \<and> log k' = log k \<or>
            n \<noteq> -1 \<and> valid msg n \<and> log k' = log k @ deliver msg n))"

definition eintr_bounded :: "'k sendmsg \<Rightarrow> int \<Rightarrow> ('k \<Rightarrow> nat) \<Rightarrow> bool" where
  "eintr_bounded sm fd \<mu> \<longleftrightarrow>
     (\<forall>k msg. fst (sm k fd msg) = (-1, EINTR) \<longrightarrow> \<mu> (snd (sm k fd msg)) < \<mu> k)"

definition stream_valid :: "msghdr \<Rightarrow> int \<Rightarrow> bool" where
  "stream_valid msg n \<longleftrightarrow> 0 < n \<and> n \<le> int (length (concat (msg_iov msg)))"

definition stream_deliver :: "msghdr \<Rightarrow> int \<Rightarrow> block" where
  "stream_deliver msg n = take (nat n) (concat (msg_iov msg))"

definition dgram_valid :: "msghdr \<Rightarrow> int \<Rightarrow> bool" where
  "dgram_valid msg n \<longleftrightarrow> n = int (length (concat (msg_iov msg)))"

definition dgram_deliver :: "msghdr \<Rightarrow> int \<Rightarrow> (byte list option \<times> block) list" where
  "dgram_deliver msg n = [(msg_name msg, concat (msg_iov msg))]"

lemma sendmsg_retry_returns:
  assumes ok: "kernel_ok sm fd log valid deliver" and \<mu>: "eintr_bounded sm fd \<mu>"
    and ne: "concat (msg_iov msg) \<noteq> []"
  shows "\<exists>n e' k'. sendmsg_retry sm fd msg e k = Some (n, e', k') \<and>
           (n = -1 \<and> get_uv_error e' \<noteq> EINTR \<and> log k' = log k \<or>
            n \<noteq> -1 \<and> valid msg n \<and> log k' = log k @ deliver msg n)"
proof (induction "\<mu> k" arbitrary: e k rule: less_induct)
  case less
  obtain n err k' where s: "sm k fd msg = ((n, err), k')"
    by (metis surj_pair)
  have step: "n = -1 \<and> log k' = log k \<or> n \<noteq> -1 \<and> valid msg n \<and> log k' = log k @ deliver msg n"
    using ok ne s unfolding kernel_ok_def by (metis fst_conv snd_conv)
  show ?case
  proof (cases "n = -1 \<and> err = EINTR")
    case True
    then have "\<mu> k' < \<mu> k"
      using \<mu> s unfolding eintr_bounded_def by (metis fst_conv snd_conv)
    from less.hyps [OF this, of err] True step s show ?thesis
      by (subst sendmsg_retry.simps) auto
  next
    case False
    then have "sendmsg_retry sm fd msg e k = Some (n, if n = -1 then err else e, k')"
      by (subst sendmsg_retry.simps) (simp add: s)
    with step False show ?thesis by auto
  qed
qed

text \<open>How sending ends: with nothing left, or when the system has just refused to take more.\<close>

definition refused :: "'k sendmsg \<Rightarrow> int \<Rightarrow> 'k \<Rightarrow> bool" where
  "refused sm fd k' \<longleftrightarrow> (\<exists>k msg e. sm k fd msg = ((-1, e), k') \<and> get_uv_error e \<noteq> EINTR)"

lemma sendmsg_retry_refused:
  assumes "sendmsg_retry sm fd msg e k = Some (-1, e', k')"
  shows "refused sm fd k'"
proof -
  have "fst (-1 :: int, e', k') = -1 \<longrightarrow> refused sm fd (snd (snd (-1 :: int, e', k')))"
  proof (rule sendmsg_retry.raw_induct [where P = "\<lambda>sm fd msg e k y. fst y = -1 \<longrightarrow> refused sm fd (snd (snd y))",
        OF _ assms], intro impI)
    fix self sm fd msg e k y
    assume IH: "\<And>sm fd msg e k y. self sm fd msg e k = Some y \<Longrightarrow> fst y = -1 \<longrightarrow> refused sm fd (snd (snd y))"
      and body: "(let (n, err) = fst (sm k fd msg); k' = snd (sm k fd msg); e' = (if n = -1 then err else e)
        in if n = -1 \<and> get_uv_error e' = EINTR then self sm fd msg e' k' else Some (n, e', k')) = Some y"
      and "fst y = -1"
    obtain n err k1 where s: "sm k fd msg = ((n, err), k1)" by (metis surj_pair)
    show "refused sm fd (snd (snd y))"
    proof (cases "n = -1 \<and> get_uv_error err = EINTR")
      case True
      with body s have "self sm fd msg err k1 = Some y" by (simp add: Let_def)
      with IH \<open>fst y = -1\<close> show ?thesis by blast
    next
      case False
      with body s have "y = (n, if n = -1 then err else e, k1)" by (auto simp: Let_def split: if_splits)
      with s False \<open>fst y = -1\<close> show ?thesis unfolding refused_def by auto
    qed
  qed
  then show ?thesis by simp
qed

lemma send_loop_end:
  assumes "send_loop sm fd flags udp bl e k = Some y"
  shows "bl_remain_size (fst y) = 0 \<or> refused sm fd (snd (snd y))"
proof (rule send_loop.raw_induct [where P = "\<lambda>sm fd flags udp bl e k y.
    bl_remain_size (fst y) = 0 \<or> refused sm fd (snd (snd y))", OF _ assms])
  fix self sm fd flags udp bl e k y
  assume IH: "\<And>sm fd flags udp bl e k y. self sm fd flags udp bl e k = Some y \<Longrightarrow>
      bl_remain_size (fst y) = 0 \<or> refused sm fd (snd (snd y))"
    and body: "(if bl_remain_size bl = 0 then Some (bl, e, k)
     else Option.bind (send_l sm fd flags udp bl e k) (\<lambda>r.
      if fst r \<noteq> -1
      then self sm fd flags udp (fst (snd r)) (fst (snd (snd r))) (snd (snd (snd r)))
      else Some (snd r))) = Some y"
  show "bl_remain_size (fst y) = 0 \<or> refused sm fd (snd (snd y))"
  proof (cases "bl_remain_size bl = 0")
    case True
    with body show ?thesis by auto
  next
    case False
    with body obtain r where r: "send_l sm fd flags udp bl e k = Some r"
      and c: "(if fst r \<noteq> -1
        then self sm fd flags udp (fst (snd r)) (fst (snd (snd r))) (snd (snd (snd r)))
        else Some (snd r)) = Some y" by auto
    show ?thesis
    proof (cases "fst r = -1")
      case True
      with r obtain msg where "sendmsg_retry sm fd msg e k = Some (-1, fst (snd (snd r)), snd (snd (snd r)))"
        unfolding send_l_def by (auto split: Option.bind_splits)
      with True c sendmsg_retry_refused show ?thesis by fastforce
    next
      case False
      with c IH show ?thesis by simp
    qed
  qed
qed

lemma bl_send_end:
  assumes "bl_send sm fd flags udp bl e k = Some (n, bl', e', k')"
  shows "bl_remain_size bl' = 0 \<or> refused sm fd k'"
proof -
  obtain y where y: "send_loop sm fd flags udp bl e k = Some y" "bl' = fst y" "k' = snd (snd y)"
    using assms by (auto simp: bl_send_def Let_def split: Option.bind_splits)
  from send_loop_end [OF y(1)] y(2,3) show ?thesis by simp
qed

section \<open>Sending on a stream\<close>

lemma todo_nonempty: "bl_inv ps bl \<Longrightarrow> 0 < bl_remain_size bl \<Longrightarrow> todo bl \<noteq> []"
  by (auto simp: bl_inv_def)

lemma iov_bytes_nonempty: "iov_ok v \<Longrightarrow> iov_bytes v \<noteq> []"
  using iov_bytes_length [of v] by (auto simp: iov_ok_def)

lemma bl_inv_todo_ok: "bl_inv ps bl \<Longrightarrow> list_all iov_ok (todo bl)"
  by (simp add: bl_inv_def)

text \<open>The state after everything is sent.\<close>

lemma bl_finish_inv:
  assumes "bl_inv ps bl"
  shows "bl_inv ps (bl\<lparr>bl_iovec_off := int32 (int (length (bl_iovec bl))), bl_remain_size := 0\<rparr>)"
    and "todo (bl\<lparr>bl_iovec_off := int32 (int (length (bl_iovec bl))), bl_remain_size := 0\<rparr>) = []"
proof -
  have "int32 (int (length (bl_iovec bl))) = int (length (bl_iovec bl))"
    using assms by (intro int32_of_nat) (simp add: bl_inv_def)
  then show "bl_inv ps (bl\<lparr>bl_iovec_off := int32 (int (length (bl_iovec bl))), bl_remain_size := 0\<rparr>)"
    and "todo (bl\<lparr>bl_iovec_off := int32 (int (length (bl_iovec bl))), bl_remain_size := 0\<rparr>) = []"
    using assms by (auto simp: bl_inv_def todo_def)
qed

lemma send_l_stream:
  assumes ok: "kernel_ok sm fd wire stream_valid stream_deliver" and \<mu>: "eintr_bounded sm fd \<mu>"
    and inv: "bl_inv ps bl" and rem: "0 < bl_remain_size bl"
  shows "\<exists>n bl' e' k'. send_l sm fd flags False bl e k = Some (n, bl', e', k') \<and>
           (n = -1 \<and> bl' = bl \<and> wire k' = wire k \<and> get_uv_error e' \<noteq> EINTR \<or>
            0 < n \<and> bl_inv ps bl' \<and> bl_remain_size bl' = bl_remain_size bl - n \<and>
            n \<le> bl_remain_size bl \<and> wire k' @ pending bl' = wire k @ pending bl)"
proof -
  let ?vs = "take IOV_MAX (todo bl)"
  let ?msg = "\<lparr>msg_name = None, msg_iov = map iov_bytes ?vs, msg_flags = flags\<rparr>"
  have msg: "mk_msg flags False bl = Some ?msg"
    by (simp add: mk_msg_def todo_def)
  have pre: "pending bl = concat (msg_iov ?msg) @ concat (map iov_bytes (drop IOV_MAX (todo bl)))"
    unfolding pending_def by (simp flip: concat_append map_append)
  have "todo bl \<noteq> []" "list_all iov_ok (todo bl)"
    using todo_nonempty [OF inv rem] bl_inv_todo_ok [OF inv] by simp_all
  then have ne: "concat (msg_iov ?msg) \<noteq> []"
    using iov_bytes_nonempty by (cases "todo bl") auto
  from sendmsg_retry_returns [OF ok \<mu> ne, of e k] obtain n e' k' where
    r: "sendmsg_retry sm fd ?msg e k = Some (n, e', k')" and
    d: "n = -1 \<and> get_uv_error e' \<noteq> EINTR \<and> wire k' = wire k \<or>
        n \<noteq> -1 \<and> stream_valid ?msg n \<and> wire k' = wire k @ stream_deliver ?msg n"
    by blast
  let ?bl = "if n \<ge> bl_remain_size bl
       then bl\<lparr>bl_iovec_off := int32 (int (length (bl_iovec bl))), bl_remain_size := 0\<rparr>
       else if n > 0 then reoffset n bl else bl"
  have run: "send_l sm fd flags False bl e k = Some (n, ?bl, e', k')"
    by (simp add: send_l_def msg r)
  show ?thesis
  proof (cases "n = -1")
    case True
    with d rem run show ?thesis by auto
  next
    case False
    with d have n: "0 < n" "n \<le> int (length (concat (msg_iov ?msg)))"
      and w: "wire k' = wire k @ take (nat n) (concat (msg_iov ?msg))"
      by (auto simp: stream_valid_def stream_deliver_def)
    have le: "n \<le> bl_remain_size bl"
      using n(2) pending_length [OF inv] pre by (simp add: pre)
    have w': "wire k' = wire k @ take (nat n) (pending bl)"
      using n w by (simp add: pre)
    have "bl_inv ps ?bl \<and> bl_remain_size ?bl = bl_remain_size bl - n \<and>
        pending ?bl = drop (nat n) (pending bl)"
    proof (cases "n \<ge> bl_remain_size bl")
      case True
      with le have "n = bl_remain_size bl" by simp
      then have "drop (nat n) (pending bl) = []"
        using pending_length [OF inv] by simp
      with True \<open>n = bl_remain_size bl\<close> bl_finish_inv [OF inv] show ?thesis
        by (simp add: pending_def)
    next
      case F: False
      with reoffset_inv [OF inv n(1)] n show ?thesis by simp
    qed
    with run n w' le show ?thesis by auto
  qed
qed

lemma send_loop_stream:
  assumes ok: "kernel_ok sm fd wire stream_valid stream_deliver" and \<mu>: "eintr_bounded sm fd \<mu>"
    and inv: "bl_inv ps bl"
  shows "\<exists>bl' e' k'. send_loop sm fd flags False bl e k = Some (bl', e', k') \<and> bl_inv ps bl' \<and>
           bl_remain_size bl' \<le> bl_remain_size bl \<and>
           wire k' @ pending bl' = wire k @ pending bl \<and>
           (bl_remain_size bl' = 0 \<or> get_uv_error e' \<noteq> EINTR)"
  using inv
proof (induction "nat (bl_remain_size bl)" arbitrary: bl e k rule: less_induct)
  case less
  show ?case
  proof (cases "bl_remain_size bl = 0")
    case True
    then show ?thesis using less.prems by (subst send_loop.simps) auto
  next
    case False
    have nn: "0 \<le> bl_remain_size bl"
      using less.prems iov_total_nonneg by (auto simp: bl_inv_def)
    with False have pos: "0 < bl_remain_size bl" by simp
    from send_l_stream [OF ok \<mu> less.prems pos, of flags e k] obtain n bl1 e1 k1 where
      s: "send_l sm fd flags False bl e k = Some (n, bl1, e1, k1)" and
      d: "n = -1 \<and> bl1 = bl \<and> wire k1 = wire k \<and> get_uv_error e1 \<noteq> EINTR \<or>
          0 < n \<and> bl_inv ps bl1 \<and> bl_remain_size bl1 = bl_remain_size bl - n \<and>
          n \<le> bl_remain_size bl \<and> wire k1 @ pending bl1 = wire k @ pending bl"
      by blast
    show ?thesis
    proof (cases "n = -1")
      case True
      with d s False less.prems show ?thesis by (subst send_loop.simps) auto
    next
      case n: False
      with d have 1: "nat (bl_remain_size bl1) < nat (bl_remain_size bl)" "bl_inv ps bl1"
        by auto
      have "send_loop sm fd flags False bl e k = send_loop sm fd flags False bl1 e1 k1"
        using s n False by (subst send_loop.simps) simp
      with less.hyps [OF 1, of e1 k1] d n show ?thesis by fastforce
    qed
  qed
qed

section \<open>Sending datagrams\<close>

fun is_sock :: "packet \<Rightarrow> bool" where
  "is_sock (Sock b) = True"
| "is_sock (Raw b) = False"

lemma is_sock_iff: "is_sock p \<longleftrightarrow> (\<exists>b. p = Sock b)"
  by (cases p) auto

fun packet_addr :: "packet \<Rightarrow> byte list option" where
  "packet_addr (Sock b) = sb_addr b"
| "packet_addr (Raw b) = None"

text \<open>The datagram a packet stands for: its own address and its whole payload.\<close>

definition dgram_of :: "packet \<Rightarrow> byte list option \<times> block" where
  "dgram_of p = (packet_addr p, payload p)"

definition rest :: "packet list \<Rightarrow> buffer_list \<Rightarrow> packet list" where
  "rest ps bl = drop (nat (bl_iovec_off bl)) ps"

definition udp_inv :: "packet list \<Rightarrow> buffer_list \<Rightarrow> bool" where
  "udp_inv ps bl \<longleftrightarrow> bl_inv ps bl \<and> todo bl = map iov_of (rest ps bl) \<and> list_all is_sock ps"

lemma bl_new_udp_inv: "batch_ok ps \<Longrightarrow> list_all is_sock ps \<Longrightarrow> udp_inv ps (bl_new ps)"
  using bl_new_inv [of ps] by (simp add: udp_inv_def rest_def) (simp add: bl_new_def)

lemma reoffset_first:
  assumes inv: "udp_inv ps bl" and td: "todo bl = v # vs" and less: "iov_len v < bl_remain_size bl"
  shows "udp_inv ps (reoffset (iov_len v) bl)" and "rest ps (reoffset (iov_len v) bl) = tl (rest ps bl)"
proof -
  have b: "bl_inv ps bl" using inv by (simp add: udp_inv_def)
  define off where "off = nat (bl_iovec_off bl)"
  have "off < length (bl_iovec bl)"
    using td by (rule_tac ccontr) (simp add: todo_def off_def)
  with b have o: "bl_iovec_off bl = int off" "off < length (bl_iovec bl)" "length (bl_iovec bl) < 2 ^ 31"
    by (simp_all add: bl_inv_def off_def)
  have v: "bl_iovec bl ! off = v" "0 < iov_len v" "iov_ok v"
    using td bl_inv_todo_ok [OF b] o by (auto simp: todo_def iov_ok_def hd_drop_conv_nth [symmetric])
  have "int32 (iov_len v) = iov_len v"
    using v less b by (intro int32_id) (auto simp: bl_inv_def)
  then have loop: "reoffset_loop (iov_len v) (int off) (int off) 0 (bl_iovec bl) =
      ((bl_iovec bl)[off := v\<lparr>iov_off := iov_off v + iov_len v, iov_len := 0\<rparr>], int off + 1)"
    using o v int32_of_nat [OF o(3)] by (subst reoffset_loop.simps) (simp add: Let_def)
  have off': "nat (bl_iovec_off (reoffset (iov_len v) bl)) = Suc off"
    by (simp add: reoffset_def o(1) loop nat_add_distrib)
  show r: "rest ps (reoffset (iov_len v) bl) = tl (rest ps bl)"
    by (simp add: rest_def off' off_def [symmetric] tl_drop drop_Suc)
  have "todo (reoffset (iov_len v) bl) = drop (Suc off) (bl_iovec bl)"
    by (simp add: todo_def off') (simp add: reoffset_def o(1) loop)
  also have "\<dots> = tl (todo bl)"
    by (simp add: todo_def off_def [symmetric] tl_drop drop_Suc)
  finally have "todo (reoffset (iov_len v) bl) = map iov_of (rest ps (reoffset (iov_len v) bl))"
    using inv r by (simp add: udp_inv_def map_tl)
  with reoffset_inv(1) [OF b v(2) less] inv show "udp_inv ps (reoffset (iov_len v) bl)"
    by (simp add: udp_inv_def)
qed

lemma send_l_dgram:
  assumes ok: "kernel_ok sm fd sent dgram_valid dgram_deliver" and \<mu>: "eintr_bounded sm fd \<mu>"
    and inv: "udp_inv ps bl" and rem: "0 < bl_remain_size bl"
  shows "\<exists>n bl' e' k'. send_l sm fd flags True bl e k = Some (n, bl', e', k') \<and>
           (n = -1 \<and> bl' = bl \<and> sent k' = sent k \<and> get_uv_error e' \<noteq> EINTR \<or>
            0 < n \<and> udp_inv ps bl' \<and> bl_remain_size bl' < bl_remain_size bl \<and>
            sent k' @ map dgram_of (rest ps bl') = sent k @ map dgram_of (rest ps bl))"
proof -
  have b: "bl_inv ps bl" and td: "todo bl = map iov_of (rest ps bl)" and all: "list_all is_sock ps"
    using inv by (simp_all add: udp_inv_def)
  then obtain p qs where rs: "rest ps bl = p # qs"
    using todo_nonempty [OF b rem] by (cases "rest ps bl") auto
  have "p \<in> set ps" using rs by (metis in_set_dropD list.set_intros(1) rest_def)
  then obtain sb where sb: "p = Sock sb"
    using all by (auto simp: list_all_iff is_sock_iff)
  have pk: "bl_pkts bl = p # qs"
    using b rem rs by (simp add: bl_inv_def rest_def)
  let ?msg = "\<lparr>msg_name = packet_addr p, msg_iov = [payload p], msg_flags = flags\<rparr>"
  have msg: "mk_msg flags True bl = Some ?msg"
    using td rs by (simp add: mk_msg_def pk sb todo_def [symmetric] iov_of_bytes)
  have v: "iov_ok (iov_of p)" using bl_inv_todo_ok [OF b] td rs by simp
  have len: "length (payload p) = nat (iov_len (iov_of p))" "0 < iov_len (iov_of p)"
    using iov_bytes_length [OF v] v by (simp_all add: iov_of_bytes iov_ok_def)
  then have ne: "concat (msg_iov ?msg) \<noteq> []" by auto
  from sendmsg_retry_returns [OF ok \<mu> ne, of e k] obtain n e' k' where
    r: "sendmsg_retry sm fd ?msg e k = Some (n, e', k')" and
    d: "n = -1 \<and> get_uv_error e' \<noteq> EINTR \<and> sent k' = sent k \<or>
        n \<noteq> -1 \<and> dgram_valid ?msg n \<and> sent k' = sent k @ dgram_deliver ?msg n"
    by blast
  let ?bl = "if n \<ge> bl_remain_size bl
       then bl\<lparr>bl_iovec_off := int32 (int (length (bl_iovec bl))), bl_remain_size := 0\<rparr>
       else if n > 0 then reoffset n bl else bl"
  have run: "send_l sm fd flags True bl e k = Some (n, ?bl, e', k')"
    by (simp add: send_l_def msg r)
  show ?thesis
  proof (cases "n = -1")
    case True
    with d rem run show ?thesis by auto
  next
    case False
    with d len have n: "n = iov_len (iov_of p)" and w: "sent k' = sent k @ [dgram_of p]"
      by (auto simp: dgram_valid_def dgram_deliver_def dgram_of_def)
    have "udp_inv ps ?bl \<and> bl_remain_size ?bl < bl_remain_size bl \<and> rest ps ?bl = qs"
    proof (cases "n \<ge> bl_remain_size bl")
      case True
      have "bl_remain_size bl = n + iov_total (map iov_of qs)"
        using b td rs n by (simp add: bl_inv_def)
      with True have "map iov_of qs = []"
        using iov_total_pos [of "map iov_of qs"] bl_inv_todo_ok [OF b] td rs by fastforce
      moreover have "rest ps (bl\<lparr>bl_iovec_off := int32 (int (length (bl_iovec bl))),
          bl_remain_size := 0\<rparr>) = []"
        using b int32_of_nat [of "length ps"] by (simp add: rest_def bl_inv_def)
      ultimately show ?thesis
        using True bl_finish_inv [OF b] all rem by (simp add: udp_inv_def)
    next
      case F: False
      with n reoffset_first [OF inv, of "iov_of p" "map iov_of qs"] td rs len(2)
        reoffset_inv(3) [OF b, of n] show ?thesis by simp
    qed
    with run n len(2) w rs show ?thesis by auto
  qed
qed

lemma send_loop_dgram:
  assumes ok: "kernel_ok sm fd sent dgram_valid dgram_deliver" and \<mu>: "eintr_bounded sm fd \<mu>"
    and inv: "udp_inv ps bl"
  shows "\<exists>bl' e' k'. send_loop sm fd flags True bl e k = Some (bl', e', k') \<and> udp_inv ps bl' \<and>
           bl_remain_size bl' \<le> bl_remain_size bl \<and>
           sent k' @ map dgram_of (rest ps bl') = sent k @ map dgram_of (rest ps bl) \<and>
           (bl_remain_size bl' = 0 \<or> get_uv_error e' \<noteq> EINTR)"
  using inv
proof (induction "nat (bl_remain_size bl)" arbitrary: bl e k rule: less_induct)
  case less
  show ?case
  proof (cases "bl_remain_size bl = 0")
    case True
    then show ?thesis using less.prems by (subst send_loop.simps) auto
  next
    case False
    have "0 \<le> bl_remain_size bl"
      using less.prems iov_total_nonneg by (auto simp: udp_inv_def bl_inv_def)
    with False have pos: "0 < bl_remain_size bl" by simp
    from send_l_dgram [OF ok \<mu> less.prems pos, of flags e k] obtain n bl1 e1 k1 where
      s: "send_l sm fd flags True bl e k = Some (n, bl1, e1, k1)" and
      d: "n = -1 \<and> bl1 = bl \<and> sent k1 = sent k \<and> get_uv_error e1 \<noteq> EINTR \<or>
          0 < n \<and> udp_inv ps bl1 \<and> bl_remain_size bl1 < bl_remain_size bl \<and>
          sent k1 @ map dgram_of (rest ps bl1) = sent k @ map dgram_of (rest ps bl)"
      by blast
    show ?thesis
    proof (cases "n = -1")
      case True
      with d s False less.prems show ?thesis by (subst send_loop.simps) auto
    next
      case n: False
      with d pos have 1: "nat (bl_remain_size bl1) < nat (bl_remain_size bl)" "udp_inv ps bl1"
        by auto
      have "send_loop sm fd flags True bl e k = send_loop sm fd flags True bl1 e1 k1"
        using s n False by (subst send_loop.simps) simp
      with less.hyps [OF 1, of e1 k1] d n show ?thesis by fastforce
    qed
  qed
qed

section \<open>Properties\<close>

text \<open>
  A kernel to run the theorems on: it follows a script of answers (a number of bytes it has
  room for, or an error), then says \<open>EAGAIN\<close>, and logs what it takes.
\<close>

datatype answer = Room nat | Err errno

fun script_stream :: "(answer list \<times> block) sendmsg" where
  "script_stream ([], w) fd msg = ((-1, EAGAIN), ([], w))"
| "script_stream (Err err # as, w) fd msg = ((-1, err), (as, w))"
| "script_stream (Room c # as, w) fd msg =
     (let n = min c (length (concat (msg_iov msg)))
      in if n = 0 then ((-1, EAGAIN), (as, w))
         else ((int n, 0), (as, w @ take n (concat (msg_iov msg)))))"

fun script_dgram :: "(answer list \<times> (byte list option \<times> block) list) sendmsg" where
  "script_dgram ([], w) fd msg = ((-1, EAGAIN), ([], w))"
| "script_dgram (Err err # as, w) fd msg = ((-1, err), (as, w))"
| "script_dgram (Room c # as, w) fd msg =
     ((int (length (concat (msg_iov msg))), 0), (as, w @ [(msg_name msg, concat (msg_iov msg))]))"

lemma script_stream_ok:
  "kernel_ok script_stream fd snd stream_valid stream_deliver"
  "eintr_bounded script_stream fd (\<lambda>k. length (fst k))"
proof -
  have "let n = fst (fst (script_stream (as, w) fd msg)); k' = snd (script_stream (as, w) fd msg)
        in n = -1 \<and> snd k' = w \<or> n \<noteq> -1 \<and> stream_valid msg n \<and> snd k' = w @ stream_deliver msg n"
    for as w msg
    by (cases "((as, w), fd, msg)" rule: script_stream.cases)
      (auto simp: Let_def stream_valid_def stream_deliver_def)
  then show "kernel_ok script_stream fd snd stream_valid stream_deliver"
    by (auto simp: kernel_ok_def)
  have "fst (script_stream (as, w) fd msg) = (-1, EINTR) \<Longrightarrow>
      length (fst (snd (script_stream (as, w) fd msg))) < length as" for as w msg
    by (cases "((as, w), fd, msg)" rule: script_stream.cases) (auto simp: Let_def)
  then show "eintr_bounded script_stream fd (\<lambda>k. length (fst k))"
    by (auto simp: eintr_bounded_def)
qed

lemma script_dgram_ok:
  "kernel_ok script_dgram fd snd dgram_valid dgram_deliver"
  "eintr_bounded script_dgram fd (\<lambda>k. length (fst k))"
proof -
  have "let n = fst (fst (script_dgram (as, w) fd msg)); k' = snd (script_dgram (as, w) fd msg)
        in n = -1 \<and> snd k' = w \<or> n \<noteq> -1 \<and> dgram_valid msg n \<and> snd k' = w @ dgram_deliver msg n"
    for as w msg
    by (cases "((as, w), fd, msg)" rule: script_dgram.cases)
      (auto simp: Let_def dgram_valid_def dgram_deliver_def)
  then show "kernel_ok script_dgram fd snd dgram_valid dgram_deliver"
    by (auto simp: kernel_ok_def)
  have "fst (script_dgram (as, w) fd msg) = (-1, EINTR) \<Longrightarrow>
      length (fst (snd (script_dgram (as, w) fd msg))) < length as" for as w msg
    by (cases "((as, w), fd, msg)" rule: script_dgram.cases) auto
  then show "eintr_bounded script_dgram fd (\<lambda>k. length (fst k))"
    by (auto simp: eintr_bounded_def)
qed

lemma bl_send_stream:
  assumes "kernel_ok sm fd wire stream_valid stream_deliver" and "eintr_bounded sm fd \<mu>"
    and "bl_inv ps bl"
  shows "\<exists>r bl' e' k'. bl_send sm fd flags False bl e k = Some (r, bl', e', k') \<and> bl_inv ps bl' \<and>
           wire k' @ pending bl' = wire k @ pending bl \<and>
           r = (if length (pending bl') < length (pending bl)
                then int (length (pending bl) - length (pending bl')) else -1) \<and>
           (pending bl' = [] \<or> get_uv_error e' \<noteq> EINTR \<and> refused sm fd k')"
proof -
  from send_loop_stream [OF assms, of flags e k] obtain bl' e' k' where
    s: "send_loop sm fd flags False bl e k = Some (bl', e', k')" "bl_inv ps bl'"
      "bl_remain_size bl' \<le> bl_remain_size bl" "wire k' @ pending bl' = wire k @ pending bl"
      "bl_remain_size bl' = 0 \<or> get_uv_error e' \<noteq> EINTR"
    by blast
  have "int (length (pending bl)) = bl_remain_size bl" "int (length (pending bl')) = bl_remain_size bl'"
    using pending_length assms(3) s(2) by blast+
  with s send_loop_end [OF s(1)] show ?thesis
    by (auto simp: bl_send_def Let_def of_nat_diff)
qed

text \<open>
  Property C3. \<open>send\<close> on a stream loses, repeats and reorders nothing. Whatever prefix of each
  \<open>sendmsg\<close> the kernel takes and however often it is interrupted, \<open>send\<close> returns, and what the
  connection has received followed by what the batch still holds is what it was before. The
  return value is the number of bytes sent, or -1 when none were. A batch is left unfinished only
  when the last \<open>sendmsg\<close> has failed, with an error other than \<open>EINTR\<close>.
\<close>

theorem stream_send_exact:
  assumes "kernel_ok sm fd wire stream_valid stream_deliver" and "eintr_bounded sm fd \<mu>"
    and "bl_inv ps bl"
  shows "\<exists>r bl' e' k'. bl_send sm fd flags False bl e k = Some (r, bl', e', k') \<and> bl_inv ps bl' \<and>
           wire k' @ pending bl' = wire k @ pending bl \<and>
           r = (if length (pending bl') < length (pending bl)
                then int (length (pending bl) - length (pending bl')) else -1) \<and>
           (pending bl' = [] \<or> get_uv_error e' \<noteq> EINTR \<and> refused sm fd k')"
  by (rule bl_send_stream [OF assms])

definition demo_packet :: "byte \<Rightarrow> byte \<Rightarrow> packet" where
  "demo_packet x a =
     Sock \<lparr>sb_buffer = \<lparr>raw_data = Some [Some x, Some 0, None], raw_capacity = 3, raw_size = 2\<rparr>,
           sb_addr = Some [a], sb_addr_len = 1\<rparr>"

lemma demo_batch: "batch_ok [demo_packet x a, demo_packet y b]"
  by (simp add: batch_ok_def demo_packet_def sock_ok_def raw_ok_def raw_alloc_def block_of_def
      sock_size_def)

theorem stream_send_exact_witness:
  "\<exists>r bl' e' k'.
     bl_send script_stream 3 0 False (bl_new [demo_packet 7 1, demo_packet 9 2]) 0
       ([Room 1, Err EINTR, Room 2], []) = Some (r, bl', e', k') \<and>
     snd k' @ pending bl' = [Some 7, Some 0, Some 9, Some 0]"
proof -
  let ?ps = "[demo_packet 7 1, demo_packet 9 2]"
  have "pending (bl_new ?ps) = [Some 7, Some 0, Some 9, Some 0]"
    unfolding bl_new_inv(2) [OF demo_batch]
    by (simp add: payload_def demo_packet_def sock_block_def sock_size_def block_of_def)
  then show ?thesis
    using stream_send_exact [OF script_stream_ok bl_new_inv(1) [OF demo_batch [of 7 1 9 2]], of 3 0 0
        "([Room 1, Err EINTR, Room 2], [])"] by fastforce
qed

lemma bl_send_dgram:
  assumes "kernel_ok sm fd sent dgram_valid dgram_deliver" and "eintr_bounded sm fd \<mu>"
    and "udp_inv ps bl"
  shows "\<exists>r bl' e' k'. bl_send sm fd flags True bl e k = Some (r, bl', e', k') \<and> udp_inv ps bl' \<and>
           sent k' @ map dgram_of (rest ps bl') = sent k @ map dgram_of (rest ps bl) \<and>
           (rest ps bl' = [] \<or> get_uv_error e' \<noteq> EINTR \<and> refused sm fd k')"
proof -
  from send_loop_dgram [OF assms, of flags e k] obtain bl' e' k' where
    s: "send_loop sm fd flags True bl e k = Some (bl', e', k')" "udp_inv ps bl'"
      "sent k' @ map dgram_of (rest ps bl') = sent k @ map dgram_of (rest ps bl)"
      "bl_remain_size bl' = 0 \<or> get_uv_error e' \<noteq> EINTR"
    by blast
  have "rest ps bl' = []" if "bl_remain_size bl' = 0"
  proof (rule ccontr)
    assume "rest ps bl' \<noteq> []"
    with s(2) have b: "bl_inv ps bl'" and "todo bl' \<noteq> []" by (simp_all add: udp_inv_def)
    then have "0 < iov_total (todo bl')" by (intro iov_total_pos bl_inv_todo_ok)
    with b that show False by (simp add: bl_inv_def)
  qed
  with s send_loop_end [OF s(1)] show ?thesis by (auto simp: bl_send_def Let_def)
qed

text \<open>
  in datagram mode every packet is sent as one datagram of its own, whole and to
  the address it was queued with, in order and once: what has been sent followed by the packets
  that are left stays the same, and \<open>send\<close> returns, with nothing left unless the last \<open>sendmsg\<close> has
  failed.
\<close>

theorem dgram_send_exact:
  assumes "kernel_ok sm fd sent dgram_valid dgram_deliver" and "eintr_bounded sm fd \<mu>"
    and "udp_inv ps bl"
  shows "\<exists>r bl' e' k'. bl_send sm fd flags True bl e k = Some (r, bl', e', k') \<and> udp_inv ps bl' \<and>
           sent k' @ map dgram_of (rest ps bl') = sent k @ map dgram_of (rest ps bl) \<and>
           (rest ps bl' = [] \<or> get_uv_error e' \<noteq> EINTR \<and> refused sm fd k')"
  by (rule bl_send_dgram [OF assms])

theorem dgram_send_exact_witness:
  "\<exists>r bl' e' k' unsent.
     bl_send script_dgram 3 0 True (bl_new [demo_packet 7 1, demo_packet 9 2]) 0
       ([Room 1, Err EINTR, Room 2], []) = Some (r, bl', e', k') \<and>
     snd k' @ unsent = [(Some [1], [Some 7, Some 0]), (Some [2], [Some 9, Some 0])]"
proof -
  let ?ps = "[demo_packet 7 1, demo_packet 9 2]"
  have u: "udp_inv ?ps (bl_new ?ps)"
    by (rule bl_new_udp_inv [OF demo_batch]) (simp add: demo_packet_def)
  have "rest ?ps (bl_new ?ps) = ?ps" by (simp add: rest_def bl_new_def)
  moreover have "map dgram_of ?ps = [(Some [1], [Some 7, Some 0]), (Some [2], [Some 9, Some 0])]"
    by (simp add: dgram_of_def payload_def demo_packet_def sock_block_def sock_size_def block_of_def)
  ultimately show ?thesis
    using dgram_send_exact [OF script_dgram_ok u, of 3 0 0 "([Room 1, Err EINTR, Room 2], [])"] by auto
qed

text \<open>
  a batch built by the constructor from well-formed, non-empty packets whose sizes
  add up to less than \<open>2 ^ 31\<close> starts with all their payloads pending, in order, and the two
  counters agree with it.
\<close>

theorem bl_new_correct:
  assumes "batch_ok ps"
  shows "bl_inv ps (bl_new ps) \<and> pending (bl_new ps) = concat (map payload ps) \<and>
         bl_count (bl_new ps) = int (length ps) \<and> (bl_empty (bl_new ps) \<longleftrightarrow> ps = []) \<and>
         bl_remain_size (bl_new ps) = int (length (concat (map payload ps)))"
proof -
  have "int32 (int (length ps)) = int (length ps)"
    using assms by (intro int32_of_nat) (simp add: batch_ok_def)
  then have "bl_count (bl_new ps) = int (length ps)" "bl_empty (bl_new ps) \<longleftrightarrow> ps = []"
    by (auto simp: bl_count_def bl_empty_def bl_new_def)
  with bl_new_inv [OF assms] pending_length [OF bl_new_inv(1) [OF assms]] show ?thesis by simp
qed

theorem bl_new_correct_witness:
  "bl_count (bl_new [demo_packet 7 1, demo_packet 9 2]) = 2"
  using bl_new_correct [OF demo_batch [of 7 1 9 2]] by simp

end
