(* ===== verification/Semaphore.thy ===== *)
theory Semaphore
  imports Prelude
begin

text \<open>
  \<^verbatim>\<open>thread/semaphore.h\<close>: a counting semaphore on a mutex and a condition variable.

  \<open>Post\<close> runs in one piece under the mutex. \<open>Wait\<close> tests the counter under the mutex, on entry
  and again each time it is woken: either the counter is positive, then it is decremented and
  \<open>Wait\<close> returns, or the thread goes to sleep on the condition variable. The state holds the
  counter (32 bits, it wraps), the threads asleep, and the threads that were woken and have
  not tested again. The steps are a relation: which sleeping thread \<open>notify_one\<close> wakes and which
  thread moves next is not determined, and a thread may wake without being notified.
\<close>

type_synonym tid = nat

record sem =
  sem_count :: u32
  sem_asleep :: "tid set"
  sem_awake :: "tid set"

definition sem_init :: sem where
  "sem_init = \<lparr>sem_count = 0, sem_asleep = {}, sem_awake = {}\<rparr>"

text \<open>\<open>pick\<close> is the thread \<open>notify_one\<close> wakes, if there is one.\<close>

definition sem_post :: "u32 \<Rightarrow> tid option \<Rightarrow> sem \<Rightarrow> sem" where
  "sem_post n pick s =
     (let s1 = s\<lparr>sem_count := sem_count s + n\<rparr>
      in if n = 1
         then (case pick of
                 None \<Rightarrow> s1
               | Some t \<Rightarrow> s1\<lparr>sem_asleep := sem_asleep s - {t}, sem_awake := insert t (sem_awake s)\<rparr>)
         else s1\<lparr>sem_asleep := {}, sem_awake := sem_awake s \<union> sem_asleep s\<rparr>)"

text \<open>One test of \<open>Wait\<close>'s loop by thread \<open>t\<close>: whether \<open>Wait\<close> returns, and the new state.\<close>

definition sem_test :: "tid \<Rightarrow> sem \<Rightarrow> bool \<times> sem" where
  "sem_test t s =
     (if sem_count s = 0
      then (False, s\<lparr>sem_asleep := insert t (sem_asleep s), sem_awake := sem_awake s - {t}\<rparr>)
      else (True, s\<lparr>sem_count := sem_count s - 1, sem_awake := sem_awake s - {t}\<rparr>))"

datatype sem_event = Posted u32 | Passed tid | Slept tid | Spurious tid

inductive sem_step :: "sem \<Rightarrow> sem_event \<Rightarrow> sem \<Rightarrow> bool" where
  post: "(case pick of None \<Rightarrow> sem_asleep s = {} | Some t \<Rightarrow> t \<in> sem_asleep s) \<Longrightarrow>
     sem_step s (Posted n) (sem_post n pick s)"
| pass: "t \<notin> sem_asleep s \<Longrightarrow> sem_test t s = (True, s') \<Longrightarrow> sem_step s (Passed t) s'"
| sleep: "t \<notin> sem_asleep s \<Longrightarrow> sem_test t s = (False, s') \<Longrightarrow> sem_step s (Slept t) s'"
| spurious: "t \<in> sem_asleep s \<Longrightarrow>
     sem_step s (Spurious t) (s\<lparr>sem_asleep := sem_asleep s - {t}, sem_awake := insert t (sem_awake s)\<rparr>)"

inductive_cases sem_postE: "sem_step s (Posted n) s'"
inductive_cases sem_passE: "sem_step s (Passed t) s'"
inductive_cases sem_sleepE: "sem_step s (Slept t) s'"
inductive_cases sem_spuriousE: "sem_step s (Spurious t) s'"

lemmas sem_stepE = sem_postE sem_passE sem_sleepE sem_spuriousE

section \<open>No wake-up is lost\<close>

text \<open>
  Whenever a thread sleeps, every permit in the counter has a woken thread on its way to it.
\<close>

definition sem_inv :: "sem \<Rightarrow> bool" where
  "sem_inv s \<longleftrightarrow>
     finite (sem_asleep s) \<and> finite (sem_awake s) \<and> sem_asleep s \<inter> sem_awake s = {} \<and>
     (sem_asleep s \<noteq> {} \<longrightarrow> unat (sem_count s) \<le> card (sem_awake s))"

lemma sem_init_inv: "sem_inv sem_init"
  by (simp add: sem_inv_def sem_init_def)

lemma unat_plus_le: "unat (a + b :: u32) \<le> unat a + unat b"
  by (simp add: unat_word_ariths)

lemma unat_minus1: "(a :: u32) \<noteq> 0 \<Longrightarrow> unat (a - 1) = unat a - 1"
  by (simp add: unat_minus_one)

lemma sem_post_inv:
  assumes inv: "sem_inv s"
    and pick: "case pick of None \<Rightarrow> sem_asleep s = {} | Some t \<Rightarrow> t \<in> sem_asleep s"
  shows "sem_inv (sem_post n pick s)"
proof (cases "n = 1")
  case True
  show ?thesis
  proof (cases pick)
    case None
    with inv pick True show ?thesis by (simp add: sem_post_def sem_inv_def Let_def)
  next
    case (Some t)
    with pick have t: "t \<in> sem_asleep s" by simp
    with inv have "unat (sem_count s) \<le> card (sem_awake s)" "t \<notin> sem_awake s" "finite (sem_awake s)"
      by (auto simp: sem_inv_def)
    then have "unat (sem_count s + 1) \<le> card (insert t (sem_awake s))"
      using unat_plus_le [of "sem_count s" 1] by simp
    with inv t Some True show ?thesis
      by (auto simp: sem_post_def sem_inv_def Let_def)
  qed
next
  case False
  with inv show ?thesis by (auto simp: sem_post_def sem_inv_def Let_def)
qed

lemma sem_test_inv:
  assumes inv: "sem_inv s" and t: "t \<notin> sem_asleep s" and r: "sem_test t s = (b, s')"
  shows "sem_inv s'"
proof (cases "sem_count s = 0")
  case True
  with inv r t show ?thesis by (auto simp: sem_test_def sem_inv_def)
next
  case False
  have s': "s' = s\<lparr>sem_count := sem_count s - 1, sem_awake := sem_awake s - {t}\<rparr>"
    using r False by (simp add: sem_test_def)
  have "unat (sem_count s - 1) \<le> card (sem_awake s - {t})" if ne: "sem_asleep s \<noteq> {}"
  proof -
    have c: "unat (sem_count s) \<le> card (sem_awake s)" "finite (sem_awake s)"
      using inv ne by (simp_all add: sem_inv_def)
    have "card (sem_awake s) \<le> Suc (card (sem_awake s - {t}))"
      using card_Suc_Diff1 [OF c(2)] by (cases "t \<in> sem_awake s") auto
    with c(1) show ?thesis by (simp only: unat_minus1 [OF False])
  qed
  then show ?thesis
    using inv unfolding s' by (auto simp: sem_inv_def simp del: unat_minus_one)
qed

lemma sem_spurious_inv:
  "sem_inv s \<Longrightarrow> t \<in> sem_asleep s \<Longrightarrow>
   sem_inv (s\<lparr>sem_asleep := sem_asleep s - {t}, sem_awake := insert t (sem_awake s)\<rparr>)"
  by (auto simp: sem_inv_def card_insert_if)

lemma sem_step_inv: "sem_step s ev s' \<Longrightarrow> sem_inv s \<Longrightarrow> sem_inv s'"
  by (induction rule: sem_step.induct) (auto intro: sem_post_inv sem_test_inv sem_spurious_inv)

inductive sem_run :: "sem \<Rightarrow> sem_event list \<Rightarrow> sem \<Rightarrow> bool" where
  sem_nil: "sem_run s [] s"
| sem_cons: "sem_step s ev s1 \<Longrightarrow> sem_run s1 evs s' \<Longrightarrow> sem_run s (ev # evs) s'"

lemma sem_run_inv: "sem_run s evs s' \<Longrightarrow> sem_inv s \<Longrightarrow> sem_inv s'"
  by (induction rule: sem_run.induct) (auto intro: sem_step_inv)

section \<open>The semaphore interface\<close>

text \<open>
  What the task queue and the log writer rely on: a post adds its permits (as long as they fit),
  a wait that returns takes one, and nothing else changes their number. The client lemma counts
  the permits over a whole run.
\<close>

fun ev_posted :: "sem_event \<Rightarrow> nat" where
  "ev_posted (Posted n) = unat n"
| "ev_posted _ = 0"

fun ev_passed :: "sem_event \<Rightarrow> nat" where
  "ev_passed (Passed t) = 1"
| "ev_passed _ = 0"

definition posted :: "sem_event list \<Rightarrow> nat" where
  "posted evs = sum_list (map ev_posted evs)"

definition passed :: "sem_event list \<Rightarrow> nat" where
  "passed evs = sum_list (map ev_passed evs)"

locale counting_semaphore =
  fixes step :: "'s \<Rightarrow> sem_event \<Rightarrow> 's \<Rightarrow> bool"
    and run :: "'s \<Rightarrow> sem_event list \<Rightarrow> 's \<Rightarrow> bool"
    and permits :: "'s \<Rightarrow> nat" and limit :: nat
  assumes run_nil: "run s [] s' \<Longrightarrow> s' = s"
    and run_cons: "run s (ev # evs) s' \<Longrightarrow> \<exists>s1. step s ev s1 \<and> run s1 evs s'"
    and count: "step s ev s' \<Longrightarrow> permits s + ev_posted ev < limit \<Longrightarrow>
      permits s' + ev_passed ev = permits s + ev_posted ev"
begin

lemma conservation:
  "run s evs s' \<Longrightarrow> permits s + posted evs < limit \<Longrightarrow>
   permits s' + passed evs = permits s + posted evs"
proof (induction evs arbitrary: s)
  case Nil
  then show ?case using run_nil by (auto simp: posted_def passed_def)
next
  case (Cons ev evs)
  then obtain s1 where s1: "step s ev s1" "run s1 evs s'" using run_cons by blast
  have "permits s1 + ev_passed ev = permits s + ev_posted ev"
    using Cons.prems(2) by (intro count [OF s1(1)]) (simp add: posted_def)
  with Cons.IH [OF s1(2)] Cons.prems(2) show ?case by (simp add: posted_def passed_def)
qed

lemma passes_bounded:
  "run s evs s' \<Longrightarrow> permits s + posted evs < limit \<Longrightarrow> passed evs \<le> permits s + posted evs"
  using conservation by fastforce

end

lemma sem_step_count:
  "sem_step s ev s' \<Longrightarrow> unat (sem_count s) + ev_posted ev < 2 ^ 32 \<Longrightarrow>
   unat (sem_count s') + ev_passed ev = unat (sem_count s) + ev_posted ev"
proof (induction rule: sem_step.induct)
  case (post pick s n)
  then have "unat (sem_count s + n) = unat (sem_count s) + unat n"
    by (simp add: unat_word_ariths)
  then show ?case by (auto simp: sem_post_def Let_def split: option.splits)
next
  case (pass t s s')
  then show ?case
    by (auto simp: sem_test_def unat_minus1 unat_gt_0 Suc_leI split: if_splits)
next
  case (sleep t s s')
  then show ?case by (auto simp: sem_test_def split: if_splits)
qed simp

inductive_cases sem_run_nilE: "sem_run s [] s'"
inductive_cases sem_run_consE: "sem_run s (ev # evs) s'"

interpretation cs: counting_semaphore sem_step sem_run "\<lambda>s. unat (sem_count s)" "2 ^ 32"
  by unfold_locales (auto elim: sem_run_nilE sem_run_consE intro: sem_step_count)

lemma sem_run_snoc: "sem_run s evs s1 \<Longrightarrow> sem_step s1 ev s' \<Longrightarrow> sem_run s (evs @ [ev]) s'"
  by (induction rule: sem_run.induct) (auto intro: sem_run.intros)

section \<open>Properties\<close>

text \<open>
  Property C14. No wake-up is lost: in every reachable state with a sleeping thread, at least as
  many threads are awake on their way to the counter as it has permits, whatever the choices
  of \<open>notify_one\<close>, spurious wake-ups and threads that enter \<open>Wait\<close> in between; and each of them
  that tests a positive counter returns from \<open>Wait\<close> with one permit less.
\<close>

theorem sem_no_lost_wakeup:
  assumes "sem_run sem_init evs s" and "sem_asleep s \<noteq> {}"
  shows "unat (sem_count s) \<le> card (sem_awake s) \<and>
    (\<forall>t. t \<in> sem_awake s \<and> sem_count s \<noteq> 0 \<longrightarrow>
      sem_step s (Passed t) (s\<lparr>sem_count := sem_count s - 1, sem_awake := sem_awake s - {t}\<rparr>))"
proof -
  have inv: "sem_inv s" using sem_run_inv [OF assms(1) sem_init_inv] .
  then have "sem_step s (Passed t) (s\<lparr>sem_count := sem_count s - 1, sem_awake := sem_awake s - {t}\<rparr>)"
    if "t \<in> sem_awake s" "sem_count s \<noteq> 0" for t
    using that by (intro sem_step.pass) (auto simp: sem_inv_def sem_test_def)
  with inv assms(2) show ?thesis by (simp add: sem_inv_def)
qed

definition sem_demo :: sem where
  "sem_demo = \<lparr>sem_count = 1, sem_asleep = {2}, sem_awake = {1}\<rparr>"

lemma sem_demo_run: "sem_run sem_init [Slept 1, Slept 2, Posted 1] sem_demo"
proof -
  let ?s1 = "\<lparr>sem_count = 0, sem_asleep = {1}, sem_awake = {}\<rparr>"
  let ?s2 = "\<lparr>sem_count = 0, sem_asleep = {1, 2}, sem_awake = {}\<rparr>"
  have "sem_step sem_init (Slept 1) ?s1"
    by (rule sem_step.sleep) (simp_all add: sem_init_def sem_test_def)
  moreover have "sem_step ?s1 (Slept 2) ?s2"
    by (rule sem_step.sleep) (auto simp: sem_test_def)
  moreover have "sem_step ?s2 (Posted 1) sem_demo"
    using sem_step.post [where pick = "Some 1" and s = ?s2 and n = 1] by (simp add: sem_post_def sem_demo_def Let_def insert_Diff_if)
  ultimately show ?thesis by (blast intro: sem_run.intros)
qed

lemma sem_no_lost_wakeup_witness:
  "unat (sem_count sem_demo) \<le> card (sem_awake sem_demo) \<and> sem_asleep sem_demo \<noteq> {}"
  using sem_no_lost_wakeup [OF sem_demo_run] by (simp add: sem_demo_def)

text \<open>
  Permits are conserved: over any run from a fresh semaphore whose posts add up to
  less than \<open>2 ^ 32\<close>, the counter is exactly what was posted less the \<open>Wait\<close>s that returned; so no
  more waits return than permits were posted.
\<close>

theorem sem_permits_conserved:
  assumes "sem_run sem_init evs s" and "posted evs < 2 ^ 32"
  shows "unat (sem_count s) + passed evs = posted evs"
  using cs.conservation [OF assms(1)] assms(2) by (simp add: sem_init_def)

lemma sem_permits_conserved_witness: "unat (sem_count sem_demo) + 0 = 1"
  using sem_permits_conserved [OF sem_demo_run] by (simp add: posted_def passed_def)

end
