(* ===== verification/TaskQueue.thy ===== *)
theory TaskQueue
  imports Semaphore "HOL-Library.Multiset"
begin

text \<open>
  \<^verbatim>\<open>thread/task_queue.h\<close>: the queue of tasks the threads of a pool share. \<open>tasks_\<close> is guarded by a
  mutex, \<open>sem_\<close> counts the tasks. Each operation is modelled at the grain of its critical
  sections: \<open>AddTask\<close> is the insertion and then the post, two steps between which any thread
  may move; \<open>GetTask\<close> is the wait of the semaphore (its tests, sleeps and wake-ups) and then the
  removal. \<open>tasks_\<close> is the sequence that \<open>list.h\<close> implements (theory LinkedList).
\<close>

section \<open>State and steps\<close>

text \<open>Where a thread stands: outside the queue, between insertion and post of \<open>AddTask\<close>, inside
  \<open>sem_.Wait()\<close>, or between \<open>sem_.Wait()\<close> and the second critical section of \<open>GetTask\<close>.\<close>

datatype tq_pc = Outside | Posting | Waiting | Popping

record 'f task_queue =
  tq_tasks :: "'f list"
  tq_sem :: sem
  tq_pcs :: "tid \<Rightarrow> tq_pc"

definition tq_init :: "'f task_queue" where
  "tq_init = \<lparr>tq_tasks = [], tq_sem = sem_init, tq_pcs = (\<lambda>t. Outside)\<rparr>"

definition AddTask_insert :: "'f \<Rightarrow> 'f task_queue \<Rightarrow> 'f task_queue" where
  "AddTask_insert f q = q\<lparr>tq_tasks := tq_tasks q @ [f]\<rparr>"

definition AddTaskFirst_insert :: "'f \<Rightarrow> 'f task_queue \<Rightarrow> 'f task_queue" where
  "AddTaskFirst_insert f q = q\<lparr>tq_tasks := f # tq_tasks q\<rparr>"

text \<open>The second half of \<open>GetTask\<close>: \<open>None\<close> is the return value \<open>false\<close>.\<close>

definition GetTask_pop :: "'f task_queue \<Rightarrow> 'f option \<times> 'f task_queue" where
  "GetTask_pop q =
     (case tq_tasks q of
        [] \<Rightarrow> (None, q)
      | f # fs \<Rightarrow> (Some f, q\<lparr>tq_tasks := fs\<rparr>))"

definition tq_size :: "'f task_queue \<Rightarrow> u64" where
  "tq_size q = of_nat (length (tq_tasks q))"

definition goto :: "tid \<Rightarrow> tq_pc \<Rightarrow> 'f task_queue \<Rightarrow> 'f task_queue" where
  "goto t p q = q\<lparr>tq_pcs := (tq_pcs q)(t := p)\<rparr>"

datatype 'f tq_event =
    EAdd tid 'f | EAddFirst tid 'f | EPost tid | EExit tid u32
  | EEnter tid | EPass tid | ESleep tid | EWake tid | EPop tid "'f option"

inductive tq_step :: "'f task_queue \<Rightarrow> 'f tq_event \<Rightarrow> 'f task_queue \<Rightarrow> bool" where
  add: "tq_pcs q t = Outside \<Longrightarrow> tq_step q (EAdd t f) (goto t Posting (AddTask_insert f q))"
| add_first: "tq_pcs q t = Outside \<Longrightarrow>
     tq_step q (EAddFirst t f) (goto t Posting (AddTaskFirst_insert f q))"
| post: "tq_pcs q t = Posting \<Longrightarrow> sem_step (tq_sem q) (Posted 1) s \<Longrightarrow>
     tq_step q (EPost t) (goto t Outside (q\<lparr>tq_sem := s\<rparr>))"
| exit: "tq_pcs q t = Outside \<Longrightarrow> sem_step (tq_sem q) (Posted n) s \<Longrightarrow>
     tq_step q (EExit t n) (q\<lparr>tq_sem := s\<rparr>)"
| enter: "tq_pcs q t = Outside \<Longrightarrow> tq_step q (EEnter t) (goto t Waiting q)"
| pass: "tq_pcs q t = Waiting \<Longrightarrow> sem_step (tq_sem q) (Passed t) s \<Longrightarrow>
     tq_step q (EPass t) (goto t Popping (q\<lparr>tq_sem := s\<rparr>))"
| sleep: "tq_pcs q t = Waiting \<Longrightarrow> sem_step (tq_sem q) (Slept t) s \<Longrightarrow>
     tq_step q (ESleep t) (q\<lparr>tq_sem := s\<rparr>)"
| wake: "tq_pcs q t = Waiting \<Longrightarrow> sem_step (tq_sem q) (Spurious t) s \<Longrightarrow>
     tq_step q (EWake t) (q\<lparr>tq_sem := s\<rparr>)"
| pop: "tq_pcs q t = Popping \<Longrightarrow> GetTask_pop q = (r, q1) \<Longrightarrow>
     tq_step q (EPop t r) (goto t Outside q1)"

inductive tq_run :: "'f task_queue \<Rightarrow> 'f tq_event list \<Rightarrow> 'f task_queue \<Rightarrow> bool" where
  tq_nil: "tq_run q [] q"
| tq_snoc: "tq_run q evs q1 \<Longrightarrow> tq_step q1 ev q' \<Longrightarrow> tq_run q (evs @ [ev]) q'"

lemmas tq_ops = AddTask_insert_def AddTaskFirst_insert_def goto_def

lemma GetTask_pop_cases:
  assumes "GetTask_pop q = (r, q')"
  obtains "tq_tasks q = []" "r = None" "q' = q"
  | f fs where "tq_tasks q = f # fs" "r = Some f" "q' = q\<lparr>tq_tasks := fs\<rparr>"
  using assms by (auto simp: GetTask_pop_def split: list.splits)

section \<open>What a run did\<close>

fun ev_added :: "'f tq_event \<Rightarrow> 'f list" where
  "ev_added (EAdd t f) = [f]"
| "ev_added (EAddFirst t f) = [f]"
| "ev_added _ = []"

fun ev_got :: "'f tq_event \<Rightarrow> 'f list" where
  "ev_got (EPop t (Some f)) = [f]"
| "ev_got _ = []"

fun ev_false :: "'f tq_event \<Rightarrow> nat" where
  "ev_false (EPop t None) = 1"
| "ev_false _ = 0"

fun ev_exit :: "'f tq_event \<Rightarrow> nat" where
  "ev_exit (EExit t n) = unat n"
| "ev_exit _ = 0"

fun ev_sem :: "'f tq_event \<Rightarrow> sem_event list" where
  "ev_sem (EPost t) = [Posted 1]"
| "ev_sem (EExit t n) = [Posted n]"
| "ev_sem (EPass t) = [Passed t]"
| "ev_sem (ESleep t) = [Slept t]"
| "ev_sem (EWake t) = [Spurious t]"
| "ev_sem _ = []"

definition added :: "'f tq_event list \<Rightarrow> 'f list" where
  "added evs = concat (map ev_added evs)"

definition got :: "'f tq_event list \<Rightarrow> 'f list" where
  "got evs = concat (map ev_got evs)"

definition falses :: "'f tq_event list \<Rightarrow> nat" where
  "falses evs = sum_list (map ev_false evs)"

definition exits :: "'f tq_event list \<Rightarrow> nat" where
  "exits evs = sum_list (map ev_exit evs)"

definition sem_events :: "'f tq_event list \<Rightarrow> sem_event list" where
  "sem_events evs = concat (map ev_sem evs)"

lemmas history = added_def got_def falses_def exits_def sem_events_def

text \<open>The semaphore inside the queue runs as the semaphore of theory Semaphore.\<close>

lemma tq_step_sem:
  "tq_step q ev q' \<Longrightarrow>
   (ev_sem ev = [] \<and> tq_sem q' = tq_sem q) \<or>
   (\<exists>e. ev_sem ev = [e] \<and> sem_step (tq_sem q) e (tq_sem q'))"
  by (induction rule: tq_step.induct) (auto simp: tq_ops elim: GetTask_pop_cases)

lemma tq_run_sem: "tq_run q evs q' \<Longrightarrow> sem_run (tq_sem q) (sem_events evs) (tq_sem q')"
proof (induction rule: tq_run.induct)
  case (tq_nil q)
  then show ?case by (simp add: history sem_run.intros)
next
  case (tq_snoc q evs q1 ev q')
  then show ?case
    using tq_step_sem [OF tq_snoc.hyps(2)] by (auto simp: history intro: sem_run_snoc)
qed

section \<open>Counting threads\<close>

definition cnt :: "tq_pc \<Rightarrow> 'f task_queue \<Rightarrow> nat" where
  "cnt p q = card {t. tq_pcs q t = p}"

definition busy :: "'f task_queue \<Rightarrow> tid set" where
  "busy q = {t. tq_pcs q t \<noteq> Outside}"

lemma finite_pc: "finite (busy q) \<Longrightarrow> p \<noteq> Outside \<Longrightarrow> finite {t. tq_pcs q t = p}"
  by (rule finite_subset [of _ "busy q"]) (auto simp: busy_def)

lemma cnt_leave:
  assumes "finite (busy q)" and "tq_pcs q t = p" and "p \<noteq> Outside" and "p' \<noteq> p"
  shows "Suc (cnt p (goto t p' q)) = cnt p q"
proof -
  have "{u. tq_pcs (goto t p' q) u = p} = {u. tq_pcs q u = p} - {t}"
    using assms by (auto simp: goto_def)
  then show ?thesis
    using card_Suc_Diff1 [OF finite_pc [OF assms(1,3)], of t] assms by (simp add: cnt_def)
qed

lemma cnt_arrive:
  assumes "finite (busy q)" and "tq_pcs q t \<noteq> p" and "p \<noteq> Outside"
  shows "cnt p (goto t p q) = Suc (cnt p q)"
proof -
  have "{u. tq_pcs (goto t p q) u = p} = insert t {u. tq_pcs q u = p}"
    by (auto simp: goto_def)
  then show ?thesis
    using finite_pc [OF assms(1,3)] assms by (simp add: cnt_def)
qed

lemma cnt_other: "tq_pcs q t \<noteq> p \<Longrightarrow> p' \<noteq> p \<Longrightarrow> cnt p (goto t p' q) = cnt p q"
  unfolding cnt_def by (rule arg_cong [where f = card]) (auto simp: goto_def)

lemma cnt_frame: "tq_pcs q' = tq_pcs q \<Longrightarrow> cnt p q' = cnt p q"
  by (simp add: cnt_def)

lemma busy_goto: "finite (busy q) \<Longrightarrow> finite (busy (goto t p q))"
  by (rule finite_subset [of _ "insert t (busy q)"]) (auto simp: busy_def goto_def)

lemma busy_frame: "tq_pcs q' = tq_pcs q \<Longrightarrow> busy q' = busy q"
  by (simp add: busy_def)

section \<open>The balance of tasks and permits\<close>

text \<open>Permits on their way: posts still to come, the counter, and waits that returned and have
  not popped yet.\<close>

definition permits :: "'f task_queue \<Rightarrow> nat" where
  "permits q = cnt Posting q + unat (sem_count (tq_sem q)) + cnt Popping q"

lemma cnt_simps [simp]:
  "cnt p (q\<lparr>tq_sem := s\<rparr>) = cnt p q" "cnt p (q\<lparr>tq_tasks := fs\<rparr>) = cnt p q"
  "busy (q\<lparr>tq_sem := s\<rparr>) = busy q" "busy (q\<lparr>tq_tasks := fs\<rparr>) = busy q"
  by (simp_all add: cnt_def busy_def)

lemma insert_simps [simp]:
  "cnt p (AddTask_insert f q) = cnt p q" "cnt p (AddTaskFirst_insert f q) = cnt p q"
  "busy (AddTask_insert f q) = busy q" "busy (AddTaskFirst_insert f q) = busy q"
  "tq_pcs (AddTask_insert f q) = tq_pcs q" "tq_pcs (AddTaskFirst_insert f q) = tq_pcs q"
  "tq_sem (AddTask_insert f q) = tq_sem q" "tq_sem (AddTaskFirst_insert f q) = tq_sem q"
  by (simp_all add: cnt_def busy_def AddTask_insert_def AddTaskFirst_insert_def)

lemma goto_simps [simp]:
  "tq_tasks (goto t p q) = tq_tasks q" "tq_sem (goto t p q) = tq_sem q"
  by (simp_all add: goto_def)

lemma tq_step_busy: "tq_step q ev q' \<Longrightarrow> finite (busy q) \<Longrightarrow> finite (busy q')"
  by (induction rule: tq_step.induct)
    (auto intro!: busy_goto elim!: GetTask_pop_cases)

lemma sem_step_posted: "sem_step a (Posted n) b \<Longrightarrow> unat (sem_count a) + unat n < 2 ^ 32 \<Longrightarrow>
    unat (sem_count b) = unat (sem_count a) + unat n"
  using sem_step_count by fastforce

lemma sem_step_passed: "sem_step a (Passed t) b \<Longrightarrow> Suc (unat (sem_count b)) = unat (sem_count a)"
  using sem_step_count [of a "Passed t" b] unat32_lt [of "sem_count a"] by simp

lemma sem_step_slept: "sem_step a (Slept t) b \<Longrightarrow> sem_count b = sem_count a"
  by (auto elim!: sem_sleepE simp: sem_test_def split: if_splits)

lemma sem_step_spurious: "sem_step a (Spurious t) b \<Longrightarrow> sem_count b = sem_count a"
  by (auto elim!: sem_spuriousE)

lemma tq_step_balance:
  assumes "tq_step q ev q'" and "finite (busy q)"
    and "unat (sem_count (tq_sem q)) + posted (ev_sem ev) < 2 ^ 32"
  shows "length (tq_tasks q') + ev_exit ev + permits q =
         permits q' + ev_false ev + length (tq_tasks q)"
  using assms
proof (induction rule: tq_step.induct)
  case (add q t f)
  then show ?case
    using cnt_arrive [of "AddTask_insert f q" t Posting] cnt_other [of "AddTask_insert f q" t Popping Posting]
    by (simp add: permits_def) (simp add: AddTask_insert_def)
next
  case (add_first q t f)
  then show ?case
    using cnt_arrive [of "AddTaskFirst_insert f q" t Posting] cnt_other [of "AddTaskFirst_insert f q" t Popping Posting]
    by (simp add: permits_def) (simp add: AddTaskFirst_insert_def)
next
  case (post q t s)
  then show ?case
    using cnt_leave [of "q\<lparr>tq_sem := s\<rparr>" t Posting Outside]
      cnt_other [of "q\<lparr>tq_sem := s\<rparr>" t Popping Outside] sem_step_posted [OF post.hyps(2)]
    by (simp add: permits_def posted_def)
next
  case (exit q t n s)
  then show ?case
    using sem_step_posted [OF exit.hyps(2)] by (simp add: permits_def posted_def)
next
  case (enter q t)
  then show ?case
    using cnt_other [of q t Posting Waiting] cnt_other [of q t Popping Waiting]
    by (simp add: permits_def)
next
  case (pass q t s)
  then show ?case
    using cnt_arrive [of "q\<lparr>tq_sem := s\<rparr>" t Popping]
      cnt_other [of "q\<lparr>tq_sem := s\<rparr>" t Posting Popping] sem_step_passed [OF pass.hyps(2)]
    by (simp add: permits_def)
next
  case (sleep q t s)
  then show ?case using sem_step_slept [OF sleep.hyps(2)] by (simp add: permits_def)
next
  case (wake q t s)
  then show ?case using sem_step_spurious [OF wake.hyps(2)] by (simp add: permits_def)
next
  case (pop q t r q1)
  have q1: "tq_pcs q1 = tq_pcs q" "tq_sem q1 = tq_sem q"
    using pop.hyps(2) by (auto elim: GetTask_pop_cases)
  have "Suc (cnt Popping (goto t Outside q1)) = cnt Popping q1"
    "cnt Posting (goto t Outside q1) = cnt Posting q1"
    using pop q1 by (simp_all add: cnt_leave cnt_other busy_frame [OF q1(1)])
  with pop.hyps(2) q1 show ?case
    by (elim GetTask_pop_cases) (simp_all add: permits_def cnt_frame [OF q1(1)])
qed

lemma tq_step_covered:
  assumes "tq_step q ev q'" and "finite (busy q)"
    and "unat (sem_count (tq_sem q)) + posted (ev_sem ev) < 2 ^ 32"
    and "length (tq_tasks q) \<le> permits q"
  shows "length (tq_tasks q') \<le> permits q'"
proof (cases "\<exists>t. ev = EPop t None")
  case True
  with assms(1) have "tq_tasks q' = []" by (auto elim!: tq_step.cases GetTask_pop_cases)
  then show ?thesis by simp
next
  case False
  then have "ev_false ev = 0" by (cases ev rule: ev_false.cases) auto
  with tq_step_balance [OF assms(1,2,3)] assms(4) show ?thesis by simp
qed

section \<open>Invariants over runs\<close>

lemma posted_append [simp]: "posted (xs @ ys) = posted xs + posted ys"
  by (simp add: posted_def)

lemma history_snoc [simp]:
  "added (evs @ [ev]) = added evs @ ev_added ev" "got (evs @ [ev]) = got evs @ ev_got ev"
  "falses (evs @ [ev]) = falses evs + ev_false ev" "exits (evs @ [ev]) = exits evs + ev_exit ev"
  "sem_events (evs @ [ev]) = sem_events evs @ ev_sem ev"
  by (simp_all add: history)

lemma history_nil [simp]:
  "added [] = []" "got [] = []" "falses [] = 0" "exits [] = 0" "sem_events [] = []" "posted [] = 0"
  by (simp_all add: history posted_def)

lemma tq_init_simps [simp]:
  "tq_tasks tq_init = []" "tq_sem tq_init = sem_init" "tq_pcs tq_init t = Outside"
  "cnt Posting tq_init = 0" "cnt Popping tq_init = 0" "busy tq_init = {}"
  "sem_count sem_init = 0"
  by (simp_all add: tq_init_def cnt_def busy_def sem_init_def)

definition tq_inv :: "'f task_queue \<Rightarrow> 'f tq_event list \<Rightarrow> bool" where
  "tq_inv q evs \<longleftrightarrow>
     finite (busy q) \<and> length (tq_tasks q) \<le> permits q \<and>
     length (tq_tasks q) + exits evs = permits q + falses evs"

lemma tq_run_inv:
  assumes "tq_run q0 evs q" and "q0 = tq_init" and "posted (sem_events evs) < 2 ^ 32"
  shows "tq_inv q evs"
  using assms
proof (induction rule: tq_run.induct)
  case (tq_nil q)
  then show ?case by (simp add: tq_inv_def permits_def)
next
  case (tq_snoc q evs q1 ev q')
  have inv: "tq_inv q1 evs" using tq_snoc by simp
  have "unat (sem_count (tq_sem q1)) \<le> posted (sem_events evs)"
    using cs.conservation [OF tq_run_sem [OF tq_snoc.hyps(1)]] tq_snoc.prems by simp
  then have lim: "unat (sem_count (tq_sem q1)) + posted (ev_sem ev) < 2 ^ 32"
    using tq_snoc.prems by simp
  have fin: "finite (busy q1)" and cov: "length (tq_tasks q1) \<le> permits q1"
    using inv by (simp_all add: tq_inv_def)
  show ?case
    using tq_step_balance [OF tq_snoc.hyps(2) fin lim] inv
      tq_step_covered [OF tq_snoc.hyps(2) fin lim cov] tq_step_busy [OF tq_snoc.hyps(2) fin]
    by (simp add: tq_inv_def)
qed

lemma tq_step_tasks:
  "tq_step q ev q' \<Longrightarrow>
   mset (tq_tasks q) + mset (ev_added ev) = mset (ev_got ev) + mset (tq_tasks q') \<and>
   ((\<forall>t f. ev \<noteq> EAddFirst t f) \<longrightarrow> tq_tasks q @ ev_added ev = ev_got ev @ tq_tasks q')"
  by (induction rule: tq_step.induct)
    (auto simp: AddTask_insert_def AddTaskFirst_insert_def elim!: GetTask_pop_cases)

lemma tq_run_tasks:
  "tq_run q evs q' \<Longrightarrow>
   mset (tq_tasks q) + mset (added evs) = mset (got evs) + mset (tq_tasks q') \<and>
   ((\<forall>t f. EAddFirst t f \<notin> set evs) \<longrightarrow> tq_tasks q @ added evs = got evs @ tq_tasks q')"
proof (induction rule: tq_run.induct)
  case (tq_snoc q evs q1 ev q')
  note step = tq_step_tasks [OF tq_snoc.hyps(2)]
  have "mset (tq_tasks q) + mset (added evs @ ev_added ev) =
      mset (got evs @ ev_got ev) + mset (tq_tasks q')"
    using step tq_snoc.IH by (simp add: ac_simps) (metis union_assoc union_commute)
  moreover have "tq_tasks q @ added evs @ ev_added ev = (got evs @ ev_got ev) @ tq_tasks q'"
    if "\<forall>t f. EAddFirst t f \<notin> set (evs @ [ev])"
  proof -
    have "tq_tasks q @ added evs = got evs @ tq_tasks q1"
      "tq_tasks q1 @ ev_added ev = ev_got ev @ tq_tasks q'"
      using that step tq_snoc.IH by auto
    then show ?thesis by (metis append_assoc)
  qed
  ultimately show ?case by simp
qed simp

text \<open>The threads the semaphore knows are inside \<open>Wait\<close>.\<close>

definition tq_places :: "'f task_queue \<Rightarrow> bool" where
  "tq_places q \<longleftrightarrow> (\<forall>t \<in> sem_asleep (tq_sem q) \<union> sem_awake (tq_sem q). tq_pcs q t = Waiting)"

lemma sem_step_members:
  "sem_step a e b \<Longrightarrow>
   sem_asleep b \<union> sem_awake b \<subseteq>
     sem_asleep a \<union> sem_awake a \<union> (case e of Slept t \<Rightarrow> {t} | _ \<Rightarrow> {}) \<and>
   (\<forall>t. e = Passed t \<longrightarrow> t \<notin> sem_asleep b \<union> sem_awake b)"
  by (induction rule: sem_step.induct)
    (auto simp: sem_post_def sem_test_def Let_def split: option.splits if_splits)

lemma tq_step_places: "tq_step q ev q' \<Longrightarrow> tq_places q \<Longrightarrow> tq_places q'"
proof (induction rule: tq_step.induct)
  case (pop q t r q1)
  then show ?case by (auto simp: tq_places_def goto_def elim!: GetTask_pop_cases)
qed (use sem_step_members in \<open>fastforce simp: tq_places_def tq_ops\<close>)+

lemma tq_run_places: "tq_run q evs q' \<Longrightarrow> tq_places q \<Longrightarrow> tq_places q'"
  by (induction rule: tq_run.induct) (auto intro: tq_step_places)

lemma tq_init_places: "tq_places tq_init"
  by (simp add: tq_places_def sem_init_def)

lemma tq_run_sem_inv: "tq_run tq_init evs q \<Longrightarrow> sem_inv (tq_sem q)"
  using tq_run_sem [of tq_init evs q] sem_run_inv [OF _ sem_init_inv] by simp

section \<open>Progress\<close>

lemma cnt_pos: "0 < cnt p q \<Longrightarrow> \<exists>t. tq_pcs q t = p"
  by (metis (mono_tags, lifting) cnt_def card_gt_0_iff empty_Collect_eq)

lemma can_post: "tq_pcs q t = Posting \<Longrightarrow> \<exists>q'. tq_step q (EPost t) q'"
proof -
  assume t: "tq_pcs q t = Posting"
  have "\<exists>s. sem_step (tq_sem q) (Posted 1) s"
  proof (cases "sem_asleep (tq_sem q) = {}")
    case True
    then show ?thesis using sem_step.post [where pick = None] by fastforce
  next
    case False
    then obtain u where "u \<in> sem_asleep (tq_sem q)" by blast
    then show ?thesis using sem_step.post [where pick = "Some u"] by fastforce
  qed
  with t show ?thesis using tq_step.post by blast
qed

lemma can_pop: "tq_pcs q t = Popping \<Longrightarrow> \<exists>r q'. tq_step q (EPop t r) q'"
  using tq_step.pop by (metis surj_pair)

lemma can_pass:
  assumes "tq_pcs q t = Waiting" and "t \<notin> sem_asleep (tq_sem q)" and "sem_count (tq_sem q) \<noteq> 0"
  shows "\<exists>q'. tq_step q (EPass t) q'"
  using tq_step.pass [OF assms(1) sem_step.pass [OF assms(2)]] assms(3)
  by (fastforce simp: sem_test_def)

section \<open>A run to apply the properties to\<close>

text \<open>A run: a worker waits, a task is added behind it, the worker pops it and asks again, and
  an exit lets it go.\<close>

definition tq_demo_events :: "nat tq_event list" where
  "tq_demo_events =
     [EEnter 1, ESleep 1, EAdd 2 7, EPost 2, EPass 1, EPop 1 (Some 7),
      EEnter 1, ESleep 1, EExit 2 1, EPass 1, EPop 1 None]"

lemma tq_step_postD:
  assumes "tq_pcs q t = Posting" and "sem_asleep (tq_sem q) = {}"
  shows "tq_step q (EPost t) (goto t Outside (q\<lparr>tq_sem := sem_post 1 None (tq_sem q)\<rparr>))"
  using assms by (intro tq_step.post sem_step.post) simp_all

lemma tq_step_post_wake:
  assumes "tq_pcs q t = Posting" and "u \<in> sem_asleep (tq_sem q)"
  shows "tq_step q (EPost t) (goto t Outside (q\<lparr>tq_sem := sem_post 1 (Some u) (tq_sem q)\<rparr>))"
  using assms by (intro tq_step.post sem_step.post) simp_all

lemma tq_step_exit_wake:
  assumes "tq_pcs q t = Outside" and "u \<in> sem_asleep (tq_sem q)"
  shows "tq_step q (EExit t n) (q\<lparr>tq_sem := sem_post n (Some u) (tq_sem q)\<rparr>)"
  using assms by (intro tq_step.exit sem_step.post) simp_all

lemma tq_step_passD:
  assumes "tq_pcs q t = Waiting" and "t \<notin> sem_asleep (tq_sem q)" and "sem_count (tq_sem q) \<noteq> 0"
  shows "tq_step q (EPass t) (goto t Popping (q\<lparr>tq_sem := snd (sem_test t (tq_sem q))\<rparr>))"
  using assms by (intro tq_step.pass sem_step.pass) (simp_all add: sem_test_def)

lemma tq_step_sleepD:
  assumes "tq_pcs q t = Waiting" and "t \<notin> sem_asleep (tq_sem q)" and "sem_count (tq_sem q) = 0"
  shows "tq_step q (ESleep t) (q\<lparr>tq_sem := snd (sem_test t (tq_sem q))\<rparr>)"
  using assms by (intro tq_step.sleep sem_step.sleep) (simp_all add: sem_test_def)

lemma tq_step_popD:
  assumes "tq_pcs q t = Popping" and "fst (GetTask_pop q) = r"
  shows "tq_step q (EPop t r) (goto t Outside (snd (GetTask_pop q)))"
  using tq_step.pop [OF assms(1)] assms(2) by (metis prod.collapse)

text \<open>Its states, one after each prefix of the events.\<close>

definition tq_demo :: "nat task_queue list" where
  "tq_demo = [
     \<lparr>tq_tasks = [], tq_sem = \<lparr>sem_count = 0, sem_asleep = {}, sem_awake = {}\<rparr>, tq_pcs = (\<lambda>t. Outside)\<rparr>,
     \<lparr>tq_tasks = [], tq_sem = \<lparr>sem_count = 0, sem_asleep = {}, sem_awake = {}\<rparr>, tq_pcs = (\<lambda>t. Outside)(1 := Waiting)\<rparr>,
     \<lparr>tq_tasks = [], tq_sem = \<lparr>sem_count = 0, sem_asleep = {1}, sem_awake = {}\<rparr>, tq_pcs = (\<lambda>t. Outside)(1 := Waiting)\<rparr>,
     \<lparr>tq_tasks = [7], tq_sem = \<lparr>sem_count = 0, sem_asleep = {1}, sem_awake = {}\<rparr>, tq_pcs = (\<lambda>t. Outside)(1 := Waiting, 2 := Posting)\<rparr>,
     \<lparr>tq_tasks = [7], tq_sem = \<lparr>sem_count = 1, sem_asleep = {}, sem_awake = {1}\<rparr>, tq_pcs = (\<lambda>t. Outside)(1 := Waiting)\<rparr>,
     \<lparr>tq_tasks = [7], tq_sem = \<lparr>sem_count = 0, sem_asleep = {}, sem_awake = {}\<rparr>, tq_pcs = (\<lambda>t. Outside)(1 := Popping)\<rparr>,
     \<lparr>tq_tasks = [], tq_sem = \<lparr>sem_count = 0, sem_asleep = {}, sem_awake = {}\<rparr>, tq_pcs = (\<lambda>t. Outside)\<rparr>,
     \<lparr>tq_tasks = [], tq_sem = \<lparr>sem_count = 0, sem_asleep = {}, sem_awake = {}\<rparr>, tq_pcs = (\<lambda>t. Outside)(1 := Waiting)\<rparr>,
     \<lparr>tq_tasks = [], tq_sem = \<lparr>sem_count = 0, sem_asleep = {1}, sem_awake = {}\<rparr>, tq_pcs = (\<lambda>t. Outside)(1 := Waiting)\<rparr>,
     \<lparr>tq_tasks = [], tq_sem = \<lparr>sem_count = 1, sem_asleep = {}, sem_awake = {1}\<rparr>, tq_pcs = (\<lambda>t. Outside)(1 := Waiting)\<rparr>,
     \<lparr>tq_tasks = [], tq_sem = \<lparr>sem_count = 0, sem_asleep = {}, sem_awake = {}\<rparr>, tq_pcs = (\<lambda>t. Outside)(1 := Popping)\<rparr>,
     \<lparr>tq_tasks = [], tq_sem = \<lparr>sem_count = 0, sem_asleep = {}, sem_awake = {}\<rparr>, tq_pcs = (\<lambda>t. Outside)\<rparr>]"

lemmas tq_demo_simps =
  goto_def sem_test_def sem_post_def AddTask_insert_def GetTask_pop_def tq_init_def sem_init_def Let_def

lemma tq_back: "u \<noteq> t \<Longrightarrow> (\<lambda>t. Outside)(u := p, t := Outside) = (\<lambda>t. Outside)(u := p)"
  by auto

lemma tq_demo_steps:
  "tq_step (tq_demo ! 0) (EEnter 1) (tq_demo ! 1)"
  "tq_step (tq_demo ! 1) (ESleep 1) (tq_demo ! 2)"
  "tq_step (tq_demo ! 2) (EAdd 2 7) (tq_demo ! 3)"
  "tq_step (tq_demo ! 3) (EPost 2) (tq_demo ! 4)"
  "tq_step (tq_demo ! 4) (EPass 1) (tq_demo ! 5)"
  "tq_step (tq_demo ! 5) (EPop 1 (Some 7)) (tq_demo ! 6)"
  "tq_step (tq_demo ! 6) (EEnter 1) (tq_demo ! 7)"
  "tq_step (tq_demo ! 7) (ESleep 1) (tq_demo ! 8)"
  "tq_step (tq_demo ! 8) (EExit 2 1) (tq_demo ! 9)"
  "tq_step (tq_demo ! 9) (EPass 1) (tq_demo ! 10)"
  "tq_step (tq_demo ! 10) (EPop 1 None) (tq_demo ! 11)"
  subgoal using tq_step.enter [where q = "tq_demo ! 0" and t = 1] by (simp add: tq_demo_def tq_demo_simps tq_back insert_Diff_if fun_upd_idem)
  subgoal using tq_step_sleepD [where q = "tq_demo ! 1" and t = 1] by (simp add: tq_demo_def tq_demo_simps tq_back insert_Diff_if fun_upd_idem)
  subgoal using tq_step.add [where q = "tq_demo ! 2" and t = 2 and f = 7] by (simp add: tq_demo_def tq_demo_simps tq_back insert_Diff_if fun_upd_idem)
  subgoal using tq_step_post_wake [where q = "tq_demo ! 3" and t = 2 and u = 1] by (simp add: tq_demo_def tq_demo_simps tq_back insert_Diff_if fun_upd_idem)
  subgoal using tq_step_passD [where q = "tq_demo ! 4" and t = 1] by (simp add: tq_demo_def tq_demo_simps tq_back insert_Diff_if fun_upd_idem)
  subgoal using tq_step_popD [where q = "tq_demo ! 5" and t = 1 and r = "Some 7"] by (simp add: tq_demo_def tq_demo_simps tq_back insert_Diff_if fun_upd_idem)
  subgoal using tq_step.enter [where q = "tq_demo ! 6" and t = 1] by (simp add: tq_demo_def tq_demo_simps tq_back insert_Diff_if fun_upd_idem)
  subgoal using tq_step_sleepD [where q = "tq_demo ! 7" and t = 1] by (simp add: tq_demo_def tq_demo_simps tq_back insert_Diff_if fun_upd_idem)
  subgoal using tq_step_exit_wake [where q = "tq_demo ! 8" and t = 2 and u = 1 and n = 1] by (simp add: tq_demo_def tq_demo_simps tq_back insert_Diff_if fun_upd_idem)
  subgoal using tq_step_passD [where q = "tq_demo ! 9" and t = 1] by (simp add: tq_demo_def tq_demo_simps tq_back insert_Diff_if fun_upd_idem)
  subgoal using tq_step_popD [where q = "tq_demo ! 10" and t = 1 and r = None] by (simp add: tq_demo_def tq_demo_simps tq_back insert_Diff_if fun_upd_idem)
  done

lemma tq_demo_run_step:
  "tq_run tq_init (take n tq_demo_events) (tq_demo ! n) \<Longrightarrow> n < length tq_demo_events \<Longrightarrow>
   tq_step (tq_demo ! n) (tq_demo_events ! n) (tq_demo ! Suc n) \<Longrightarrow>
   tq_run tq_init (take (Suc n) tq_demo_events) (tq_demo ! Suc n)"
  using tq_snoc by (simp add: take_Suc_conv_app_nth)

lemma tq_demo_all_steps: "n < 11 \<Longrightarrow> tq_step (tq_demo ! n) (tq_demo_events ! n) (tq_demo ! Suc n)"
  using tq_demo_steps by (auto simp: tq_demo_events_def numeral_eq_Suc less_Suc_eq)

lemma tq_demo_run: "n \<le> 11 \<Longrightarrow> tq_run tq_init (take n tq_demo_events) (tq_demo ! n)"
proof (induction n)
  case 0
  have "tq_demo ! 0 = tq_init" by (simp add: tq_demo_def tq_init_def sem_init_def)
  then show ?case using tq_nil [of tq_init] by simp
next
  case (Suc n)
  then show ?case
    by (intro tq_demo_run_step tq_demo_all_steps) (simp_all add: tq_demo_events_def)
qed

section \<open>Properties\<close>

text \<open>
  \<open>GetTask\<close> returns \<open>false\<close> only for an exit permit: in any interleaving of
  \<open>AddTask\<close>, \<open>AddTaskFirst\<close>, \<open>PostExit\<close> and \<open>GetTask\<close> by any number of threads, \<open>false\<close> has been
  returned at most as often as \<open>PostExit\<close> asked for, though another thread may well pop the task
  a given permit was posted for.
\<close>

theorem GetTask_false_only_on_exit:
  assumes "tq_run tq_init evs q" and "posted (sem_events evs) < 2 ^ 32"
  shows "falses evs \<le> exits evs"
  using tq_run_inv [OF assms(1) refl assms(2)] by (simp add: tq_inv_def)

lemma GetTask_false_only_on_exit_witness:
  "falses tq_demo_events = 1 \<and> falses tq_demo_events \<le> exits tq_demo_events"
  using GetTask_false_only_on_exit [OF tq_demo_run [of 11]]
  by (simp add: tq_demo_events_def history posted_def)



text \<open>
  Property C26. Tasks are neither lost nor duplicated, and come out first in first out: over any
  interleaving, what \<open>GetTask\<close> returned together with what is still queued is what was added, as
  multisets; and in exactly that order, the oldest first, when \<open>AddTaskFirst\<close> was not used.
\<close>

theorem tasks_in_order:
  assumes "tq_run tq_init evs q"
  shows "mset (added evs) = mset (got evs) + mset (tq_tasks q) \<and>
    ((\<forall>t f. EAddFirst t f \<notin> set evs) \<longrightarrow> added evs = got evs @ tq_tasks q)"
  using tq_run_tasks [OF assms] by simp

lemma tasks_in_order_witness:
  "added tq_demo_events = [7] \<and> got tq_demo_events = [7] \<and>
   added tq_demo_events = got tq_demo_events @ tq_tasks (tq_demo ! 11)"
  using tasks_in_order [OF tq_demo_run [of 11]] by (simp add: tq_demo_events_def history)

text \<open>
  The queue at rest: when every thread is either outside the queue or asleep, and
  some thread sleeps, then no task is left, every task added was handed out, and every exit
  permit has been used up by a \<open>GetTask\<close> that returned \<open>false\<close>. So a worker is never left asleep
  by a \<open>PostExit\<close> that counted it.
\<close>

theorem queue_at_rest:
  assumes "tq_run tq_init evs q" and "posted (sem_events evs) < 2 ^ 32"
    and "\<forall>t. tq_pcs q t = Outside \<or> t \<in> sem_asleep (tq_sem q)" and "sem_asleep (tq_sem q) \<noteq> {}"
  shows "tq_tasks q = [] \<and> mset (added evs) = mset (got evs) \<and> falses evs = exits evs"
proof -
  have inv: "tq_inv q evs" using tq_run_inv [OF assms(1) refl assms(2)] .
  have sem: "sem_inv (tq_sem q)" using tq_run_sem_inv [OF assms(1)] .
  have pl: "tq_places q" using tq_run_places [OF assms(1) tq_init_places] .
  have asleep: "tq_pcs q t \<noteq> Posting \<and> tq_pcs q t \<noteq> Popping" for t
    using assms(3) pl by (cases "tq_pcs q t = Outside") (auto simp: tq_places_def)
  have "t \<notin> sem_awake (tq_sem q)" for t
    using assms(3) pl sem by (cases "tq_pcs q t = Outside") (auto simp: tq_places_def sem_inv_def)
  then have "sem_awake (tq_sem q) = {}" by blast
  then have "unat (sem_count (tq_sem q)) = 0" using sem assms(4) by (simp add: sem_inv_def)
  moreover have "cnt Posting q = 0" "cnt Popping q = 0" using asleep by (simp_all add: cnt_def)
  ultimately have "permits q = 0" by (simp add: permits_def)
  then show ?thesis using inv tq_run_tasks [OF assms(1)] by (auto simp: tq_inv_def)
qed

lemma queue_at_rest_witness:
  "tq_tasks (tq_demo ! 8) = [] \<and> mset [7] = mset (got (take 8 tq_demo_events))"
  using queue_at_rest [OF tq_demo_run [of 8]]
  by (simp add: tq_demo_events_def tq_demo_def history posted_def)

end
