(* ===== verification/ThreadGroup.thy ===== *)
theory ThreadGroup
  imports Prelude "HOL-Library.AList"
begin

text \<open>
  \<^verbatim>\<open>thread/group.h\<close>: a group of threads, keyed by their identifiers. \<open>std::thread\<close> objects live in a
  heap; an object stands for a running thread (it has an identifier and is joinable) until it
  is joined, after which its \<open>get_id()\<close> is the default identifier, \<open>None\<close> here. Destroying an
  object that is still joinable ends the program. The group owns the only pointer to its threads.
\<close>

type_synonym thread_id = "nat option"

datatype group_error = RuntimeError | Terminate

text \<open>
  \<open>objs\<close>: the thread objects, by address, with what their \<open>get_id()\<close> returns. \<open>threads\<close> and
  \<open>last_id\<close> are the fields \<open>threads_\<close> and \<open>thread_id_\<close>; the map is listed in the order it is
  iterated.
\<close>

record thread_group =
  objs :: "nat \<Rightarrow> thread_id option"
  threads :: "(thread_id \<times> nat) list"
  last_id :: thread_id

definition group_init :: thread_group where
  "group_init = \<lparr>objs = Map.empty, threads = [], last_id = None\<rparr>"

definition get_id :: "nat \<Rightarrow> thread_group \<Rightarrow> thread_id" where
  "get_id t g = (case objs g t of None \<Rightarrow> None | Some i \<Rightarrow> i)"

text \<open>The end of a thread object's life.\<close>

definition destroy :: "nat \<Rightarrow> thread_group \<Rightarrow> group_error + thread_group" where
  "destroy t g = (if get_id t g \<noteq> None then Inl Terminate else Inr (g\<lparr>objs := (objs g)(t := None)\<rparr>))"

text \<open>
  The system gives the new thread the identifier \<open>i\<close> and the allocator the address \<open>t\<close>. Where the
  identifier is a key already, the assignment releases the object it had.
\<close>

definition CreateThread ::
  "nat \<Rightarrow> nat \<Rightarrow> thread_group \<Rightarrow> group_error + nat \<times> thread_group" where
  "CreateThread i t g =
     (let g' = g\<lparr>objs := (objs g)(t \<mapsto> Some i), last_id := Some i,
                 threads := AList.update (Some i) t (threads g)\<rparr>
      in case map_of (threads g) (Some i) of
           None \<Rightarrow> Inr (t, g')
         | Some u \<Rightarrow> (case destroy u g' of Inl x \<Rightarrow> Inl x | Inr g'' \<Rightarrow> Inr (t, g'')))"

definition RemoveThread :: "nat \<Rightarrow> thread_group \<Rightarrow> group_error + thread_group" where
  "RemoveThread t g =
     (case map_of (threads g) (get_id t g) of
        None \<Rightarrow> Inr g
      | Some u \<Rightarrow> destroy u (g\<lparr>threads := AList.delete (get_id t g) (threads g)\<rparr>))"

definition IsSelfThreadIn :: "thread_id \<Rightarrow> thread_group \<Rightarrow> bool" where
  "IsSelfThreadIn self g \<longleftrightarrow> self = last_id g \<or> map_of (threads g) self \<noteq> None"

definition IsThreadIn :: "nat \<Rightarrow> thread_group \<Rightarrow> bool" where
  "IsThreadIn t g \<longleftrightarrow> get_id t g = last_id g \<or> map_of (threads g) (get_id t g) \<noteq> None"

definition Size :: "thread_group \<Rightarrow> nat" where
  "Size g = length (threads g)"

text \<open>\<open>join\<close>, if the thread is joinable.\<close>

definition join_thread :: "nat \<Rightarrow> thread_group \<Rightarrow> thread_group" where
  "join_thread t g = (if get_id t g \<noteq> None then g\<lparr>objs := (objs g)(t \<mapsto> None)\<rparr> else g)"

text \<open>\<open>threads_.clear()\<close> destroys the objects one after the other.\<close>

fun destroy_all :: "nat list \<Rightarrow> thread_group \<Rightarrow> group_error + thread_group" where
  "destroy_all [] g = Inr g"
| "destroy_all (t # ts) g = (case destroy t g of Inl x \<Rightarrow> Inl x | Inr g' \<Rightarrow> destroy_all ts g')"

definition group_clear :: "thread_group \<Rightarrow> group_error + thread_group" where
  "group_clear g = destroy_all (map snd (threads g)) (g\<lparr>threads := []\<rparr>)"

definition JoinAll :: "thread_id \<Rightarrow> thread_group \<Rightarrow> group_error + thread_group" where
  "JoinAll self g =
     (if IsSelfThreadIn self g then Inl RuntimeError
      else group_clear (fold (\<lambda>(i, t) g. join_thread t g) (threads g) g))"

section \<open>Well-formed groups\<close>

text \<open>
  Every thread of the group is an object of its own, which runs under its key unless its owner
  has joined it. No two running threads share an identifier.
\<close>

definition group_ok :: "thread_group \<Rightarrow> bool" where
  "group_ok g \<longleftrightarrow>
     distinct (map fst (threads g)) \<and> distinct (map snd (threads g)) \<and>
     (\<forall>(i, t) \<in> set (threads g). i \<noteq> None \<and> objs g t \<in> {Some i, Some None}) \<and>
     (\<forall>t u i. objs g t = Some (Some i) \<and> objs g u = Some (Some i) \<longrightarrow> t = u)"

text \<open>What the system and the allocator promise of a new thread.\<close>

definition fresh_thread :: "nat \<Rightarrow> nat \<Rightarrow> thread_group \<Rightarrow> bool" where
  "fresh_thread i t g \<longleftrightarrow> objs g t = None \<and> (\<forall>u. objs g u \<noteq> Some (Some i))"

lemma group_okD:
  assumes "group_ok g"
  shows group_ok_keys: "distinct (map fst (threads g))"
    and group_ok_objs: "distinct (map snd (threads g))"
    and group_ok_entry: "(i, t) \<in> set (threads g) \<Longrightarrow> i \<noteq> None \<and> objs g t \<in> {Some i, Some None}"
  using assms by (auto simp: group_ok_def)

lemma group_ok_map_of:
  assumes "group_ok g" and "map_of (threads g) i = Some t"
  shows "i \<noteq> None \<and> objs g t \<in> {Some i, Some None}"
  using group_ok_entry [OF assms(1) map_of_SomeD [OF assms(2)]] .

lemma group_init_ok: "group_ok group_init"
  by (simp add: group_ok_def group_init_def)

section \<open>Joining and clearing\<close>

lemma threads_join [simp]: "threads (join_thread t g) = threads g"
  "last_id (join_thread t g) = last_id g"
  by (simp_all add: join_thread_def)

lemma get_id_join [simp]: "get_id u (join_thread t g) = (if u = t then None else get_id u g)"
  by (auto simp: join_thread_def get_id_def split: option.splits)

lemma join_thread_ok: "group_ok g \<Longrightarrow> group_ok (join_thread t g)"
  by (auto simp: group_ok_def join_thread_def split: if_splits)

lemma fold_join:
  "fold (\<lambda>(i, t) g. join_thread t g) ts g =
     g\<lparr>objs := \<lambda>t. if t \<in> snd ` set ts \<and> get_id t g \<noteq> None then Some None else objs g t\<rparr>"
proof (induction ts arbitrary: g)
  case Nil
  show ?case by simp
next
  case (Cons p ts)
  obtain i t where p: "p = (i, t)" by (cases p)
  show ?case
    unfolding p fold_Cons o_apply prod.case Cons.IH
    by (auto simp: join_thread_def get_id_def fun_eq_iff split: option.splits)
qed

lemma destroy_all_joined:
  assumes "\<forall>t \<in> set ts. get_id t g = None"
  shows "destroy_all ts g = Inr (g\<lparr>objs := \<lambda>t. if t \<in> set ts then None else objs g t\<rparr>)"
  using assms
proof (induction ts arbitrary: g)
  case Nil
  show ?case by simp
next
  case (Cons t ts)
  let ?g = "g\<lparr>objs := (objs g)(t := None)\<rparr>"
  have "\<forall>u \<in> set ts. get_id u ?g = None"
    using Cons.prems by (auto simp: get_id_def)
  from Cons.IH [OF this] show ?case
    using Cons.prems by (auto simp: destroy_def fun_eq_iff)
qed

text \<open>From outside, \<open>JoinAll\<close> joins every thread, then destroys them all.\<close>

lemma JoinAll_ok:
  assumes "\<not> IsSelfThreadIn self g"
  shows "JoinAll self g = Inr (g\<lparr>objs := (objs g) |` (- snd ` set (threads g)), threads := []\<rparr>)"
proof -
  let ?g = "fold (\<lambda>(i, t) g. join_thread t g) (threads g) g"
  have "\<forall>t \<in> set (map snd (threads ?g)). get_id t (?g\<lparr>threads := []\<rparr>) = None"
    by (auto simp: fold_join get_id_def)
  from destroy_all_joined [OF this] show ?thesis
    using assms by (auto simp: JoinAll_def group_clear_def fold_join restrict_map_def fun_eq_iff)
qed

text \<open>Clearing a group that still has a running thread ends the program.\<close>

lemma destroy_all_running:
  "t \<in> set ts \<Longrightarrow> get_id t g \<noteq> None \<Longrightarrow> destroy_all ts g = Inl Terminate"
proof (induction ts arbitrary: g)
  case Nil
  then show ?case by simp
next
  case (Cons u ts)
  show ?case
  proof (cases "get_id u g = None")
    case True
    then have "t \<in> set ts" "get_id t (g\<lparr>objs := (objs g)(u := None)\<rparr>) \<noteq> None"
      using Cons.prems by (auto simp: get_id_def)
    from Cons.IH [OF this] show ?thesis
      using True by (simp add: destroy_def)
  qed (simp add: destroy_def)
qed

section \<open>Adding and removing threads\<close>

lemma CreateThread_cases:
  assumes "group_ok g" and "fresh_thread i t g"
  obtains g' where "CreateThread i t g = Inr (t, g')"
    and "last_id g' = Some i" and "threads g' = AList.update (Some i) t (threads g)"
    and "objs g' = (case map_of (threads g) (Some i) of None \<Rightarrow> (objs g)(t \<mapsto> Some i)
           | Some u \<Rightarrow> (objs g)(t \<mapsto> Some i, u := None))"
proof (cases "map_of (threads g) (Some i)")
  case None
  then have "CreateThread i t g = Inr (t, g\<lparr>objs := (objs g)(t \<mapsto> Some i), last_id := Some i,
      threads := AList.update (Some i) t (threads g)\<rparr>)"
    by (simp add: CreateThread_def)
  then show ?thesis by (rule that) (simp_all add: None)
next
  case (Some u)
  from group_ok_map_of [OF assms(1) this] assms(2)
  have "objs g u = Some None" and "u \<noteq> t" by (auto simp: fresh_thread_def)
  with Some have "CreateThread i t g = Inr (t, g\<lparr>objs := (objs g)(t \<mapsto> Some i, u := None),
      last_id := Some i, threads := AList.update (Some i) t (threads g)\<rparr>)"
    by (simp add: CreateThread_def destroy_def get_id_def)
  then show ?thesis by (rule that) (simp_all add: Some)
qed

text \<open>Updating a map by a value it does not hold keeps its values distinct.\<close>

lemma update_entries:
  assumes "distinct (map fst xs)"
  shows "set (AList.update k v xs) = {p \<in> set xs. fst p \<noteq> k} \<union> {(k, v)}"
  using assms
proof (induction xs)
  case Nil
  show ?case by simp
next
  case (Cons p xs)
  then have d: "fst p \<notin> fst ` set xs" by simp
  show ?case
  proof (cases "fst p = k")
    case True
    with d have "\<forall>q \<in> set xs. fst q \<noteq> k" by (metis image_eqI)
    with True show ?thesis by (cases p) auto
  next
    case False
    with Cons show ?thesis by (cases p) auto
  qed
qed

lemma update_values_distinct:
  assumes "distinct (map fst xs)" and "distinct (map snd xs)" and "v \<notin> snd ` set xs"
  shows "distinct (map snd (AList.update k v xs))"
  using assms
proof (induction xs)
  case Nil
  show ?case by simp
next
  case (Cons p xs)
  then have d: "distinct (map fst xs)" by simp
  have "snd ` set (AList.update k v xs) \<subseteq> insert v (snd ` set xs)"
    by (auto simp: update_entries [OF d])
  with Cons show ?case by (cases p) auto
qed

lemma same_value:
  "distinct (map snd xs) \<Longrightarrow> (j, v) \<in> set xs \<Longrightarrow> (k, v) \<in> set xs \<Longrightarrow> j = k"
  by (induction xs) force+

lemma CreateThread_keeps_ok:
  assumes ok: "group_ok g" and fresh: "fresh_thread i t g" and c: "CreateThread i t g = Inr (t, g')"
  shows "group_ok g'"
proof -
  have keys: "distinct (map fst (threads g))" using ok by (rule group_ok_keys)
  have vals: "t \<notin> snd ` set (threads g)"
    using group_ok_entry [OF ok] fresh by (fastforce simp: fresh_thread_def)
  obtain th: "threads g' = AList.update (Some i) t (threads g)"
    and ob: "objs g' = (case map_of (threads g) (Some i) of None \<Rightarrow> (objs g)(t \<mapsto> Some i)
           | Some u \<Rightarrow> (objs g)(t \<mapsto> Some i, u := None))"
    using CreateThread_cases [OF ok fresh] c by (metis Inr_inject prod.inject)
  have entry: "j \<noteq> None \<and> objs g' u \<in> {Some j, Some None}" if "(j, u) \<in> set (threads g')" for j u
  proof -
    have "(j \<noteq> Some i \<and> (j, u) \<in> set (threads g)) \<or> (j = Some i \<and> u = t)"
      using that by (auto simp: th update_entries [OF keys])
    then show ?thesis
    proof
      assume "j = Some i \<and> u = t"
      moreover have "map_of (threads g) (Some i) \<noteq> Some t"
        using vals by (force dest: map_of_SomeD)
      ultimately show ?thesis by (auto simp: ob split: option.splits)
    next
      assume old: "j \<noteq> Some i \<and> (j, u) \<in> set (threads g)"
      have "map_of (threads g) (Some i) \<noteq> Some u"
        using same_value [OF group_ok_objs [OF ok]] old map_of_SomeD by metis
      moreover have "u \<noteq> t" using old vals by force
      ultimately show ?thesis
        using group_ok_entry [OF ok, of j u] old by (auto simp: ob split: option.splits)
    qed
  qed
  have old: "(u = t \<and> j = i) \<or> (j \<noteq> i \<and> objs g u = Some (Some j))"
    if "objs g' u = Some (Some j)" for u j
    using that fresh by (auto simp: fresh_thread_def ob split: option.splits if_splits)
  have "\<forall>u v j. objs g' u = Some (Some j) \<and> objs g' v = Some (Some j) \<longrightarrow> u = v"
    using old ok unfolding group_ok_def by metis
  moreover have "\<forall>(j, u) \<in> set (threads g'). j \<noteq> None \<and> objs g' u \<in> {Some j, Some None}"
    using entry by blast
  moreover have "distinct (map snd (threads g'))"
    unfolding th by (rule update_values_distinct [OF keys group_ok_objs [OF ok] vals])
  moreover have "distinct (map fst (threads g'))"
    unfolding th using keys by (simp add: distinct_update)
  ultimately show ?thesis by (simp add: group_ok_def)
qed

lemma JoinAll_outside:
  assumes "group_ok g" and out: "\<not> IsSelfThreadIn self g"
  shows "\<exists>g'. JoinAll self g = Inr g' \<and> Size g' = 0 \<and> group_ok g' \<and> JoinAll self g' = Inr g' \<and>
    (\<forall>(i, t) \<in> set (threads g). objs g' t = None) \<and>
    (\<forall>t. t \<notin> snd ` set (threads g) \<longrightarrow> objs g' t = objs g t)"
proof (intro exI conjI)
  let ?g = "g\<lparr>objs := (objs g) |` (- snd ` set (threads g)), threads := []\<rparr>"
  show "JoinAll self g = Inr ?g" using out by (rule JoinAll_ok)
  show "Size ?g = 0" by (simp add: Size_def)
  show "group_ok ?g" using assms by (auto simp: group_ok_def restrict_map_def)
  have "\<not> IsSelfThreadIn self ?g" using out by (simp add: IsSelfThreadIn_def)
  from JoinAll_ok [OF this] show "JoinAll self ?g = Inr ?g" by simp
  show "\<forall>(i, t) \<in> set (threads g). objs ?g t = None" by (force simp: restrict_map_def)
  show "\<forall>t. t \<notin> snd ` set (threads g) \<longrightarrow> objs ?g t = objs g t" by simp
qed

lemma JoinAll_inside:
  "self = last_id g \<or> self \<in> fst ` set (threads g) \<Longrightarrow> JoinAll self g = Inl RuntimeError"
  by (auto simp: JoinAll_def IsSelfThreadIn_def map_of_eq_None_iff)

lemma RemoveThread_ok:
  assumes ok: "group_ok g" and member: "(i, t) \<in> set (threads g)"
  shows "RemoveThread t g = (if get_id t g = None then Inr g else Inl Terminate)"
proof -
  from group_ok_entry [OF ok member] have i: "i \<noteq> None" "objs g t \<in> {Some i, Some None}" by auto
  show ?thesis
  proof (cases "get_id t g = None")
    case True
    have "map_of (threads g) None = None"
      using group_ok_map_of [OF ok] by (cases "map_of (threads g) None") auto
    with True show ?thesis by (simp add: RemoveThread_def)
  next
    case False
    with i have id: "get_id t g = i" by (auto simp: get_id_def)
    with member have "map_of (threads g) (get_id t g) = Some t"
      by (simp add: group_ok_keys [OF ok])
    with False show ?thesis by (simp add: RemoveThread_def destroy_def get_id_def)
  qed
qed

section \<open>Properties\<close>

text \<open>
  Property C35. called by a thread outside the group, \<open>JoinAll\<close> never throws and never ends the
  program: every thread of the group is joined and released, the group is empty, no other
  thread is touched, and a second call has nothing to do. Called by the last thread the group
  created, or by any thread of the group, it throws and changes nothing.
\<close>

theorem JoinAll_correct:
  assumes "group_ok g"
  shows "(\<not> IsSelfThreadIn self g \<longrightarrow>
           (\<exists>g'. JoinAll self g = Inr g' \<and> Size g' = 0 \<and> group_ok g' \<and> JoinAll self g' = Inr g' \<and>
             (\<forall>(i, t) \<in> set (threads g). objs g' t = None) \<and>
             (\<forall>t. t \<notin> snd ` set (threads g) \<longrightarrow> objs g' t = objs g t))) \<and>
         (self = last_id g \<or> self \<in> fst ` set (threads g) \<longrightarrow> JoinAll self g = Inl RuntimeError)"
  using JoinAll_outside [OF assms] JoinAll_inside [of self g] by blast

text \<open>
  \<open>CreateThread\<close> returns the new thread with the group well formed: the thread and
  its identifier are members, the thread itself cannot join the group, and every thread that
  was running is still there. (Only a thread that its owner has joined can be displaced, when
  the system reuses its identifier.)
\<close>

theorem CreateThread_adds_member:
  assumes "group_ok g" and "fresh_thread i t g"
  shows "\<exists>g'. CreateThread i t g = Inr (t, g') \<and> group_ok g' \<and> objs g' t = Some (Some i) \<and>
    IsThreadIn t g' \<and> IsSelfThreadIn (Some i) g' \<and> JoinAll (Some i) g' = Inl RuntimeError \<and>
    (\<forall>(j, u) \<in> set (threads g). get_id u g \<noteq> None \<longrightarrow>
       (j, u) \<in> set (threads g') \<and> get_id u g' = j)"
proof -
  obtain g' where c: "CreateThread i t g = Inr (t, g')" and last: "last_id g' = Some i"
    and th: "threads g' = AList.update (Some i) t (threads g)"
    and ob: "objs g' = (case map_of (threads g) (Some i) of None \<Rightarrow> (objs g)(t \<mapsto> Some i)
           | Some u \<Rightarrow> (objs g)(t \<mapsto> Some i, u := None))"
    using CreateThread_cases [OF assms] .
  have ok: "group_ok g'" using CreateThread_keeps_ok [OF assms c] .
  have new: "(Some i, t) \<in> set (threads g')"
    by (simp add: th update_entries [OF group_ok_keys [OF assms(1)]])
  have t: "objs g' t = Some (Some i)"
    using group_ok_map_of [OF assms(1), of "Some i"] assms(2)
    by (auto simp: ob fresh_thread_def split: option.splits)
  have kept: "(j, u) \<in> set (threads g') \<and> get_id u g' = j"
    if "(j, u) \<in> set (threads g)" "get_id u g \<noteq> None" for j u
  proof -
    from group_ok_entry [OF assms(1) that(1)] that(2) have u: "objs g u = Some j" "j \<noteq> None"
      by (auto simp: get_id_def)
    with assms(2) have "j \<noteq> Some i" "u \<noteq> t" by (auto simp: fresh_thread_def)
    moreover have "map_of (threads g) (Some i) \<noteq> Some u"
      using group_ok_map_of [OF assms(1), of "Some i" u] u \<open>j \<noteq> Some i\<close> by auto
    ultimately show ?thesis
      using that(1) u
      by (auto simp: th update_entries [OF group_ok_keys [OF assms(1)]] ob get_id_def
               split: option.splits)
  qed
  show ?thesis
    using c ok t last kept
    by (auto simp: IsThreadIn_def IsSelfThreadIn_def JoinAll_def get_id_def)
qed

text \<open>
  \<open>RemoveThread\<close> never removes a member. A member that still runs is destroyed
  while joinable, which ends the program; a member that its owner has joined has lost its
  identifier, is not found, and the group keeps it.
\<close>

theorem RemoveThread_never_removes:
  assumes "group_ok g" and "(i, t) \<in> set (threads g)"
  shows "RemoveThread t g = (if get_id t g = None then Inr g else Inl Terminate)"
  using assms by (rule RemoveThread_ok)

text \<open>A group of two threads, the first of which its owner has joined.\<close>

definition two_threads :: thread_group where
  "two_threads = \<lparr>objs = [10 \<mapsto> None, 11 \<mapsto> Some 2], threads = [(Some 1, 10), (Some 2, 11)],
                  last_id = Some 2\<rparr>"

lemma two_threads_ok: "group_ok two_threads"
  by (auto simp: group_ok_def two_threads_def split: if_splits)

theorem JoinAll_correct_witness:
  "(\<exists>g'. JoinAll None two_threads = Inr g' \<and> objs g' 11 = None) \<and>
   JoinAll (Some 2) two_threads = Inl RuntimeError"
  using JoinAll_correct [OF two_threads_ok, of None]
    JoinAll_correct [OF two_threads_ok, of "Some 2"]
  by (auto simp: IsSelfThreadIn_def two_threads_def)

theorem CreateThread_adds_member_witness:
  "\<exists>g'. CreateThread 1 12 two_threads = Inr (12, g') \<and> IsThreadIn 12 g' \<and> get_id 11 g' = Some 2"
proof -
  have "fresh_thread 1 12 two_threads" by (simp add: fresh_thread_def two_threads_def)
  from CreateThread_adds_member [OF two_threads_ok this] show ?thesis
    by (auto simp: two_threads_def get_id_def)
qed

theorem RemoveThread_never_removes_witness:
  "RemoveThread 11 two_threads = Inl Terminate \<and> RemoveThread 10 two_threads = Inr two_threads"
proof -
  have "(Some 2, 11) \<in> set (threads two_threads)" "(Some 1, 10) \<in> set (threads two_threads)"
    by (simp_all add: two_threads_def)
  from this [THEN RemoveThread_never_removes [OF two_threads_ok]] show ?thesis
    by (simp add: get_id_def two_threads_def)
qed

end
