(* ===== verification/Task.thy ===== *)
theory Task
  imports Prelude
begin

text \<open>
  \<^verbatim>\<open>thread/task.h\<close>: the cancelable task. \<open>TaskCancelableImpl\<close> owns its function through
  \<open>strong_task_\<close>, a shared pointer that \<open>Cancel\<close> drops, and reaches it through \<open>weak_task_\<close>; a
  call locks the weak pointer and so keeps the function alive while it runs, even when it is
  cancelled from inside. The reference count of the function is the strong pointer and the
  calls in progress; the weak pointer can be locked as long as it is positive. The function is
  a parameter \<open>'f\<close>; \<open>None\<close> stands for an empty \<open>std::function\<close>.
\<close>

record 'f task =
  task_fn :: "'f option"
  strong_task :: bool
  calls :: nat

definition task_new :: "'f option \<Rightarrow> 'f task" where
  "task_new f = \<lparr>task_fn = f, strong_task = True, calls = 0\<rparr>"

definition task_cancel :: "'f task \<Rightarrow> 'f task" where
  "task_cancel t = t\<lparr>strong_task := False\<rparr>"

text \<open>\<open>operator bool\<close>: whether the task can still be cancelled.\<close>

definition task_bool :: "'f task \<Rightarrow> bool" where
  "task_bool t \<longleftrightarrow> strong_task t \<and> task_fn t \<noteq> None"

definition use_count :: "'f task \<Rightarrow> nat" where
  "use_count t = (if strong_task t then 1 else 0) + calls t"

text \<open>
  \<open>weak_task_.lock()\<close>, and the end of the scope of the pointer it returned. The first result is
  the function, when the lock succeeded and it is not empty.
\<close>

definition task_lock :: "'f task \<Rightarrow> 'f option \<times> 'f task" where
  "task_lock t =
     (if use_count t = 0 then (None, t) else (task_fn t, t\<lparr>calls := calls t + 1\<rparr>))"

definition task_unlock :: "'f task \<Rightarrow> 'f task" where
  "task_unlock t = t\<lparr>calls := calls t - 1\<rparr>"

text \<open>
  \<open>operator()\<close> on the task named \<open>i\<close> of a state \<open>w\<close> that holds the tasks: \<open>get\<close> and \<open>put\<close> reach
  it, \<open>body\<close> runs a function, may fail to return (\<open>None\<close>), throw (\<open>Inl\<close>) or return (\<open>Inr\<close>), and may
  change \<open>w\<close> in any way, this very task included. The default value is returned when the
  function is gone. The local pointer is released on a return and on a throw.
\<close>

definition task_call ::
  "('w \<Rightarrow> nat \<Rightarrow> 'f task) \<Rightarrow> (nat \<Rightarrow> 'f task \<Rightarrow> 'w \<Rightarrow> 'w) \<Rightarrow>
   (nat \<Rightarrow> 'f \<Rightarrow> 'w \<Rightarrow> (('x + 'r) \<times> 'w) option) \<Rightarrow> 'r \<Rightarrow> nat \<Rightarrow> 'w \<Rightarrow> (('x + 'r) \<times> 'w) option" where
  "task_call get put body default_return i w =
     (case task_lock (get w i) of
        (Some f, t) \<Rightarrow>
          body i f (put i t w) \<bind> (\<lambda>(r, w'). Some (r, put i (task_unlock (get w' i)) w'))
      | (None, t) \<Rightarrow> Some (Inr default_return, w))"

section \<open>Laws\<close>

lemma task_cancel_simps [simp]:
  "task_fn (task_cancel t) = task_fn t" "strong_task (task_cancel t) = False"
  "calls (task_cancel t) = calls t"
  by (simp_all add: task_cancel_def)

lemma task_unlock_lock: "task_unlock (t\<lparr>calls := calls t + 1\<rparr>) = t"
  unfolding task_unlock_def by (rule task.equality) simp_all

lemma task_lock_gone: "\<not> strong_task t \<Longrightarrow> calls t = 0 \<Longrightarrow> task_lock t = (None, t)"
  by (simp add: task_lock_def use_count_def)

lemma task_lock_strong: "strong_task t \<Longrightarrow> task_lock t = (task_fn t, t\<lparr>calls := calls t + 1\<rparr>)"
  by (simp add: task_lock_def use_count_def)

lemma task_call_gone:
  "\<not> strong_task (get w i) \<Longrightarrow> calls (get w i) = 0 \<Longrightarrow>
   task_call get put body d i w = Some (Inr d, w)"
  by (simp add: task_call_def task_lock_gone)

end
