(* ===== verification/TaskExecutor.thy ===== *)
theory TaskExecutor
  imports Prelude
begin

text \<open>
  The interface \<open>TaskExecutor\<close> of \<^verbatim>\<open>thread/task_executor.h\<close>: what its two functions promise to a client,
  over any executor, and the order in which the tasks of a series of calls wait. \<open>EventPoller\<close>
  implements it (\<^theory_text>\<open>PollerSafety\<close>).
\<close>

text \<open>A call of the interface: of \<open>AsyncFirst\<close> when the flag is set, of \<open>Async\<close> otherwise.\<close>

definition queue_by ::
  "('f \<Rightarrow> 'w \<Rightarrow> ('i \<times> 'w) option) \<Rightarrow> ('f \<Rightarrow> 'w \<Rightarrow> ('i \<times> 'w) option) \<Rightarrow> bool \<times> 'f \<Rightarrow> 'w \<Rightarrow> 'w option" where
  "queue_by later first c w = (if fst c then first (snd c) w else later (snd c) w) \<bind> (\<lambda>(i, w'). Some w')"

text \<open>The order in which the tasks of a series of calls run.\<close>

definition run_order :: "(bool \<times> 'e) list \<Rightarrow> 'e list" where
  "run_order cs = map snd (rev (filter fst cs)) @ map snd (filter (\<lambda>c. \<not> fst c) cs)"

lemma run_order_map: "run_order (map (apsnd g) cs) = map g (run_order cs)"
  by (simp add: run_order_def rev_map filter_map comp_def)

text \<open>
  \<open>waits w fs\<close>: in the state \<open>w\<close> the tasks \<open>fs\<close> wait, the next to run first. Both functions return a
  handle of the task; the one puts the task behind all that wait, the other before them.
\<close>

locale task_executor =
  fixes later first :: "'f \<Rightarrow> 'w \<Rightarrow> ('i \<times> 'w) option"
    and waits :: "'w \<Rightarrow> 'f list \<Rightarrow> bool"
  assumes later_last: "waits w fs \<Longrightarrow> \<exists>i w'. later f w = Some (i, w') \<and> waits w' (fs @ [f])"
    and first_first: "waits w fs \<Longrightarrow> \<exists>i w'. first f w = Some (i, w') \<and> waits w' (f # fs)"
begin

lemma call_waits:
  assumes "waits w fs"
  obtains w' where "queue_by later first c w = Some w'"
    and "waits w' (if fst c then snd c # fs else fs @ [snd c])"
  using later_last [OF assms, of "snd c"] first_first [OF assms, of "snd c"] that
  by (cases "fst c") (fastforce simp: queue_by_def)+

lemma calls_wait:
  assumes "waits w fs"
  shows "\<exists>w'. iter_opt (queue_by later first) cs w = Some w' \<and>
    waits w' (map snd (rev (filter fst cs)) @ fs @ map snd (filter (\<lambda>c. \<not> fst c) cs))"
  using assms
proof (induction cs arbitrary: w fs)
  case (Cons c cs)
  obtain w1 where w1: "queue_by later first c w = Some w1"
    "waits w1 (if fst c then snd c # fs else fs @ [snd c])"
    using Cons.prems by (rule call_waits)
  from Cons.IH [OF w1(2)] w1(1) show ?case by (cases "fst c") auto
qed simp

text \<open>From an executor in which nothing waits.\<close>

lemma calls_in_order:
  "waits w [] \<Longrightarrow> \<exists>w'. iter_opt (queue_by later first) cs w = Some w' \<and> waits w' (run_order cs)"
  using calls_wait [of w "[]" cs] by (simp add: run_order_def)

end

end
