(* ===== verification/Epoll.thy ===== *)
theory Epoll
  imports Prelude
begin

text \<open>
  The two event masks of \<^verbatim>\<open>poller/event_poller.cpp\<close>: \<open>PollEvent\<close>, what the users of the poller
  ask for and receive, and the mask of \<open>epoll\<close> (its bits are those of \<^verbatim>\<open>sys/epoll.h\<close>), with the
  macros \<open>TO_EPOLL\<close> and \<open>TO_POLLER\<close>; and the conversion of a delay to the timeout of
  \<open>epoll_wait\<close>.
\<close>

unbundle bit_operations_syntax

abbreviation PE_READ :: u32 where "PE_READ \<equiv> 1"
abbreviation PE_WRITE :: u32 where "PE_WRITE \<equiv> 2"
abbreviation PE_ERROR :: u32 where "PE_ERROR \<equiv> 4"
abbreviation PE_LT :: u32 where "PE_LT \<equiv> 8"

abbreviation EPOLLIN :: u32 where "EPOLLIN \<equiv> 1"
abbreviation EPOLLOUT :: u32 where "EPOLLOUT \<equiv> 4"
abbreviation EPOLLERR :: u32 where "EPOLLERR \<equiv> 8"
abbreviation EPOLLHUP :: u32 where "EPOLLHUP \<equiv> 16"
abbreviation EPOLLET :: u32 where "EPOLLET \<equiv> 2147483648"

definition has :: "u32 \<Rightarrow> u32 \<Rightarrow> bool" where
  "has w b \<longleftrightarrow> w AND b \<noteq> 0"

definition TO_EPOLL :: "u32 \<Rightarrow> u32" where
  "TO_EPOLL event =
     (if has event PE_READ then EPOLLIN else 0) OR
     (if has event PE_WRITE then EPOLLOUT else 0) OR
     (if has event PE_ERROR then EPOLLHUP OR EPOLLERR else 0) OR
     (if has event PE_LT then 0 else EPOLLET)"

definition TO_POLLER :: "u32 \<Rightarrow> u32" where
  "TO_POLLER epoll_event =
     (if has epoll_event EPOLLIN then PE_READ else 0) OR
     (if has epoll_event EPOLLOUT then PE_WRITE else 0) OR
     (if has epoll_event EPOLLHUP then PE_ERROR else 0) OR
     (if has epoll_event EPOLLERR then PE_ERROR else 0)"

text \<open>
  \<^verbatim>\<open>delay_ms ? delay_ms : -1\<close> has the type \<open>uint64_t\<close>; \<open>epoll_wait\<close> takes an \<open>int\<close>.
\<close>

definition wait_timeout :: "u64 \<Rightarrow> int" where
  "wait_timeout delay_ms = int32 (uint (if delay_ms \<noteq> 0 then delay_ms else - 1))"

section \<open>Properties\<close>

lemma and_bit: "w AND 2 ^ n = (if bit w n then 2 ^ n else 0)" for w :: u32
  by (rule bit_word_eqI) (auto simp: bit_simps)

lemma has_cases: "w AND 1 = (if has w 1 then 1 else 0)" "w AND 2 = (if has w 2 then 2 else 0)"
  "w AND 4 = (if has w 4 then 4 else 0)" "w AND 8 = (if has w 8 then 8 else 0)"
  using and_bit [of w 0] and_bit [of w 1] and_bit [of w 2] and_bit [of w 3]
  by (auto simp: has_def)

lemma and_7: "w AND 7 = (w AND 1) OR (w AND 2) OR (w AND 4)" for w :: u32
proof -
  have "(7 :: u32) = 1 OR 2 OR 4" by simp
  then show ?thesis by (simp only: bit.conj_disj_distrib)
qed

text \<open>
  Property C38. What a user of the poller asks for is what it is told: translating a request to an
  \<open>epoll\<close> mask and that mask back keeps exactly the read, write and error bits; the mask is
  edge-triggered exactly when \<open>PE_LT\<close> is not asked for, and has no other bit.
\<close>

theorem poll_masks_roundtrip:
  "TO_POLLER (TO_EPOLL e) = e AND 7 \<and>
   (has (TO_EPOLL e) EPOLLET \<longleftrightarrow> \<not> has e PE_LT) \<and>
   TO_EPOLL e AND NOT (EPOLLIN OR EPOLLOUT OR EPOLLERR OR EPOLLHUP OR EPOLLET) = 0"
  by (cases "has e 1"; cases "has e 2"; cases "has e 4"; cases "has e 8")
    (simp_all add: TO_EPOLL_def TO_POLLER_def and_7 has_cases, simp_all add: has_def)

text \<open>
  The timeout of \<open>epoll_wait\<close> is the delay to the next task, and -1 (no timeout)
  exactly when there is none, for delays under \<open>2 ^ 31\<close> milliseconds. A longer delay does not
  survive the conversion: from \<open>2 ^ 31\<close> up to \<open>2 ^ 32\<close> it becomes negative, so the wait never times
  out, and a multiple of \<open>2 ^ 32\<close> becomes 0, so the loop spins.
\<close>

theorem wait_timeout_range:
  "wait_timeout d =
     (if d = 0 then -1
      else if uint d < 2 ^ 31 then uint d
      else if uint d < 2 ^ 32 then uint d - 2 ^ 32
      else if uint d mod 2 ^ 32 = 0 then 0
      else int32 (uint d))"
proof -
  have full: "uint (- 1 :: u64) = 2 ^ 64 - 1" by (simp add: uint_word_ariths)
  have m1: "int32 (2 ^ 64 - 1) = -1" by (simp add: int32_def signed_take_bit_eq_take_bit_shift take_bit_eq_mod)
  have wrap: "int32 x = x - 2 ^ 32" if "2 ^ 31 \<le> x" "x < 2 ^ 32" for x
  proof -
    have "(x + 2 ^ 31) mod 2 ^ 32 = x - 2 ^ 31"
      using mod_add_self2 [of "x - 2 ^ 31" "2 ^ 32"] that by (simp add: add.commute)
    then show ?thesis by (simp add: int32_def signed_take_bit_eq_take_bit_shift take_bit_eq_mod)
  qed
  have mult: "int32 x = 0" if "x mod 2 ^ 32 = 0" for x
    using that by (simp add: int32_def signed_take_bit_eq_take_bit_shift take_bit_eq_mod mod_add_left_eq [symmetric])
  have small: "int32 (uint d) = uint d" if "uint d < 2 ^ 31"
    using that by (intro int32_id) (auto intro: order.trans [of _ 0])
  show ?thesis
    using full m1 wrap [of "uint d"] mult [of "uint d"] small
    by (auto simp: wait_timeout_def not_less)
qed

end
