(* ===== verification/Poller.thy ===== *)
theory Poller
  imports Epoll Task UvError
begin

text \<open>
  \<^verbatim>\<open>poller/event_poller.cpp\<close> and \<^verbatim>\<open>poller/pipe_wrapper.cpp\<close>: the state of the event poller and
  the operations its users call. The loop that runs what they queue is in theory PollerLoop.

  The functions a user hands over (tasks, delay tasks, event callbacks) are trees of the calls they
  make on the poller: \<open>'e prog\<close>. A call is a constructor with a continuation for its result, so
  a user function can do anything it can do through the public interface of the class, in any
  order, depending on every result, on input from outside, and end in a return or an
  exception. What is not on the poller is a visible effect \<open>'e\<close> in the trace.

  The system calls are the fields of a parameter, over a state \<open>'k\<close> of the kernel.
\<close>

section \<open>The kernel's interface\<close>

datatype ctl_op = CTL_ADD | CTL_DEL | CTL_MOD

text \<open>
  \<open>write\<close> of one byte to the pipe and \<open>read\<close> of up to \<open>n\<close> bytes from it (the result and the
  \<open>errno\<close> it sets when it fails), \<open>epoll_ctl\<close>, \<open>epoll_wait\<close> with a timeout and a maximum (its result
  and the array of events it fills, of which the first as many as the result count), the clock, and the input a user function reads together
  with the \<open>errno\<close> the user's own code leaves behind.
\<close>

record 'k kernel =
  sys_write :: "'k \<Rightarrow> (int \<times> errno) \<times> 'k"
  sys_read :: "nat \<Rightarrow> 'k \<Rightarrow> (int \<times> errno) \<times> 'k"
  sys_ctl :: "ctl_op \<Rightarrow> int \<Rightarrow> u32 \<Rightarrow> 'k \<Rightarrow> (int \<times> errno) \<times> 'k"
  sys_wait :: "int \<Rightarrow> nat \<Rightarrow> 'k \<Rightarrow> ((int \<times> errno) \<times> (int \<times> u32) list) \<times> 'k"
  sys_now :: "'k \<Rightarrow> u64 \<times> 'k"
  sys_input :: "'k \<Rightarrow> (nat \<times> errno) \<times> 'k"

section \<open>The functions of the users\<close>

datatype 'e prog =
    Return u64
  | Throw
  | ThrowOther
  | Emit 'e "'e prog"
  | Input "nat \<Rightarrow> 'e prog"
  | CallAsync "'e prog option" bool "nat \<Rightarrow> 'e prog"
  | CallDelay u64 "'e prog option" "nat \<Rightarrow> 'e prog"
  | CallCancel nat "'e prog"
  | CallAdd int u32 "(u32 \<Rightarrow> 'e prog) option" "int \<Rightarrow> 'e prog"
  | CallDel int "bool option \<Rightarrow> 'e prog"
  | CallModify int u32 "int \<Rightarrow> 'e prog"
  | CallShutdown "'e prog"

text \<open>
  What a task of \<open>task_list_\<close> or \<open>delay_tasks_\<close> holds: a user's function, the lambda of
  \<open>DoDelayTask\<close> or the lambda of \<open>Shutdown\<close>.
\<close>

datatype 'e closure = User "'e prog" | EmplaceDelay u64 nat | ThrowExit

text \<open>
  The exceptions: \<open>ExitException\<close>, which derives from \<open>std::exception\<close>, another \<open>std::exception\<close>,
  or anything else.
\<close>

datatype exc = ExitException | StdException | OtherException

datatype 'e event_cb = PipeCB | UserCB "u32 \<Rightarrow> 'e prog"

section \<open>The state\<close>

text \<open>
  \<open>tasks\<close> is the store of the task objects, named in the order they were made; \<open>started\<close> and
  \<open>trace\<close> record what ran: the tasks whose function was called, and the effects.
\<close>

record ('e, 'k) poller =
  task_list :: "nat list"
  delay_tasks :: "(u64 \<times> nat) list"
  event_map :: "int \<Rightarrow> 'e event_cb option"
  exit_flag :: bool
  tasks :: "nat \<Rightarrow> 'e closure task"
  next_task :: nat
  cerrno :: errno
  kern :: 'k
  started :: "nat list"
  trace :: "'e list"

type_synonym ('e, 'k, 'r) outcome = "((exc + 'r) \<times> ('e, 'k) poller) option"

definition put_task :: "nat \<Rightarrow> 'e closure task \<Rightarrow> ('e, 'k) poller \<Rightarrow> ('e, 'k) poller" where
  "put_task i t w = w\<lparr>tasks := (tasks w)(i := t)\<rparr>"

text \<open>A system call: a failure writes \<open>errno\<close>, a success leaves it alone.\<close>

definition sys :: "('k \<Rightarrow> (int \<times> errno) \<times> 'k) \<Rightarrow> ('e, 'k) poller \<Rightarrow> int \<times> ('e, 'k) poller" where
  "sys call w =
     (case call (kern w) of ((r, e), k) \<Rightarrow>
        (r, w\<lparr>kern := k, cerrno := (if r = -1 then e else cerrno w)\<rparr>))"

definition get_now :: "'k kernel \<Rightarrow> ('e, 'k) poller \<Rightarrow> u64 \<times> ('e, 'k) poller" where
  "get_now K w = (case sys_now K (kern w) of (t, k) \<Rightarrow> (t, w\<lparr>kern := k\<rparr>))"

section \<open>The pipe\<close>

definition pipe_Write :: "'k kernel \<Rightarrow> ('e, 'k) poller \<Rightarrow> (int \<times> ('e, 'k) poller) option" where
  "pipe_Write K w = retry_eintr (sys (sys_write K)) cerrno w"

definition pipe_Read :: "'k kernel \<Rightarrow> nat \<Rightarrow> ('e, 'k) poller \<Rightarrow> (int \<times> ('e, 'k) poller) option" where
  "pipe_Read K n w = retry_eintr (sys (sys_read K n)) cerrno w"

section \<open>Operations\<close>

definition make_task ::
  "'e closure option \<Rightarrow> ('e, 'k) poller \<Rightarrow> nat \<times> ('e, 'k) poller" where
  "make_task f w = (next_task w, put_task (next_task w) (task_new f) (w\<lparr>next_task := next_task w + 1\<rparr>))"

text \<open>\<open>async(task, first)\<close>: the result of the write is not looked at.\<close>

definition async ::
  "'k kernel \<Rightarrow> 'e closure option \<Rightarrow> bool \<Rightarrow> ('e, 'k) poller \<Rightarrow> (nat \<times> ('e, 'k) poller) option" where
  "async K f first w =
     (let (i, w1) = make_task f w;
          w2 = w1\<lparr>task_list := (if first then i # task_list w1 else task_list w1 @ [i])\<rparr>
      in pipe_Write K w2 \<bind> (\<lambda>(_, w3). Some (i, w3)))"

definition Async where "Async K f w = async K f False w"

definition AsyncFirst where "AsyncFirst K f w = async K f True w"

definition Shutdown :: "'k kernel \<Rightarrow> ('e, 'k) poller \<Rightarrow> (('e, 'k) poller) option" where
  "Shutdown K w = async K (Some ThrowExit) True w \<bind> (\<lambda>(_, w'). Some w')"

definition IsClose :: "('e, 'k) poller \<Rightarrow> bool" where
  "IsClose w = exit_flag w"

definition DoDelayTask ::
  "'k kernel \<Rightarrow> u64 \<Rightarrow> 'e prog option \<Rightarrow> ('e, 'k) poller \<Rightarrow> (nat \<times> ('e, 'k) poller) option" where
  "DoDelayTask K delay_ms f w =
     (let (ret, w1) = make_task (map_option User f) w;
          (now, w2) = get_now K w1;
          timeline = delay_ms + now
      in AsyncFirst K (Some (EmplaceDelay timeline ret)) w2 \<bind> (\<lambda>(_, w3). Some (ret, w3)))"

text \<open>\<open>event_map_.emplace\<close> leaves an entry that is already there as it is.\<close>

definition AddEvent ::
  "'k kernel \<Rightarrow> int \<Rightarrow> u32 \<Rightarrow> 'e event_cb option \<Rightarrow> ('e, 'k) poller \<Rightarrow> int \<times> ('e, 'k) poller" where
  "AddEvent K fd event cb w =
     (case cb of
        None \<Rightarrow> (-1, w)
      | Some c \<Rightarrow>
          (let (ret, w1) = sys (sys_ctl K CTL_ADD fd (TO_EPOLL event)) w
           in if ret = 0
              then (ret, if event_map w1 fd = None
                         then w1\<lparr>event_map := (event_map w1)(fd \<mapsto> c)\<rparr> else w1)
              else (ret, w1)))"

text \<open>
  \<open>DelEvent\<close>: whether the callback is called, and with what, is the second result; it runs
  right before the return, so it is the beginning of what the caller does next.
\<close>

definition DelEvent ::
  "'k kernel \<Rightarrow> int \<Rightarrow> ('e, 'k) poller \<Rightarrow> (int \<times> bool option) \<times> ('e, 'k) poller" where
  "DelEvent K fd w =
     (if event_map w fd \<noteq> None
      then (let (r, w1) = sys (sys_ctl K CTL_DEL fd 0) w;
                success = (r = 0);
                w2 = (if success then w1\<lparr>event_map := (event_map w1)(fd := None)\<rparr> else w1)
            in ((if success then 0 else -1, Some success), w2))
      else ((0, None), w))"

definition ModifyEvent ::
  "'k kernel \<Rightarrow> int \<Rightarrow> u32 \<Rightarrow> ('e, 'k) poller \<Rightarrow> int \<times> ('e, 'k) poller" where
  "ModifyEvent K fd event w = sys (sys_ctl K CTL_MOD fd (TO_EPOLL event)) w"

section \<open>Running a user's function\<close>

primrec run_prog :: "'k kernel \<Rightarrow> 'e prog \<Rightarrow> ('e, 'k) poller \<Rightarrow> ('e, 'k, u64) outcome" where
  "run_prog K (Return v) w = Some (Inr v, w)"
| "run_prog K Throw w = Some (Inl StdException, w)"
| "run_prog K ThrowOther w = Some (Inl OtherException, w)"
| "run_prog K (Emit e p) w = run_prog K p (w\<lparr>trace := trace w @ [e]\<rparr>)"
| "run_prog K (Input p) w =
     (case sys_input K (kern w) of ((n, e), k) \<Rightarrow> run_prog K (p n) (w\<lparr>kern := k, cerrno := e\<rparr>))"
| "run_prog K (CallAsync f first p) w =
     async K (map_option User f) first w \<bind> (\<lambda>(i, w'). run_prog K (p i) w')"
| "run_prog K (CallDelay d f p) w = DoDelayTask K d f w \<bind> (\<lambda>(i, w'). run_prog K (p i) w')"
| "run_prog K (CallCancel i p) w = run_prog K p (put_task i (task_cancel (tasks w i)) w)"
| "run_prog K (CallAdd fd ev cb p) w =
     (case AddEvent K fd ev (map_option UserCB cb) w of (r, w') \<Rightarrow> run_prog K (p r) w')"
| "run_prog K (CallDel fd p) w = (case DelEvent K fd w of ((r, s), w') \<Rightarrow> run_prog K (p s) w')"
| "run_prog K (CallModify fd ev p) w =
     (case ModifyEvent K fd ev w of (r, w') \<Rightarrow> run_prog K (p r) w')"
| "run_prog K (CallShutdown p) w = Shutdown K w \<bind> run_prog K p"

text \<open>\<open>std::multimap::emplace\<close>: behind the entries with a key that is not greater.\<close>

fun mm_emplace :: "u64 \<Rightarrow> nat \<Rightarrow> (u64 \<times> nat) list \<Rightarrow> (u64 \<times> nat) list" where
  "mm_emplace k i [] = [(k, i)]"
| "mm_emplace k i ((k', j) # m) = (if k < k' then (k, i) # (k', j) # m else (k', j) # mm_emplace k i m)"

definition run_closure :: "'k kernel \<Rightarrow> 'e closure \<Rightarrow> ('e, 'k) poller \<Rightarrow> ('e, 'k, u64) outcome" where
  "run_closure K c w =
     (case c of
        User p \<Rightarrow> run_prog K p w
      | EmplaceDelay timeline ret \<Rightarrow>
          Some (Inr 0, w\<lparr>delay_tasks := mm_emplace timeline ret (delay_tasks w)\<rparr>)
      | ThrowExit \<Rightarrow> Some (Inl ExitException, w))"

definition call_body ::
  "'k kernel \<Rightarrow> nat \<Rightarrow> 'e closure \<Rightarrow> ('e, 'k) poller \<Rightarrow> ('e, 'k, u64) outcome" where
  "call_body K i c w = run_closure K c (w\<lparr>started := started w @ [i]\<rparr>)"

text \<open>\<open>(*task)()\<close>.\<close>

definition call_task :: "'k kernel \<Rightarrow> nat \<Rightarrow> ('e, 'k) poller \<Rightarrow> ('e, 'k, u64) outcome" where
  "call_task K i w = task_call tasks put_task (call_body K) 0 i w"

end
