(* ===== verification/PollerLoop.thy ===== *)
theory PollerLoop
  imports Poller
begin

text \<open>
  The event loop of \<^verbatim>\<open>poller/event_poller.cpp\<close>: draining the pipe and running the queued tasks,
  the delay tasks, the dispatch of a batch of events, and \<open>RunLoop\<close>.
\<close>

section \<open>Queued tasks\<close>

text \<open>
  The loop of \<open>on_pipe_event\<close> that empties the pipe. \<open>continue\<close> in a \<open>do while\<close> goes to its
  condition, so \<open>errno\<close> is tested after every read, also after one that succeeded and left the
  \<open>errno\<close> of some earlier call.
\<close>

partial_function (option) drain :: "'k kernel \<Rightarrow> ('e, 'k) poller \<Rightarrow> ('e, 'k) poller option" where
  "drain K w =
     pipe_Read K 1024 w \<bind>
       (\<lambda>(_, w1). if get_uv_error (cerrno w1) \<noteq> EAGAIN then drain K w1 else Some w1)"

text \<open>
  \<open>swap_list.for_each\<close>: an \<open>ExitException\<close> sets the flag and the loop goes on, a \<open>std::exception\<close> is
  logged, anything else leaves the loop (and the remaining tasks are destroyed with the list).
\<close>

fun run_task_list ::
  "'k kernel \<Rightarrow> nat list \<Rightarrow> ('e, 'k) poller \<Rightarrow> ('e, 'k, unit) outcome" where
  "run_task_list K [] w = Some (Inr (), w)"
| "run_task_list K (i # is) w =
     call_task K i w \<bind>
       (\<lambda>(r, w1). case r of
          Inr _ \<Rightarrow> run_task_list K is w1
        | Inl ExitException \<Rightarrow> run_task_list K is (w1\<lparr>exit_flag := True\<rparr>)
        | Inl StdException \<Rightarrow> run_task_list K is w1
        | Inl OtherException \<Rightarrow> Some (Inl OtherException, w1))"

definition on_pipe_event :: "'k kernel \<Rightarrow> ('e, 'k) poller \<Rightarrow> ('e, 'k, unit) outcome" where
  "on_pipe_event K w =
     drain K w \<bind> (\<lambda>w1. run_task_list K (task_list w1) (w1\<lparr>task_list := []\<rparr>))"

section \<open>Delay tasks\<close>

text \<open>
  The loop of \<open>flush_delay_tasks\<close> over the local multimap: \<open>before\<close> are the entries in front of the
  iterator, \<open>rest\<close> those from it on. A task that asks to run again is put back under
  \<open>next_delay + now\<close>, which wraps at 64 bits: behind the current entry, or in front of it when
  its key is smaller. The loop may run forever when a wrapped key is due again.
\<close>

partial_function (option) flush_loop ::
  "'k kernel \<Rightarrow> u64 \<Rightarrow> (u64 \<times> nat) list \<Rightarrow> (u64 \<times> nat) list \<Rightarrow> ('e, 'k) poller \<Rightarrow>
   ('e, 'k, (u64 \<times> nat) list) outcome" where
  "flush_loop K now before rest w =
     (case rest of
        [] \<Rightarrow> Some (Inr before, w)
      | (k, i) # rs \<Rightarrow>
          if now < k then Some (Inr (before @ rest), w)
          else
            call_task K i w \<bind>
              (\<lambda>(r, w1). case r of
                 Inl OtherException \<Rightarrow> Some (Inl OtherException, w1)
               | Inl _ \<Rightarrow> flush_loop K now before rs w1
               | Inr next_delay \<Rightarrow>
                   if next_delay = 0 then flush_loop K now before rs w1
                   else if next_delay + now < k
                   then flush_loop K now (mm_emplace (next_delay + now) i before) rs w1
                   else flush_loop K now before (mm_emplace (next_delay + now) i rs) w1))"

text \<open>
  \<open>delay_tasks_\<close> is empty while the tasks run; what is in it at the end is swapped out and lost.
\<close>

definition flush_delay_tasks :: "'k kernel \<Rightarrow> u64 \<Rightarrow> ('e, 'k) poller \<Rightarrow> ('e, 'k, u64) outcome" where
  "flush_delay_tasks K now w =
     flush_loop K now [] (delay_tasks w) (w\<lparr>delay_tasks := []\<rparr>) \<bind>
       (\<lambda>(r, w1). case r of
          Inl x \<Rightarrow> Some (Inl x, w1)
        | Inr m \<Rightarrow>
            Some (Inr (case m of [] \<Rightarrow> 0 | (k, _) # _ \<Rightarrow> k - now), w1\<lparr>delay_tasks := m\<rparr>))"

definition get_min_delay_ms :: "'k kernel \<Rightarrow> ('e, 'k) poller \<Rightarrow> ('e, 'k, u64) outcome" where
  "get_min_delay_ms K w =
     (case delay_tasks w of
        [] \<Rightarrow> Some (Inr 0, w)
      | (k, _) # _ \<Rightarrow>
          (let (now, w1) = get_now K w
           in if now < k then Some (Inr (k - now), w1) else flush_delay_tasks K now w1))"

section \<open>Dispatch\<close>

definition run_cb ::
  "'k kernel \<Rightarrow> 'e event_cb \<Rightarrow> u32 \<Rightarrow> ('e, 'k) poller \<Rightarrow> ('e, 'k, unit) outcome" where
  "run_cb K cb event w =
     (case cb of
        PipeCB \<Rightarrow> on_pipe_event K w
      | UserCB f \<Rightarrow> run_prog K (f event) w \<bind> (\<lambda>(r, w1). Some (map_sum id (\<lambda>_. ()) r, w1)))"

text \<open>The \<open>for\<close> loop over the events of one \<open>epoll_wait\<close>.\<close>

fun dispatch :: "'k kernel \<Rightarrow> (int \<times> u32) list \<Rightarrow> ('e, 'k) poller \<Rightarrow> ('e, 'k, unit) outcome" where
  "dispatch K [] w = Some (Inr (), w)"
| "dispatch K ((fd, events) # es) w =
     (case event_map w fd of
        None \<Rightarrow> (case sys (sys_ctl K CTL_DEL fd 0) w of (_, w1) \<Rightarrow> dispatch K es w1)
      | Some cb \<Rightarrow>
          run_cb K cb (TO_POLLER events) w \<bind>
            (\<lambda>(r, w1). case r of
               Inl OtherException \<Rightarrow> Some (Inl OtherException, w1)
             | _ \<Rightarrow> dispatch K es w1))"

abbreviation EPOLL_SIZE :: nat where "EPOLL_SIZE \<equiv> 1024"

definition wait_events ::
  "'k kernel \<Rightarrow> u64 \<Rightarrow> ('e, 'k) poller \<Rightarrow> (int \<times> u32) list \<times> ('e, 'k) poller" where
  "wait_events K delay_ms w =
     (case sys_wait K (wait_timeout delay_ms) EPOLL_SIZE (kern w) of (((n, e), evs), k) \<Rightarrow>
        (take (nat n) evs, w\<lparr>kern := k, cerrno := (if n = -1 then e else cerrno w)\<rparr>))"

text \<open>One round of \<open>RunLoop\<close>; \<open>n \<le> 0\<close> leaves no event to dispatch.\<close>

definition loop_iter :: "'k kernel \<Rightarrow> ('e, 'k) poller \<Rightarrow> ('e, 'k, unit) outcome" where
  "loop_iter K w =
     get_min_delay_ms K w \<bind>
       (\<lambda>(r, w1). case r of
          Inl x \<Rightarrow> Some (Inl x, w1)
        | Inr delay_ms \<Rightarrow> (case wait_events K delay_ms w1 of (evs, w2) \<Rightarrow> dispatch K evs w2))"

partial_function (option) while_open ::
  "'k kernel \<Rightarrow> ('e, 'k) poller \<Rightarrow> ('e, 'k, unit) outcome" where
  "while_open K w =
     (if exit_flag w then Some (Inr (), w)
      else loop_iter K w \<bind>
        (\<lambda>(r, w1). case r of Inl x \<Rightarrow> Some (Inl x, w1) | Inr _ \<Rightarrow> while_open K w1))"

definition RunLoop :: "'k kernel \<Rightarrow> ('e, 'k) poller \<Rightarrow> ('e, 'k, unit) outcome" where
  "RunLoop K w = while_open K (w\<lparr>exit_flag := False\<rparr>)"

section \<open>What every step keeps\<close>

text \<open>
  The interface of the poller towards its invariants, in layers. A predicate that every
  operation a user can call keeps holds after any function of a user has run
  (\<open>prog_invariant\<close>). When the lock, the release and the bookkeeping of a task keep it as well, it
  holds after any task (\<open>task_invariant\<close>); when it does not depend on the multimap, after any flush
  (\<open>flush_invariant\<close>); when the reads of the pipe keep it, after any batch of events
  (\<open>batch_invariant\<close>); and with both and the wait, after any round of the loop
  (\<open>loop_invariant\<close>). \<open>C\<close> and \<open>R\<close> restrict the functions that
  users hand over: the descriptors they register and what they return.
\<close>

primrec prog_all :: "(int \<Rightarrow> bool) \<Rightarrow> (u64 \<Rightarrow> bool) \<Rightarrow> 'e prog \<Rightarrow> bool" where
  "prog_all C R (Return v) \<longleftrightarrow> R v"
| "prog_all C R Throw \<longleftrightarrow> True"
| "prog_all C R ThrowOther \<longleftrightarrow> True"
| "prog_all C R (Emit e p) \<longleftrightarrow> prog_all C R p"
| "prog_all C R (Input p) \<longleftrightarrow> (\<forall>n. prog_all C R (p n))"
| "prog_all C R (CallAsync f first p) \<longleftrightarrow> map_option (prog_all C R) f \<noteq> Some False \<and> (\<forall>i. prog_all C R (p i))"
| "prog_all C R (CallDelay d f p) \<longleftrightarrow> map_option (prog_all C R) f \<noteq> Some False \<and> (\<forall>i. prog_all C R (p i))"
| "prog_all C R (CallCancel i p) \<longleftrightarrow> prog_all C R p"
| "prog_all C R (CallAdd fd ev cb p) \<longleftrightarrow>
     C fd \<and> (\<forall>b. map_option ((\<circ>) (prog_all C R)) cb = Some b \<longrightarrow> (\<forall>e. b e)) \<and>
     (\<forall>r. prog_all C R (p r))"
| "prog_all C R (CallDel fd p) \<longleftrightarrow> C fd \<and> (\<forall>s. prog_all C R (p s))"
| "prog_all C R (CallModify fd ev p) \<longleftrightarrow> C fd \<and> (\<forall>r. prog_all C R (p r))"
| "prog_all C R (CallShutdown p) \<longleftrightarrow> prog_all C R p"

lemma prog_all_async [simp]:
  "prog_all C R (CallAsync f first p) \<longleftrightarrow> pred_option (prog_all C R) f \<and> (\<forall>i. prog_all C R (p i))"
  "prog_all C R (CallDelay d f p) \<longleftrightarrow> pred_option (prog_all C R) f \<and> (\<forall>i. prog_all C R (p i))"
  "prog_all C R (CallAdd fd ev cb q) \<longleftrightarrow>
     C fd \<and> pred_option (\<lambda>f. \<forall>e. prog_all C R (f e)) cb \<and> (\<forall>r. prog_all C R (q r))"
  by (cases f; cases cb; auto)+

declare prog_all.simps(6,7,9) [simp del]

fun closure_all :: "(int \<Rightarrow> bool) \<Rightarrow> (u64 \<Rightarrow> bool) \<Rightarrow> 'e closure \<Rightarrow> bool" where
  "closure_all C R (User p) \<longleftrightarrow> prog_all C R p"
| "closure_all C R (EmplaceDelay k i) \<longleftrightarrow> True"
| "closure_all C R ThrowExit \<longleftrightarrow> True"

fun cb_all :: "(int \<Rightarrow> bool) \<Rightarrow> (u64 \<Rightarrow> bool) \<Rightarrow> 'e event_cb \<Rightarrow> bool" where
  "cb_all C R PipeCB \<longleftrightarrow> False"
| "cb_all C R (UserCB f) \<longleftrightarrow> (\<forall>e. prog_all C R (f e))"

lemma pred_option_User [simp]:
  "pred_option (closure_all C R) (map_option User f) \<longleftrightarrow> pred_option (prog_all C R) f"
  "pred_option (cb_all C R) (map_option UserCB cb) \<longleftrightarrow> pred_option (\<lambda>f. \<forall>e. prog_all C R (f e)) cb"
  by (cases f; cases cb; simp)+

locale prog_invariant =
  fixes K :: "'k kernel" and C :: "int \<Rightarrow> bool" and R :: "u64 \<Rightarrow> bool"
    and I :: "('e, 'k) poller \<Rightarrow> bool"
  assumes emit: "I w \<Longrightarrow> I (w\<lparr>trace := es\<rparr>)"
    and input: "I w \<Longrightarrow> sys_input K (kern w) = ((n, e), k) \<Longrightarrow> I (w\<lparr>kern := k, cerrno := e\<rparr>)"
    and clock: "I w \<Longrightarrow> get_now K w = (ms, w') \<Longrightarrow> I w'"
    and make: "I w \<Longrightarrow> pred_option (closure_all C R) f \<Longrightarrow> I (snd (make_task f w))"
    and queue: "I w \<Longrightarrow> pred_option (closure_all C R) f \<Longrightarrow> async K f first w = Some (i, w') \<Longrightarrow> I w'"
    and cancel: "I w \<Longrightarrow> I (put_task i (task_cancel (tasks w i)) w)"
    and add: "I w \<Longrightarrow> C fd \<Longrightarrow> pred_option (cb_all C R) cb \<Longrightarrow> AddEvent K fd ev cb w = (r, w') \<Longrightarrow> I w'"
    and del: "I w \<Longrightarrow> C fd \<Longrightarrow> DelEvent K fd w = (s, w') \<Longrightarrow> I w'"
    and modify: "I w \<Longrightarrow> C fd \<Longrightarrow> ModifyEvent K fd ev w = (r, w') \<Longrightarrow> I w'"
begin

lemma delay_task:
  assumes "I w" and "pred_option (prog_all C R) f" and "DoDelayTask K d f w = Some (i, w')"
  shows "I w'"
proof -
  obtain j w1 where m: "make_task (map_option User f) w = (j, w1)" by fastforce
  obtain t w2 where n: "get_now K w1 = (t, w2)" by fastforce
  have "I w1" using make [OF assms(1), of "map_option User f"] assms(2) m by simp
  then have "I w2" using clock n by blast
  with assms(3) m n obtain a where "async K (Some (EmplaceDelay (d + t) j)) True w2 = Some (a, w')"
    by (auto simp: DoDelayTask_def AsyncFirst_def)
  from queue [OF \<open>I w2\<close> _ this] show ?thesis by simp
qed

lemma run: "I w \<Longrightarrow> prog_all C R p \<Longrightarrow> run_prog K p w = Some (r, w') \<Longrightarrow> I w'"
proof (induction p arbitrary: w)
  case (Input p)
  then show ?case by (auto split: prod.splits intro: input)
next
  case (CallAsync f first p)
  then obtain i w1 where a: "async K (map_option User f) first w = Some (i, w1)"
    "run_prog K (p i) w1 = Some (r, w')" by auto
  have "I w1" using queue [OF CallAsync.prems(1) _ a(1)] CallAsync.prems(2) by simp
  then show ?case using CallAsync.IH(2) [OF _ _ _ a(2)] CallAsync.prems(2) by simp
next
  case (CallDelay d f p)
  then obtain i w1 where a: "DoDelayTask K d f w = Some (i, w1)" "run_prog K (p i) w1 = Some (r, w')"
    by auto
  have "I w1" using delay_task [OF CallDelay.prems(1) _ a(1)] CallDelay.prems(2) by simp
  then show ?case using CallDelay.IH(2) [OF _ _ _ a(2)] CallDelay.prems(2) by simp
next
  case (CallAdd fd ev cb p)
  obtain s w1 where a: "AddEvent K fd ev (map_option UserCB cb) w = (s, w1)" by fastforce
  have "I w1" using add [OF CallAdd.prems(1) _ _ a] CallAdd.prems(2) by simp
  have "run_prog K (p s) w1 = Some (r, w')" using a CallAdd.prems(3) by simp
  then show ?case using \<open>I w1\<close> CallAdd.IH(2) [of "p s" w1] CallAdd.prems(2) by simp
next
  case (CallDel fd p)
  obtain s w1 where a: "DelEvent K fd w = (s, w1)" by fastforce
  have "I w1" using del [OF CallDel.prems(1) _ a] CallDel.prems(2) by simp
  have "run_prog K (p (snd s)) w1 = Some (r, w')"
    using a CallDel.prems(3) by (simp split: prod.splits)
  then show ?case using \<open>I w1\<close> CallDel.IH [of "p (snd s)" w1] CallDel.prems(2) by simp
next
  case (CallModify fd ev p)
  obtain s w1 where a: "ModifyEvent K fd ev w = (s, w1)" by fastforce
  have "I w1" using modify [OF CallModify.prems(1) _ a] CallModify.prems(2) by simp
  moreover have "run_prog K (p s) w1 = Some (r, w')" using a CallModify.prems(3) by simp
  then show ?case using \<open>I w1\<close> CallModify.IH [of "p s" w1] CallModify.prems(2) by simp
next
  case (CallShutdown p)
  then obtain i w1 where a: "async K (Some ThrowExit) True w = Some (i, w1)"
    "run_prog K p w1 = Some (r, w')" by (auto simp: Shutdown_def)
  have "I w1" using queue [OF CallShutdown.prems(1) _ a(1)] by simp
  then show ?case using CallShutdown.IH [OF _ _ a(2)] CallShutdown.prems(2) by simp
qed (auto intro: emit cancel)

end

locale task_invariant = prog_invariant K C R I
  for K :: "'k kernel" and C :: "int \<Rightarrow> bool" and R :: "u64 \<Rightarrow> bool"
    and I :: "('e, 'k) poller \<Rightarrow> bool" +
  assumes lock: "I w \<Longrightarrow> task_lock (tasks w i) = (Some c, t) \<Longrightarrow>
      closure_all C R c \<and> I ((put_task i t w)\<lparr>started := started w @ [i]\<rparr>)"
    and unlock: "I w \<Longrightarrow> I (put_task i (task_unlock (tasks w i)) w)"
    and emplace: "I w \<Longrightarrow> I (w\<lparr>delay_tasks := mm_emplace k j (delay_tasks w)\<rparr>)"
    and exit: "I w \<Longrightarrow> I (w\<lparr>exit_flag := True\<rparr>)"
begin

lemma run_closure: "I w \<Longrightarrow> closure_all C R c \<Longrightarrow> run_closure K c w = Some (r, w') \<Longrightarrow> I w'"
  by (cases c) (auto simp: run_closure_def intro: run emplace)

lemma call: "I w \<Longrightarrow> call_task K i w = Some (r, w') \<Longrightarrow> I w'"
proof -
  assume I: "I w" and c: "call_task K i w = Some (r, w')"
  obtain f t where l: "task_lock (tasks w i) = (f, t)" by fastforce
  show "I w'"
  proof (cases f)
    case None
    with c l I show ?thesis by (simp add: call_task_def task_call_def)
  next
    case (Some g)
    with c l obtain w1 where w1: "run_closure K g ((put_task i t w)\<lparr>started := started w @ [i]\<rparr>) = Some (r, w1)"
      and w': "w' = put_task i (task_unlock (tasks w1 i)) w1"
      by (auto simp: call_task_def task_call_def call_body_def put_task_def)
    show ?thesis unfolding w' using lock [OF I l [unfolded Some]] w1 by (blast intro: unlock run_closure)
  qed
qed

lemma run_list: "I w \<Longrightarrow> run_task_list K is w = Some (r, w') \<Longrightarrow> I w'"
proof (induction "is" arbitrary: w)
  case (Cons i "is")
  then obtain s w1 where c: "call_task K i w = Some (s, w1)" by auto
  then have "I w1" using call Cons.prems by blast
  with c Cons show ?case by (auto split: sum.splits exc.splits intro: exit)
qed simp

end

locale flush_invariant = task_invariant K C R I
  for K :: "'k kernel" and C :: "int \<Rightarrow> bool" and R :: "u64 \<Rightarrow> bool"
    and I :: "('e, 'k) poller \<Rightarrow> bool" +
  assumes delay: "I w \<Longrightarrow> I (w\<lparr>delay_tasks := m\<rparr>)"
begin

lemma flush_loop_inv:
  assumes "flush_loop K now before rest w = Some y" and "I w"
  shows "I (snd y)"
proof -
  have "K = K \<longrightarrow> I w \<longrightarrow> I (snd y)"
  proof (rule flush_loop.raw_induct [where P = "\<lambda>K' now before rest w y. K' = K \<longrightarrow> I w \<longrightarrow> I (snd y)",
      OF _ assms(1)], intro impI)
    fix self K' now before rest w y
    assume IH: "\<And>K' now before rest w y. self K' now before rest w = Some y \<Longrightarrow>
        K' = K \<longrightarrow> I w \<longrightarrow> I (snd y)"
      and body: "(case rest of
        [] \<Rightarrow> Some (Inr before, w)
      | (k, i) # rs \<Rightarrow>
          if now < k then Some (Inr (before @ rest), w)
          else call_task K' i w \<bind>
              (\<lambda>(r, w1). case r of
                 Inl ExitException \<Rightarrow> self K' now before rs w1
               | Inl StdException \<Rightarrow> self K' now before rs w1
               | Inl OtherException \<Rightarrow> Some (Inl OtherException, w1)
               | Inr next_delay \<Rightarrow>
                   if next_delay = 0 then self K' now before rs w1
                   else if next_delay + now < k
                   then self K' now (mm_emplace (next_delay + now) i before) rs w1
                   else self K' now before (mm_emplace (next_delay + now) i rs) w1)) = Some y"
      and K: "K' = K" and w: "I w"
    show "I (snd y)"
    proof (cases "rest = [] \<or> now < fst (hd rest)")
      case True
      with body w show ?thesis by (cases rest) (auto split: prod.splits)
    next
      case False
      then obtain k i rs where rest: "rest = (k, i) # rs" "\<not> now < k" by (cases rest) auto
      with body K obtain r w1 where c: "call_task K i w = Some (r, w1)" by auto
      then have w1: "I w1" using call w by blast
      from body rest K c have "y = (Inl OtherException, w1) \<or>
        (\<exists>before rs. self K now before rs w1 = Some y)"
        by (cases r) (auto split: exc.splits if_splits)
      with w1 IH [of K now _ _ w1 y] show ?thesis by auto
    qed
  qed
  with assms(2) show ?thesis by simp
qed

lemma flush: "I w \<Longrightarrow> flush_delay_tasks K now w = Some (r, w') \<Longrightarrow> I w'"
proof -
  assume I: "I w" and f: "flush_delay_tasks K now w = Some (r, w')"
  then obtain s w1 where l: "flush_loop K now [] (delay_tasks w) (w\<lparr>delay_tasks := []\<rparr>) = Some (s, w1)"
    by (auto simp: flush_delay_tasks_def)
  then have "I w1" using flush_loop_inv [OF l delay [OF I]] by simp
  with f l show "I w'" by (auto simp: flush_delay_tasks_def split: sum.splits intro: delay)
qed

lemma min_delay: "I w \<Longrightarrow> get_min_delay_ms K w = Some (r, w') \<Longrightarrow> I w'"
  by (auto simp: get_min_delay_ms_def split: list.splits prod.splits if_splits
      intro: clock flush)

end

lemma drain_inv:
  assumes "drain K w = Some w'" and "I w"
    and read: "\<And>w r w'. I w \<Longrightarrow> sys (sys_read K 1024) w = (r, w') \<Longrightarrow> I w'"
  shows "I w'"
proof -
  have "K = K \<longrightarrow> I w \<longrightarrow> I w'"
  proof (rule drain.raw_induct [where P = "\<lambda>K' w w'. K' = K \<longrightarrow> I w \<longrightarrow> I w'", OF _ assms(1)], intro impI)
    fix self K' w w'
    assume IH: "\<And>K' w w'. self K' w = Some w' \<Longrightarrow> K' = K \<longrightarrow> I w \<longrightarrow> I w'"
      and body: "pipe_Read K' 1024 w \<bind>
        (\<lambda>(_, w1). if get_uv_error (cerrno w1) \<noteq> EAGAIN then self K' w1 else Some w1) = Some w'"
      and K: "K' = K" and w: "I w"
    from body K obtain r w1 where r: "pipe_Read K 1024 w = Some (r, w1)"
      and n: "(if get_uv_error (cerrno w1) \<noteq> EAGAIN then self K w1 else Some w1) = Some w'"
      by auto
    have "I w1" using retry_eintr_result [where I = I, OF r [unfolded pipe_Read_def] w] read by auto
    with n IH [of K w1 w'] show "I w'" by (auto split: if_splits)
  qed
  with assms(2) show ?thesis by simp
qed

section \<open>Invariants of the whole loop\<close>

locale batch_invariant = task_invariant K C R I
  for K :: "'k kernel" and C :: "int \<Rightarrow> bool" and R :: "u64 \<Rightarrow> bool"
    and I :: "('e, 'k) poller \<Rightarrow> bool" +
  assumes read: "I w \<Longrightarrow> sys (sys_read K 1024) w = (r, w') \<Longrightarrow> I w'"
    and take_list: "I w \<Longrightarrow> I (w\<lparr>task_list := []\<rparr>)"
    and stale: "I w \<Longrightarrow> event_map w fd = None \<Longrightarrow> sys (sys_ctl K CTL_DEL fd 0) w = (r, w') \<Longrightarrow> I w'"
    and callbacks: "I w \<Longrightarrow> event_map w fd = Some (UserCB f) \<Longrightarrow> prog_all C R (f e)"
begin

lemma pipe_event: "I w \<Longrightarrow> on_pipe_event K w = Some (r, w') \<Longrightarrow> I w'"
proof -
  assume I: "I w" and e: "on_pipe_event K w = Some (r, w')"
  then obtain w1 where d: "drain K w = Some w1"
    and l: "run_task_list K (task_list w1) (w1\<lparr>task_list := []\<rparr>) = Some (r, w')"
    by (auto simp: on_pipe_event_def)
  have "I w1" using d I read by (rule drain_inv)
  then show "I w'" using run_list [OF take_list l] by simp
qed

lemma callback:
  "I w \<Longrightarrow> event_map w fd = Some cb \<Longrightarrow> run_cb K cb e w = Some (r, w') \<Longrightarrow> I w'"
  by (cases cb) (auto simp: run_cb_def intro: pipe_event run callbacks)

lemma batch: "I w \<Longrightarrow> dispatch K es w = Some (r, w') \<Longrightarrow> I w'"
proof (induction es arbitrary: w)
  case (Cons e es)
  obtain fd ev where e: "e = (fd, ev)" by (cases e)
  show ?case
  proof (cases "event_map w fd")
    case None
    obtain r w1 where c: "sys (sys_ctl K CTL_DEL fd 0) w = (r, w1)" by fastforce
    have "I w1" using stale [OF Cons.prems(1) None c] .
    with Cons e None c show ?thesis by auto
  next
    case (Some cb)
    with Cons.prems e obtain s w1 where c: "run_cb K cb (TO_POLLER ev) w = Some (s, w1)" by auto
    have "I w1" using callback [OF Cons.prems(1) Some c] .
    with Cons e Some c show ?thesis by (auto split: sum.splits exc.splits)
  qed
qed simp

end

locale loop_invariant = flush_invariant K C R I + batch_invariant K C R I
  for K :: "'k kernel" and C :: "int \<Rightarrow> bool" and R :: "u64 \<Rightarrow> bool"
    and I :: "('e, 'k) poller \<Rightarrow> bool" +
  assumes wait: "I w \<Longrightarrow> wait_events K d w = (evs, w') \<Longrightarrow> I w'"
begin

lemma iteration: "I w \<Longrightarrow> loop_iter K w = Some (r, w') \<Longrightarrow> I w'"
proof -
  assume I: "I w" and l: "loop_iter K w = Some (r, w')"
  then obtain s w1 where m: "get_min_delay_ms K w = Some (s, w1)" by (auto simp: loop_iter_def)
  have "I w1" using min_delay [OF I m] .
  with l m show "I w'"
    by (auto simp: loop_iter_def split: sum.splits prod.splits intro: batch wait)
qed

end

text \<open>
  The histories of a poller: its users call its operations, from outside or from what it runs,
  and its loop goes round.
\<close>

inductive poller_steps ::
  "'k kernel \<Rightarrow> (int \<Rightarrow> bool) \<Rightarrow> (u64 \<Rightarrow> bool) \<Rightarrow> ('e, 'k) poller \<Rightarrow> ('e, 'k) poller \<Rightarrow> bool"
  for K :: "'k kernel" and C :: "int \<Rightarrow> bool" and R :: "u64 \<Rightarrow> bool" and w0 :: "('e, 'k) poller" where
  start: "poller_steps K C R w0 w0"
| outside: "poller_steps K C R w0 w \<Longrightarrow> prog_all C R p \<Longrightarrow> run_prog K p w = Some (r, w') \<Longrightarrow>
     poller_steps K C R w0 w'"
| round: "poller_steps K C R w0 w \<Longrightarrow> loop_iter K w = Some (Inr (), w') \<Longrightarrow> poller_steps K C R w0 w'"

context loop_invariant
begin

lemma steps: "poller_steps K C R w w' \<Longrightarrow> I w \<Longrightarrow> I w'"
  by (induction rule: poller_steps.induct) (auto intro: run iteration)

end

end
