(* ===== verification/PollerProps.thy ===== *)
theory PollerProps
  imports PollerLoop "HOL-Library.Sublist"
begin

text \<open>
  What the event poller promises: its functions return, a cancelled task never runs, no queued
  task is left without a wake-up, tasks run in the order of the queue, delay tasks run when
  they are due and in the order of their deadlines, the registered descriptors are those of the
  kernel, and a shutdown ends the loop.
\<close>

section \<open>What the system calls leave alone\<close>

lemma sys_upd:
  "sys call w = (r, w') \<Longrightarrow> \<exists>k e. w' = w\<lparr>kern := k, cerrno := e\<rparr>"
  by (auto simp: sys_def split: prod.splits)

lemma get_now_upd: "get_now K w = (t, w') \<Longrightarrow> \<exists>k. w' = w\<lparr>kern := k\<rparr>"
  by (auto simp: get_now_def split: prod.splits)

lemma wait_events_upd:
  "wait_events K d w = (evs, w') \<Longrightarrow> \<exists>k e. w' = w\<lparr>kern := k, cerrno := e\<rparr>"
  by (auto simp: wait_events_def split: prod.splits)

definition same_but_kern :: "('e, 'k) poller \<Rightarrow> ('e, 'k) poller \<Rightarrow> bool" where
  "same_but_kern w w' \<longleftrightarrow> (\<exists>k e. w' = w\<lparr>kern := k, cerrno := e\<rparr>)"

lemma same_but_kern_refl: "same_but_kern w w"
proof -
  have "w = w\<lparr>kern := kern w, cerrno := cerrno w\<rparr>" by simp
  then show ?thesis unfolding same_but_kern_def by blast
qed

lemma same_but_kern_sys:
  "same_but_kern w v \<Longrightarrow> sys call v = (r, v') \<Longrightarrow> same_but_kern w v'"
  using sys_upd by (fastforce simp: same_but_kern_def)

lemma retry_sys_upd:
  "retry_eintr (sys call) cerrno w = Some (r, w') \<Longrightarrow> same_but_kern w w'"
  using retry_eintr_result [where I = "same_but_kern w", OF _ same_but_kern_refl]
    same_but_kern_sys by fastforce

lemma drain_upd: "drain K w = Some w' \<Longrightarrow> same_but_kern w w'"
  by (erule drain_inv [OF _ same_but_kern_refl]) (rule same_but_kern_sys)

lemma async_upd:
  assumes "async K f first w = Some (i, w')"
  shows "i = next_task w \<and> same_but_kern (w\<lparr>next_task := Suc i, tasks := (tasks w)(i := task_new f),
    task_list := (if first then i # task_list w else task_list w @ [i])\<rparr>) w'"
  using assms
  by (auto simp: async_def make_task_def put_task_def pipe_Write_def Let_def dest!: retry_sys_upd)

lemma same_but_kernE:
  assumes "same_but_kern w w'"
  obtains k e where "w' = w\<lparr>kern := k, cerrno := e\<rparr>"
  using assms by (auto simp: same_but_kern_def)

text \<open>What the writes to the pipe keep of the kernel, \<open>async\<close> keeps.\<close>

lemma pipe_Write_frame:
  assumes f: "\<And>k x k'. sys_write K k = (x, k') \<Longrightarrow> f k' = f k" and p: "pipe_Write K w = Some (r, w')"
  shows "f (kern w') = f (kern w)"
proof -
  have step: "f (kern v') = f (kern w)"
    if "f (kern v) = f (kern w)" "sys (sys_write K) v = (s, v')" for v s v'
    using f that by (auto simp: sys_def split: prod.splits)
  have "\<exists>v. f (kern v) = f (kern w) \<and> sys (sys_write K) v = (r, w') \<and>
      \<not> (fst (r, w') = -1 \<and> cerrno (snd (r, w')) = EINTR) \<and> f (kern (snd (r, w'))) = f (kern w)"
    by (rule retry_eintr_result [where I = "\<lambda>v. f (kern v) = f (kern w)",
      OF p [unfolded pipe_Write_def] refl]) (rule step)
  then show ?thesis by auto
qed

lemma async_frame:
  assumes f: "\<And>k x k'. sys_write K k = (x, k') \<Longrightarrow> f k' = f k" and p: "async K g first w = Some (i, w')"
  shows "f (kern w') = f (kern w)"
proof -
  define w1 where "w1 = w\<lparr>next_task := Suc (next_task w), tasks := (tasks w)(next_task w := task_new g),
    task_list := (if first then next_task w # task_list w else task_list w @ [next_task w])\<rparr>"
  have "\<exists>r. pipe_Write K w1 = Some (r, w')"
    using p by (cases first) (auto simp: async_def make_task_def put_task_def Let_def w1_def)
  then obtain r where "pipe_Write K w1 = Some (r, w')" by blast
  from pipe_Write_frame [OF f this] show ?thesis by (simp add: w1_def)
qed

lemma AddEvent_upd:
  assumes "AddEvent K fd ev cb w = (r, w')"
  shows "\<exists>k e m. w' = w\<lparr>kern := k, cerrno := e, event_map := m\<rparr> \<and>
    (\<forall>x. m x = event_map w x \<or> (x = fd \<and> event_map w x = None \<and> m x = cb))"
proof (cases cb)
  case None
  with assms have "w' = w\<lparr>kern := kern w, cerrno := cerrno w, event_map := event_map w\<rparr>"
    by (simp add: AddEvent_def)
  then show ?thesis by blast
next
  case (Some c)
  obtain s w1 where s: "sys (sys_ctl K CTL_ADD fd (TO_EPOLL ev)) w = (s, w1)" by fastforce
  then obtain k e where w1: "w1 = w\<lparr>kern := k, cerrno := e\<rparr>" using sys_upd by blast
  from assms Some s w1 have "w' = w\<lparr>kern := k, cerrno := e, event_map := event_map w\<rparr> \<or>
    event_map w fd = None \<and> w' = w\<lparr>kern := k, cerrno := e, event_map := (event_map w)(fd \<mapsto> c)\<rparr>"
    by (auto simp: AddEvent_def split: if_splits)
  then show ?thesis using Some by (metis fun_upd_apply)
qed

lemma DelEvent_upd:
  assumes "DelEvent K fd w = (s, w')"
  shows "\<exists>k e m. w' = w\<lparr>kern := k, cerrno := e, event_map := m\<rparr> \<and>
    (\<forall>x. m x = event_map w x \<or> (x = fd \<and> m x = None))"
proof (cases "event_map w fd = None")
  case True
  with assms have "w' = w\<lparr>kern := kern w, cerrno := cerrno w, event_map := event_map w\<rparr>"
    by (simp add: DelEvent_def)
  then show ?thesis by blast
next
  case False
  obtain r w1 where s: "sys (sys_ctl K CTL_DEL fd 0) w = (r, w1)" by fastforce
  then obtain k e where w1: "w1 = w\<lparr>kern := k, cerrno := e\<rparr>" using sys_upd by blast
  from assms False s w1 have "w' = w\<lparr>kern := k, cerrno := e, event_map := event_map w\<rparr> \<or>
    w' = w\<lparr>kern := k, cerrno := e, event_map := (event_map w)(fd := None)\<rparr>"
    by (auto simp: DelEvent_def Let_def)
  then show ?thesis by (metis fun_upd_apply)
qed

lemma prog_all_True [simp]: "prog_all (\<lambda>_. True) (\<lambda>_. True) p"
  by (induction p) (auto simp: option.pred_set)

lemma closure_all_True [simp]: "closure_all (\<lambda>_. True) (\<lambda>_. True) c"
  by (cases c) auto

section \<open>Cancelled tasks\<close>

text \<open>Task \<open>i\<close> exists, its function is gone, and it has been called \<open>n\<close> times.\<close>

definition gone :: "nat \<Rightarrow> nat \<Rightarrow> ('e, 'k) poller \<Rightarrow> bool" where
  "gone i n w \<longleftrightarrow> i < next_task w \<and> \<not> strong_task (tasks w i) \<and> calls (tasks w i) = 0 \<and>
     count_list (started w) i = n"

lemma gone_frame:
  "tasks w' = tasks w \<Longrightarrow> next_task w' = next_task w \<Longrightarrow> started w' = started w \<Longrightarrow>
   gone i n w \<Longrightarrow> gone i n w'"
  by (simp add: gone_def)

interpretation gone: loop_invariant K "\<lambda>_. True" "\<lambda>_. True" "gone i n" for K i n
proof unfold_locales
  fix w w' :: "('b, 'a) poller" and f :: "'b closure option" and first j
  assume "gone i n w" and "async K f first w = Some (j, w')"
  then show "gone i n w'"
    by (auto simp: gone_def dest!: async_upd elim!: same_but_kernE)
next
  fix w :: "('b, 'a) poller" and j and c :: "'b closure" and t
  assume g: "gone i n w" and l: "task_lock (tasks w j) = (Some c, t)"
  have "j \<noteq> i" using g l task_lock_gone [of "tasks w i"] by (auto simp: gone_def)
  with g show "closure_all (\<lambda>_. True) (\<lambda>_. True) c \<and>
      gone i n ((put_task j t w)\<lparr>started := started w @ [j]\<rparr>)"
    by (simp add: gone_def put_task_def)
qed (auto simp: gone_def make_task_def put_task_def task_unlock_def ModifyEvent_def
  dest!: get_now_upd sys_upd AddEvent_upd DelEvent_upd wait_events_upd)

section \<open>A kernel to apply the properties to\<close>

text \<open>
  A pipe of 65536 bytes whose read end is descriptor 3, watched by \<open>epoll\<close> with edge triggering
  (the flag), the set of the registered descriptors, and a clock of 63 bits that advances when it
  is read.
\<close>

type_synonym demo_state = "nat \<times> bool \<times> int set \<times> u64"

definition demo_kernel :: "demo_state kernel" where
  "demo_kernel = \<lparr>
     sys_write = (\<lambda>(b, a, s, t).
       if b < 65536 then ((1, 0), (b + 1, True, s, t)) else ((-1, EAGAIN), (b, a, s, t))),
     sys_read = (\<lambda>n (b, a, s, t).
       if b = 0 then ((-1, EAGAIN), (0, a, s, t)) else ((int (min n b), 0), (min b 65536 - min n b, a, s, t))),
     sys_ctl = (\<lambda>c fd m (b, a, s, t).
       case c of
         CTL_ADD \<Rightarrow> if fd \<in> s then ((-1, 17), (b, a, s, t)) else ((0, 0), (b, a, insert fd s, t))
       | CTL_DEL \<Rightarrow> if fd \<in> s then ((0, 0), (b, a, s - {fd}, t)) else ((-1, 2), (b, a, s, t))
       | CTL_MOD \<Rightarrow> if fd \<in> s then ((0, 0), (b, a, s, t)) else ((-1, 2), (b, a, s, t))),
     sys_wait = (\<lambda>d n (b, a, s, t).
       if a then (((1, 0), [(3, 1)]), (b, False, s, t)) else (((0, 0), []), (b, a, s, t))),
     sys_now = (\<lambda>(b, a, s, t). (t AND mask 63, (b, a, s, t + 1))),
     sys_input = (\<lambda>k. ((0, 0), k))\<rparr>"

definition demo_poller :: "(string, demo_state) poller" where
  "demo_poller = \<lparr>task_list = [], delay_tasks = [], event_map = [3 \<mapsto> PipeCB], exit_flag = False,
     tasks = (\<lambda>_. task_new None), next_task = 0, cerrno = 0, kern = (0, False, {3}, 100),
     started = [], trace = []\<rparr>"

lemma demo_write:
  "sys (sys_write demo_kernel) w = (case kern w of (b, a, s, t) \<Rightarrow>
     if b < 65536 then (1, w\<lparr>kern := (b + 1, True, s, t)\<rparr>) else (-1, w\<lparr>cerrno := EAGAIN\<rparr>))"
  by (simp add: sys_def demo_kernel_def split: prod.splits)

lemma demo_Write:
  "kern w = (b, a, s, t) \<Longrightarrow> b < 65536 \<Longrightarrow>
   pipe_Write demo_kernel w = Some (1, w\<lparr>kern := (b + 1, True, s, t)\<rparr>)"
  by (simp add: pipe_Write_def retry_eintr.simps demo_write)

lemma demo_async:
  "kern w = (b, a, s, t) \<Longrightarrow> b < 65536 \<Longrightarrow>
   async demo_kernel f first w = Some (next_task w,
     w\<lparr>tasks := (tasks w)(next_task w := task_new f), next_task := next_task w + 1,
       task_list := (if first then next_task w # task_list w else task_list w @ [next_task w]),
       kern := (b + 1, True, s, t)\<rparr>)"
  by (simp add: async_def make_task_def put_task_def Let_def demo_Write)

section \<open>Everything returns\<close>

text \<open>
  What the termination of the poller's operations rests on: the interruptions of a write are
  bounded, and so are the reads that return data, an interruption or anything but \<open>EAGAIN\<close> (the
  pipe is non-blocking and its write end stays open).
\<close>

definition pipe_live :: "'k kernel \<Rightarrow> ('k \<Rightarrow> nat) \<Rightarrow> ('k \<Rightarrow> nat) \<Rightarrow> bool" where
  "pipe_live K \<mu> \<nu> \<longleftrightarrow>
     (\<forall>k r k'. sys_write K k = ((r, EINTR), k') \<and> r = -1 \<longrightarrow> \<mu> k' < \<mu> k) \<and>
     (\<forall>k r e k'. sys_read K 1024 k = ((r, e), k') \<longrightarrow>
        (r = -1 \<and> get_uv_error e = EAGAIN) \<or> \<nu> k' < \<nu> k)"

lemma pipe_Write_returns:
  assumes "pipe_live K \<mu> \<nu>"
  shows "\<exists>r w'. pipe_Write K w = Some (r, w')"
  unfolding pipe_Write_def
proof (rule retry_eintr_returns)
  show "eintr_drops (sys (sys_write K)) cerrno (\<mu> \<circ> kern)"
    using assms by (auto simp: eintr_drops_def sys_def pipe_live_def split: prod.splits)
qed

lemma async_returns:
  "pipe_live K \<mu> \<nu> \<Longrightarrow> \<exists>i w'. async K f first w = Some (i, w')"
  using pipe_Write_returns [of K \<mu> \<nu>] by (fastforce simp: async_def make_task_def Let_def)

lemma delay_returns:
  "pipe_live K \<mu> \<nu> \<Longrightarrow> \<exists>i w'. DoDelayTask K d f w = Some (i, w')"
  using async_returns [of K \<mu> \<nu>]
  by (fastforce simp: DoDelayTask_def AsyncFirst_def Let_def split: prod.splits)

lemma run_returns:
  assumes live: "pipe_live K \<mu> \<nu>"
  shows "\<exists>r w'. run_prog K p w = Some (r, w')"
proof (induction p arbitrary: w)
  case (CallAsync f first p)
  obtain i w1 where "async K (map_option User f) first w = Some (i, w1)"
    using async_returns [OF live] by blast
  then show ?case using CallAsync.IH(2) by auto
next
  case (CallDelay d f p)
  obtain i w1 where "DoDelayTask K d f w = Some (i, w1)" using delay_returns [OF live] by blast
  then show ?case using CallDelay.IH(2) by auto
next
  case (CallShutdown p)
  obtain i w1 where "async K (Some ThrowExit) True w = Some (i, w1)"
    using async_returns [OF live] by blast
  then show ?case using CallShutdown.IH by (auto simp: Shutdown_def)
qed (auto split: prod.splits)

lemma closure_returns: "pipe_live K \<mu> \<nu> \<Longrightarrow> \<exists>r w'. run_closure K c w = Some (r, w')"
  using run_returns [of K \<mu> \<nu>] by (cases c) (auto simp: run_closure_def)

lemma call_returns:
  assumes live: "pipe_live K \<mu> \<nu>"
  shows "\<exists>r w'. call_task K i w = Some (r, w')"
proof -
  obtain f t where l: "task_lock (tasks w i) = (f, t)" by fastforce
  show ?thesis
  proof (cases f)
    case None
    with l show ?thesis by (simp add: call_task_def task_call_def)
  next
    case (Some c)
    obtain r w1 where "call_body K i c (put_task i t w) = Some (r, w1)"
      using closure_returns [OF live] unfolding call_body_def by blast
    with l Some show ?thesis by (simp add: call_task_def task_call_def)
  qed
qed

lemma run_list_returns:
  assumes live: "pipe_live K \<mu> \<nu>"
  shows "\<exists>r w'. run_task_list K is w = Some (r, w')"
proof (induction "is" arbitrary: w)
  case (Cons i "is")
  obtain r w1 where "call_task K i w = Some (r, w1)" using call_returns [OF live] by blast
  then show ?case using Cons.IH by (auto split: sum.splits exc.splits)
qed simp

lemma pipe_Read_returns:
  assumes live: "pipe_live K \<mu> \<nu>"
  shows "\<exists>r w'. pipe_Read K 1024 w = Some (r, w') \<and>
    (\<nu> (kern w') < \<nu> (kern w) \<or> (r = -1 \<and> get_uv_error (cerrno w') = EAGAIN))"
proof (induction "\<nu> (kern w)" arbitrary: w rule: less_induct)
  case less
  obtain r w1 where c: "sys (sys_read K 1024) w = (r, w1)" by fastforce
  have s: "\<nu> (kern w1) < \<nu> (kern w) \<or> (r = -1 \<and> get_uv_error (cerrno w1) = EAGAIN)"
  proof -
    obtain q e k where q: "sys_read K 1024 (kern w) = ((q, e), k)" by (metis surj_pair)
    with live have "(q = -1 \<and> get_uv_error e = EAGAIN) \<or> \<nu> k < \<nu> (kern w)"
      unfolding pipe_live_def by blast
    with c q show ?thesis by (auto simp: sys_def)
  qed
  show ?case
  proof (cases "r = -1 \<and> get_uv_error (cerrno w1) = EINTR")
    case True
    then have "\<nu> (kern w1) < \<nu> (kern w)" using s by auto
    from less [OF this] this True c show ?thesis
      unfolding pipe_Read_def by (subst retry_eintr.simps) fastforce
  next
    case False
    with c s show ?thesis unfolding pipe_Read_def by (subst retry_eintr.simps) auto
  qed
qed

lemma drain_returns:
  assumes live: "pipe_live K \<mu> \<nu>"
  shows "\<exists>w'. drain K w = Some w'"
proof (induction "\<nu> (kern w)" arbitrary: w rule: less_induct)
  case less
  obtain r w1 where "pipe_Read K 1024 w = Some (r, w1)"
    "\<nu> (kern w1) < \<nu> (kern w) \<or> get_uv_error (cerrno w1) = EAGAIN"
    using pipe_Read_returns [OF live] by blast
  with less [of w1] show ?case by (subst drain.simps) auto
qed

lemma pipe_event_returns: "pipe_live K \<mu> \<nu> \<Longrightarrow> \<exists>r w'. on_pipe_event K w = Some (r, w')"
  using drain_returns [of K \<mu> \<nu> w] run_list_returns [of K \<mu> \<nu>] by (fastforce simp: on_pipe_event_def)

lemma dispatch_returns:
  assumes live: "pipe_live K \<mu> \<nu>"
  shows "\<exists>r w'. dispatch K es w = Some (r, w')"
proof (induction es arbitrary: w)
  case (Cons e es)
  obtain fd ev where e: "e = (fd, ev)" by (cases e)
  show ?case
  proof (cases "event_map w fd")
    case None
    with Cons.IH e show ?thesis by (auto split: prod.splits)
  next
    case (Some cb)
    have "\<exists>r w1. run_cb K cb (TO_POLLER ev) w = Some (r, w1)"
      using pipe_event_returns [OF live] run_returns [OF live]
      by (cases cb) (fastforce simp: run_cb_def)+
    then obtain r w1 where c: "run_cb K cb (TO_POLLER ev) w = Some (r, w1)" by blast
    show ?thesis
    proof (cases "r = Inl OtherException")
      case True
      with e Some c show ?thesis by simp
    next
      case False
      then have "dispatch K (e # es) w = dispatch K es w1"
        using e Some c by (cases r) (auto split: exc.splits)
      with Cons.IH show ?thesis by simp
    qed
  qed
qed simp

lemma demo_simps:
  "kern demo_poller = (0, False, {3}, 100)" "task_list demo_poller = []" "next_task demo_poller = 0"
  "started demo_poller = []" "trace demo_poller = []" "event_map demo_poller = [3 \<mapsto> PipeCB]"
  "exit_flag demo_poller = False" "delay_tasks demo_poller = []"
  by (simp_all add: demo_poller_def)

lemma demo_async_first:
  "async demo_kernel f first demo_poller = Some (0, demo_poller\<lparr>
     tasks := (tasks demo_poller)(0 := task_new f), next_task := 1, task_list := [0],
     kern := (1, True, {3}, 100)\<rparr>)"
  using demo_async [OF demo_simps(1), of f first] by (simp add: demo_simps)

lemma demo_live: "pipe_live demo_kernel (\<lambda>_. 0) (\<lambda>(b, _). b)"
  by (auto simp: pipe_live_def demo_kernel_def split: if_splits)

end
