(* ===== verification/PollerDelay.thy ===== *)
theory PollerDelay
  imports PollerProps "HOL-Library.Multiset"
begin

text \<open>
  The delay tasks of the poller: the flush of the due ones is a single pass over the entries that
  were due when it began, in the order of their deadlines.
\<close>

section \<open>What user functions cannot touch\<close>

interpretation frame: prog_invariant K "\<lambda>_. True" "\<lambda>_. True"
  "\<lambda>w. started w = s \<and> delay_tasks w = m \<and> exit_flag w = b" for K s m b
proof unfold_locales
  fix w w' :: "('b, 'a) poller" and f :: "'b closure option" and first j
  assume "started w = s \<and> delay_tasks w = m \<and> exit_flag w = b"
    and "async K f first w = Some (j, w')"
  then show "started w' = s \<and> delay_tasks w' = m \<and> exit_flag w' = b"
    by (auto dest!: async_upd elim!: same_but_kernE)
qed (auto simp: make_task_def put_task_def ModifyEvent_def
  dest!: get_now_upd sys_upd AddEvent_upd DelEvent_upd)

lemma run_prog_frame:
  "run_prog K p w = Some (r, w') \<Longrightarrow>
   started w' = started w \<and> delay_tasks w' = delay_tasks w \<and> exit_flag w' = exit_flag w"
  by (rule frame.run) simp_all

lemma run_closure_frame:
  "run_closure K c w = Some (r, w') \<Longrightarrow> started w' = started w \<and> exit_flag w' = exit_flag w"
  by (cases c) (auto simp: run_closure_def dest: run_prog_frame)

lemma call_task_frame:
  assumes "call_task K i w = Some (r, w')"
  shows "(started w' = started w \<or> started w' = started w @ [i]) \<and> exit_flag w' = exit_flag w"
proof -
  obtain f t where l: "task_lock (tasks w i) = (f, t)" by fastforce
  show ?thesis
  proof (cases f)
    case None
    with assms l show ?thesis by (simp add: call_task_def task_call_def)
  next
    case (Some c)
    with assms l obtain w1 where
      "run_closure K c ((put_task i t w)\<lparr>started := started w @ [i]\<rparr>) = Some (r, w1)"
      "w' = put_task i (task_unlock (tasks w1 i)) w1"
      by (auto simp: call_task_def task_call_def call_body_def put_task_def)
    then show ?thesis using run_closure_frame by (fastforce simp: put_task_def)
  qed
qed

section \<open>What user functions return\<close>

definition fns_ok :: "(int \<Rightarrow> bool) \<Rightarrow> (u64 \<Rightarrow> bool) \<Rightarrow> ('e, 'k) poller \<Rightarrow> bool" where
  "fns_ok C R w \<longleftrightarrow>
     (\<forall>i. pred_option (closure_all C R) (task_fn (tasks w i))) \<and>
     (\<forall>fd f. event_map w fd = Some (UserCB f) \<longrightarrow> (\<forall>e. prog_all C R (f e)))"

lemma task_fn_lock: "task_lock t = (Some c, t') \<Longrightarrow> task_fn t = Some c \<and> task_fn t' = Some c"
  by (auto simp: task_lock_def split: if_splits)

interpretation fns: loop_invariant K C R "fns_ok C R" for K C R
proof unfold_locales
  fix w w' :: "('b, 'a) poller" and f :: "'b closure option" and first j
  assume "fns_ok C R w" and "pred_option (closure_all C R) f" and "async K f first w = Some (j, w')"
  then show "fns_ok C R w'"
    by (auto simp: fns_ok_def task_new_def dest!: async_upd elim!: same_but_kernE)
next
  fix w w' :: "('b, 'a) poller" and fd ev r and cb :: "'b event_cb option"
  assume *: "fns_ok C R w" "pred_option (cb_all C R) cb" "AddEvent K fd ev cb w = (r, w')"
  from AddEvent_upd [OF *(3)] obtain k e m where
    w': "w' = w\<lparr>kern := k, cerrno := e, event_map := m\<rparr>"
    and m: "\<forall>x. m x = event_map w x \<or> (x = fd \<and> event_map w x = None \<and> m x = cb)" by blast
  show "fns_ok C R w'"
    using * m unfolding w' fns_ok_def
    by (auto simp: option.pred_set) (metis cb_all.simps(2) option.set_intros)
next
  fix w w' :: "('b, 'a) poller" and fd s
  assume *: "fns_ok C R w" "DelEvent K fd w = (s, w')"
  from DelEvent_upd [OF *(2)] obtain k e m where
    w': "w' = w\<lparr>kern := k, cerrno := e, event_map := m\<rparr>"
    and m: "\<forall>x. m x = event_map w x \<or> (x = fd \<and> m x = None)" by blast
  show "fns_ok C R w'"
    using * m unfolding w' fns_ok_def by (auto simp: option.pred_set) (metis option.distinct(1))
next
  fix w :: "('b, 'a) poller" and j and c :: "'b closure" and t
  assume g: "fns_ok C R w" and l: "task_lock (tasks w j) = (Some c, t)"
  have "task_fn (tasks w j) = Some c" "task_fn t = Some c" using task_fn_lock [OF l] by auto
  with g show "closure_all C R c \<and> fns_ok C R ((put_task j t w)\<lparr>started := started w @ [j]\<rparr>)"
    by (auto simp: fns_ok_def put_task_def option.pred_set)
qed (auto simp: fns_ok_def make_task_def task_new_def put_task_def task_unlock_def ModifyEvent_def
  dest!: get_now_upd sys_upd wait_events_upd)

lemma run_value: "prog_all C R p \<Longrightarrow> run_prog K p w = Some (Inr v, w') \<Longrightarrow> R v"
proof (induction p arbitrary: w)
  case (CallAsync f first p)
  then show ?case by fastforce
next
  case (CallDelay d f p)
  then show ?case by fastforce
qed (fastforce split: prod.splits)+

lemma call_value:
  assumes "fns_ok C R w" and "call_task K i w = Some (Inr v, w')"
  shows "R v \<or> v = 0"
proof -
  obtain f t where l: "task_lock (tasks w i) = (f, t)" by fastforce
  show ?thesis
  proof (cases f)
    case None
    with assms l show ?thesis by (simp add: call_task_def task_call_def)
  next
    case (Some c)
    with assms l obtain w1 w2 where run: "run_closure K c w1 = Some (Inr v, w2)"
      by (auto simp: call_task_def task_call_def call_body_def)
    have "closure_all C R c"
      using assms(1) task_fn_lock [OF l [unfolded Some]] by (auto simp: fns_ok_def dest: spec [of _ i])
    with run show ?thesis by (cases c) (auto simp: run_closure_def dest: run_value)
  qed
qed

section \<open>The flush as one pass\<close>

text \<open>The specification: call the due tasks one after the other, and put those that ask for it
  back among the later entries.\<close>

fun run_due ::
  "'k kernel \<Rightarrow> u64 \<Rightarrow> (u64 \<times> nat) list \<Rightarrow> (u64 \<times> nat) list \<Rightarrow> ('e, 'k) poller \<Rightarrow>
   ('e, 'k, (u64 \<times> nat) list) outcome" where
  "run_due K now [] later w = Some (Inr later, w)"
| "run_due K now ((k, i) # due) later w =
     call_task K i w \<bind>
       (\<lambda>(r, w1). case r of
          Inl OtherException \<Rightarrow> Some (Inl OtherException, w1)
        | Inl _ \<Rightarrow> run_due K now due later w1
        | Inr d \<Rightarrow>
            run_due K now due (if d = 0 then later else mm_emplace (d + now) i later) w1)"

abbreviation short :: "u64 \<Rightarrow> bool" where "short v \<equiv> v < 2 ^ 63"

lemma short_plus:
  assumes "short (d :: u64)" and "short now" and "d \<noteq> 0"
  shows "now < d + now"
proof -
  have "unat d < 2 ^ 63" "unat now < 2 ^ 63" using assms by (simp_all add: word_less_nat_alt)
  then have "unat (d + now) = unat d + unat now" by (simp add: unat_word_ariths)
  then show ?thesis using assms(3) by (simp add: word_less_nat_alt unat_gt_0)
qed

lemma mm_emplace_behind:
  "\<forall>(k', j) \<in> set xs. k' \<le> k \<Longrightarrow> mm_emplace k i (xs @ ys) = xs @ mm_emplace k i ys"
  by (induction xs) (auto simp: not_less)

lemma mm_emplace_set: "set (mm_emplace k i m) = insert (k, i) (set m)"
  by (induction k i m rule: mm_emplace.induct) auto

lemma mm_emplace_sorted: "sorted (map fst m) \<Longrightarrow> sorted (map fst (mm_emplace k i m))"
  by (induction k i m rule: mm_emplace.induct) (force simp: mm_emplace_set)+

definition all_due :: "u64 \<Rightarrow> (u64 \<times> nat) list \<Rightarrow> bool" where
  "all_due now m \<longleftrightarrow> (\<forall>k \<in> fst ` set m. k \<le> now)"

definition all_later :: "u64 \<Rightarrow> (u64 \<times> nat) list \<Rightarrow> bool" where
  "all_later now m \<longleftrightarrow> (\<forall>k \<in> fst ` set m. now < k)"

lemma all_later_emplace:
  "all_later now m \<Longrightarrow> now < k \<Longrightarrow> all_later now (mm_emplace k i m)"
  by (simp add: all_later_def mm_emplace_set)

lemma flush_loop_run_due:
  assumes "fns_ok C short w" and "short now" and "all_due now due" and "all_later now later"
  shows "flush_loop K now [] (due @ later) w = run_due K now due later w"
  using assms
proof (induction due arbitrary: later w)
  case Nil
  then show ?case
    by (subst flush_loop.simps) (auto simp: all_later_def split: list.splits)
next
  case (Cons e due)
  obtain k i where e: "e = (k, i)" by (cases e)
  have due: "all_due now due" "k \<le> now" using Cons.prems e by (auto simp: all_due_def)
  have step: "flush_loop K now [] (due @ later') w1 = run_due K now due later' w1"
    if "call_task K i w = Some (r, w1)" "all_later now later'" for r w1 later'
    using Cons.IH [OF fns.call [OF Cons.prems(1) that(1)] Cons.prems(2) due(1) that(2)] .
  show ?case
  proof (cases "call_task K i w")
    case None
    with e due(2) show ?thesis by (subst flush_loop.simps) (simp add: not_less)
  next
    case (Some y)
    obtain r w1 where y: "y = (r, w1)" by (cases y)
    note call = Some [unfolded y]
    show ?thesis
    proof (cases r)
      case (Inl x)
      with e due(2) call step [OF call Cons.prems(4)] show ?thesis
        by (subst flush_loop.simps) (auto simp: not_less split: exc.splits)
    next
      case (Inr d)
      show ?thesis
      proof (cases "d = 0")
        case True
        with e due(2) call Inr step [OF call Cons.prems(4)] show ?thesis
          by (subst flush_loop.simps) (auto simp: not_less)
      next
        case False
        then have lt: "now < d + now"
          using call_value [OF Cons.prems(1) call [unfolded Inr]] Cons.prems(2) short_plus by blast
        have "mm_emplace (d + now) i (due @ later) = due @ mm_emplace (d + now) i later"
          using due(1) lt by (intro mm_emplace_behind) (fastforce simp: all_due_def)
        moreover have "\<not> d + now < k" "\<not> now < k" using lt due(2) by (simp_all add: not_less)
        ultimately show ?thesis
          using e call Inr False step [OF call all_later_emplace [OF Cons.prems(4) lt]]
          by (subst flush_loop.simps) simp
      qed
    qed
  qed
qed

lemma run_due_result:
  assumes "pipe_live K \<mu> \<nu>" and "fns_ok C short w" and "short now"
    and "all_later now later" and "sorted (map fst later)"
  shows "\<exists>r w'. run_due K now due later w = Some (r, w') \<and>
    (\<exists>ss. started w' = started w @ ss \<and> subseq ss (map snd due)) \<and>
    (case r of Inl x \<Rightarrow> x = OtherException
     | Inr m \<Rightarrow> all_later now m \<and> sorted (map fst m))"
  using assms(2-)
proof (induction due arbitrary: later w)
  case Nil
  then show ?case by simp
next
  case (Cons e due)
  obtain k i where e: "e = (k, i)" by (cases e)
  obtain r w1 where call: "call_task K i w = Some (r, w1)" using call_returns [OF assms(1)] by blast
  have s1: "\<exists>s1. started w1 = started w @ s1 \<and> (s1 = [] \<or> s1 = [i])"
    using call_task_frame [OF call] by auto
  have ok: "fns_ok C short w1" using fns.call [OF Cons.prems(1) call] .
  show ?case
  proof (cases "r = Inl OtherException")
    case True
    with e call s1 show ?thesis by (auto intro: exI [of _ "[i]"])
  next
    case False
    define later' where "later' = (case r of Inl _ \<Rightarrow> later | Inr d \<Rightarrow>
      if d = 0 then later else mm_emplace (d + now) i later)"
    have "now < d + now" if "r = Inr d" "d \<noteq> 0" for d
      using call_value [OF Cons.prems(1) call [unfolded that(1)]] that short_plus Cons.prems(2) by blast
    then have "all_later now later'" "sorted (map fst later')"
      using Cons.prems(3,4)
      by (auto simp: later'_def all_later_emplace mm_emplace_sorted split: sum.splits)
    from Cons.IH [OF ok Cons.prems(2) this] obtain q w' ss where
      q: "run_due K now due later' w1 = Some (q, w')" "started w' = started w1 @ ss"
        "subseq ss (map snd due)"
        "case q of Inl x \<Rightarrow> x = OtherException | Inr m \<Rightarrow> all_later now m \<and> sorted (map fst m)"
      by blast
    have "run_due K now (e # due) later w = run_due K now due later' w1"
      using e call False by (auto simp: later'_def split: sum.splits exc.splits)
    moreover obtain s1 where "started w1 = started w @ s1" "s1 = [] \<or> s1 = [i]" using s1 by blast
    then have "started w' = started w @ (s1 @ ss)" "subseq (s1 @ ss) (map snd (e # due))"
      using q(2,3) e by auto
    ultimately show ?thesis using q(1,4) by (intro exI [of _ q] exI [of _ w']) auto
  qed
qed

definition due_now :: "u64 \<Rightarrow> ('e, 'k) poller \<Rightarrow> (u64 \<times> nat) list" where
  "due_now now w = takeWhile (\<lambda>(k, i). k \<le> now) (delay_tasks w)"

definition due_later :: "u64 \<Rightarrow> ('e, 'k) poller \<Rightarrow> (u64 \<times> nat) list" where
  "due_later now w = dropWhile (\<lambda>(k, i). k \<le> now) (delay_tasks w)"

lemma due_split:
  assumes "sorted (map fst (delay_tasks w))"
  shows "delay_tasks w = due_now now w @ due_later now w" "all_due now (due_now now w)"
    "all_later now (due_later now w)" "sorted (map fst (due_later now w))"
proof -
  let ?P = "\<lambda>(k :: u64, i :: nat). k \<le> now"
  show "delay_tasks w = due_now now w @ due_later now w"
    by (simp add: due_now_def due_later_def)
  show "all_due now (due_now now w)"
    by (auto simp: all_due_def due_now_def dest!: set_takeWhileD)
  have "sorted (map fst m) \<Longrightarrow> all_later now (dropWhile ?P m)" for m
  proof (induction m)
    case (Cons e m)
    then show ?case by (cases e) (fastforce simp: all_later_def not_le)
  qed (simp add: all_later_def)
  with assms show "all_later now (due_later now w)" by (simp add: due_later_def)
  have "sorted (map fst m) \<Longrightarrow> sorted (map fst (dropWhile ?P m))" for m
    by (induction m) auto
  with assms show "sorted (map fst (due_later now w))" by (simp add: due_later_def)
qed

lemma flush_run_due:
  assumes "fns_ok C short w" and "short now" and "sorted (map fst (delay_tasks w))"
    and "flush_delay_tasks K now w = Some (Inr d, w')"
  shows "\<exists>m w1. run_due K now (due_now now w) (due_later now w) (w\<lparr>delay_tasks := []\<rparr>) = Some (Inr m, w1) \<and>
    w' = w1\<lparr>delay_tasks := m\<rparr>"
proof -
  have "fns_ok C short (w\<lparr>delay_tasks := []\<rparr>)" using assms(1) by (simp add: fns_ok_def)
  from flush_loop_run_due [OF this assms(2) due_split(2,3) [OF assms(3)]] due_split(1) [OF assms(3), of now] assms(4)
  obtain r w1 where "run_due K now (due_now now w) (due_later now w) (w\<lparr>delay_tasks := []\<rparr>) = Some (r, w1)"
    "(case r of Inl x \<Rightarrow> Some (Inl x, w1) | Inr m \<Rightarrow> Some (Inr (case m of [] \<Rightarrow> 0 | (k, _) # _ \<Rightarrow> k - now), w1\<lparr>delay_tasks := m\<rparr>)) =
       Some (Inr d, w')"
    by (auto simp: flush_delay_tasks_def split: Option.bind_splits)
  then show ?thesis by (cases r) auto
qed

lemma flush_delay_tasks_ok:
  assumes "pipe_live K \<mu> \<nu>" and "fns_ok C short w" and "short now"
    and "sorted (map fst (delay_tasks w))"
  shows "\<exists>r w'. flush_delay_tasks K now w = Some (r, w') \<and>
    (\<exists>ss. started w' = started w @ ss \<and> subseq ss (map snd (due_now now w))) \<and>
    (case r of
       Inl x \<Rightarrow> x = OtherException
     | Inr d \<Rightarrow> sorted (map fst (delay_tasks w')) \<and> all_later now (delay_tasks w') \<and>
         (d = 0 \<longleftrightarrow> delay_tasks w' = []) \<and>
         (delay_tasks w' \<noteq> [] \<longrightarrow> unat d = unat (fst (hd (delay_tasks w'))) - unat now))"
proof -
  let ?w = "w\<lparr>delay_tasks := []\<rparr>"
  note split = due_split [OF assms(4), of now]
  have ok: "fns_ok C short ?w" using assms(2) by (simp add: fns_ok_def)
  from run_due_result [OF assms(1) ok assms(3) split(3,4)] obtain r w1 ss where
    r: "run_due K now (due_now now w) (due_later now w) ?w = Some (r, w1)"
      "started w1 = started w @ ss" "subseq ss (map snd (due_now now w))"
      "case r of Inl x \<Rightarrow> x = OtherException | Inr m \<Rightarrow> all_later now m \<and> sorted (map fst m)"
    by fastforce
  have "flush_loop K now [] (delay_tasks w) ?w = Some (r, w1)"
    using flush_loop_run_due [OF ok assms(3) split(2,3)] split(1) r(1) by simp
  then have f: "flush_delay_tasks K now w = (case r of Inl x \<Rightarrow> Some (Inl x, w1)
      | Inr m \<Rightarrow> Some (Inr (case m of [] \<Rightarrow> 0 | (k, _) # _ \<Rightarrow> k - now), w1\<lparr>delay_tasks := m\<rparr>))"
    by (simp add: flush_delay_tasks_def)
  show ?thesis
  proof (cases r)
    case (Inl x)
    with f r show ?thesis by auto
  next
    case (Inr m)
    have "k - now \<noteq> 0 \<and> unat (k - now) = unat k - unat now" if "now < k" for k
      using that by (auto simp: word_less_nat_alt unat_sub word_le_nat_alt)
    with Inr f r show ?thesis
      by (cases m) (auto simp: all_later_def)
  qed
qed

section \<open>No due task is passed over\<close>

text \<open>A task that exists and can no longer be called stays so.\<close>

definition spent :: "nat \<Rightarrow> ('e, 'k) poller \<Rightarrow> bool" where
  "spent i w \<longleftrightarrow> i < next_task w \<and> \<not> task_bool (tasks w i)"

interpretation spent: loop_invariant K "\<lambda>_. True" "\<lambda>_. True" "spent i" for K i
proof unfold_locales
  fix w w' :: "('b, 'a) poller" and f :: "'b closure option" and first j
  assume "spent i w" and "async K f first w = Some (j, w')"
  then show "spent i w'"
    by (auto simp: spent_def dest!: async_upd elim!: same_but_kernE)
next
  fix w :: "('b, 'a) poller" and j and c :: "'b closure" and t
  assume "spent i w" and "task_lock (tasks w j) = (Some c, t)"
  then show "closure_all (\<lambda>_. True) (\<lambda>_. True) c \<and> spent i ((put_task j t w)\<lparr>started := started w @ [j]\<rparr>)"
    by (auto simp: spent_def put_task_def task_lock_def task_bool_def split: if_splits)
qed (auto simp: spent_def make_task_def put_task_def task_unlock_def ModifyEvent_def task_bool_def
  dest!: get_now_upd sys_upd AddEvent_upd DelEvent_upd wait_events_upd)

interpretation known: loop_invariant K "\<lambda>_. True" "\<lambda>_. True" "\<lambda>w. i < next_task w" for K i
proof unfold_locales
  fix w w' :: "('b, 'a) poller" and f :: "'b closure option" and first j
  assume "i < next_task w" and "async K f first w = Some (j, w')"
  then show "i < next_task w'"
    by (auto dest!: async_upd elim!: same_but_kernE)
qed (auto simp: make_task_def put_task_def ModifyEvent_def
  dest!: get_now_upd sys_upd AddEvent_upd DelEvent_upd wait_events_upd)

lemma call_task_starts:
  assumes "call_task K i w = Some (r, w')"
  shows "started w' = started w @ [i] \<or> (started w' = started w \<and> r = Inr 0 \<and> \<not> task_bool (tasks w' i))"
proof -
  obtain f t where l: "task_lock (tasks w i) = (f, t)" by fastforce
  show ?thesis
  proof (cases f)
    case None
    then have "\<not> task_bool (tasks w i)" using l by (auto simp: task_lock_def task_bool_def use_count_def split: if_splits)
    with assms l None show ?thesis by (simp add: call_task_def task_call_def)
  next
    case (Some c)
    with assms l obtain w1 where
      "run_closure K c ((put_task i t w)\<lparr>started := started w @ [i]\<rparr>) = Some (r, w1)"
      "w' = put_task i (task_unlock (tasks w1 i)) w1"
      by (auto simp: call_task_def task_call_def call_body_def put_task_def)
    then show ?thesis using run_closure_frame by (fastforce simp: put_task_def)
  qed
qed

lemma mm_emplace_mset: "mset (mm_emplace k i m) = add_mset (k, i) (mset m)"
  by (induction k i m rule: mm_emplace.induct) auto

text \<open>
  Every due task is called unless it has been cancelled, and what is kept are the later entries and
  those that have asked to be called again.
\<close>

lemma run_due_complete:
  "run_due K now due later w = Some (Inr m, w') \<Longrightarrow> \<forall>i \<in> snd ` set due. i < next_task w \<Longrightarrow>
    (\<forall>j. spent j w \<longrightarrow> spent j w') \<and>
    (\<exists>ss again. started w' = started w @ ss \<and> (\<forall>i \<in> snd ` set due. i \<in> set ss \<or> \<not> task_bool (tasks w' i)) \<and>
      mset m = mset later + mset again \<and> subseq (map snd again) ss)"
proof (induction due arbitrary: later w)
  case Nil
  then show ?case by (auto intro: exI [of _ "[]"])
next
  case (Cons e due)
  obtain k i where e: "e = (k, i)" by (cases e)
  with Cons.prems(1) obtain r w1 where call: "call_task K i w = Some (r, w1)"
    by (auto split: Option.bind_splits)
  define later' where "later' = (case r of Inl _ \<Rightarrow> later | Inr d \<Rightarrow>
    if d = 0 then later else mm_emplace (d + now) i later)"
  have run: "run_due K now due later' w1 = Some (Inr m, w')"
    using Cons.prems(1) call e by (auto simp: later'_def split: sum.splits exc.splits)
  have "\<forall>j \<in> snd ` set due. j < next_task w1"
    using Cons.prems(2) known.call [OF _ call] by simp
  from Cons.IH [OF run this] obtain ss again where
    keep: "\<forall>j. spent j w1 \<longrightarrow> spent j w'" and
    s: "started w' = started w1 @ ss" "\<forall>j \<in> snd ` set due. j \<in> set ss \<or> \<not> task_bool (tasks w' j)"
      "mset m = mset later' + mset again" "subseq (map snd again) ss" by blast
  have "i < next_task w1" using Cons.prems(2) e known.call [OF _ call] by simp
  with keep have i: "\<not> task_bool (tasks w1 i) \<Longrightarrow> \<not> task_bool (tasks w' i)" by (auto simp: spent_def)
  have "\<forall>j. spent j w \<longrightarrow> spent j w'" using keep spent.call [OF _ call] by blast
  moreover have "\<exists>ss again. started w' = started w @ ss \<and>
      (\<forall>j \<in> snd ` set (e # due). j \<in> set ss \<or> \<not> task_bool (tasks w' j)) \<and>
      mset m = mset later + mset again \<and> subseq (map snd again) ss"
  proof (cases "started w1 = started w @ [i]")
    case True
    obtain here where here: "mset later' = mset later + mset here" "subseq (map snd here) [i]"
    proof (cases "later' = later")
      case True
      then show ?thesis using that [of "[]"] by simp
    next
      case False
      then obtain d where "later' = mm_emplace (d + now) i later"
        by (auto simp: later'_def split: sum.splits if_splits)
      then show ?thesis using that [of "[(d + now, i)]"] by (simp add: mm_emplace_mset)
    qed
    have "subseq (map snd (here @ again)) (i # ss)"
      using list_emb_append_mono [OF here(2) s(4)] by simp
    with s here(1) e True show ?thesis by (intro exI [of _ "i # ss"] exI [of _ "here @ again"]) auto
  next
    case False
    with call_task_starts [OF call] have "started w1 = started w" "later' = later" "\<not> task_bool (tasks w1 i)"
      by (auto simp: later'_def)
    with s i e show ?thesis by (intro exI [of _ ss] exI [of _ again]) auto
  qed
  ultimately show ?case by blast
qed

section \<open>Properties\<close>

text \<open>
  Property C31. The in-place loop over the multimap, which erases behind itself and re-inserts what
  wants to run again, is one pass over the tasks that were due when it began: a task put back
  is never reached again in the same flush, for delays and times below \<open>2 ^ 63\<close>.
\<close>

theorem flush_single_pass:
  assumes "fns_ok C short w" and "short now" and "sorted (map fst (delay_tasks w))"
  shows "flush_loop K now [] (delay_tasks w) w = run_due K now (due_now now w) (due_later now w) w"
  using flush_loop_run_due [OF assms(1,2) due_split(2,3) [OF assms(3)]] due_split(1) [OF assms(3), of now]
  by simp


text \<open>A poller with two due tasks, the second of them cancelled, and one that is not due.\<close>

definition delay_demo :: "(string, demo_state) poller" where
  "delay_demo = demo_poller\<lparr>delay_tasks := [(50, 0), (60, 1), (200, 2)], next_task := 3,
     tasks := (\<lambda>i. if i = 1 then task_cancel (task_new (Some (User Throw)))
                   else task_new (Some (User (Emit ''tick'' (Return 30)))))\<rparr>"

lemma delay_demo_ok: "fns_ok C short delay_demo"
  by (auto simp: fns_ok_def delay_demo_def demo_poller_def task_new_def task_cancel_def)

lemma delay_demo_due:
  "due_now 100 delay_demo = [(50, 0), (60, 1)]" "due_later 100 delay_demo = [(200, 2)]"
  "sorted (map fst (delay_tasks delay_demo))"
  by (simp_all add: due_now_def due_later_def delay_demo_def)

lemma flush_single_pass_witness:
  "flush_loop demo_kernel 100 [] [(50, 0), (60, 1), (200, 2)] delay_demo =
   run_due demo_kernel 100 [(50, 0), (60, 1)] [(200, 2)] delay_demo"
  using flush_single_pass [OF delay_demo_ok [of "\<lambda>_. True"] _ delay_demo_due(3), of 100 demo_kernel]
  by (simp add: delay_demo_due) (simp add: delay_demo_def)


end
