(* ===== verification/PollerSafety.thy ===== *)
theory PollerSafety
  imports PollerDelay TaskExecutor
begin

text \<open>
  Safety of the event poller over its whole history: cancelled tasks, the order of tasks, wake-ups,
  registered descriptors and shutdown.
\<close>

section \<open>Cancelled tasks never run\<close>

text \<open>
  Property C30. Once a task has been cancelled and no call of it is in progress, it never runs
  again, whatever its users and the loop do: it is skipped where it is still queued, as a task or
  as a delay task.
\<close>

theorem cancelled_never_runs:
  assumes "poller_steps K (\<lambda>_. True) (\<lambda>_. True) w w'"
    and "i < next_task w" and "\<not> strong_task (tasks w i)" and "calls (tasks w i) = 0"
  shows "count_list (started w') i = count_list (started w) i \<and> \<not> task_bool (tasks w' i)"
  using gone.steps [OF assms(1), of i "count_list (started w) i"] assms(2-)
  by (auto simp: gone_def task_bool_def)

lemma cancelled_never_runs_witness:
  "\<exists>w'. poller_steps demo_kernel (\<lambda>_. True) (\<lambda>_. True) delay_demo w' \<and>
     trace w' = [''x''] \<and> count_list (started w') 1 = 0"
proof -
  let ?p = "Emit ''x'' (CallCancel 0 (Return 0))"
  let ?w = "snd (the (run_prog demo_kernel ?p delay_demo))"
  have s: "poller_steps demo_kernel (\<lambda>_. True) (\<lambda>_. True) delay_demo ?w"
    by (rule poller_steps.outside [OF poller_steps.start, where p = ?p and r = "Inr 0"]) simp_all
  have "count_list (started ?w) 1 = count_list (started delay_demo) 1"
    using cancelled_never_runs [OF s, of 1]
    by (simp add: delay_demo_def task_new_def task_cancel_def)
  then show ?thesis using s by (intro exI [of _ ?w])
    (simp add: put_task_def delay_demo_def demo_poller_def)
qed

section \<open>The order of tasks\<close>

abbreviation emit_task :: "'e \<Rightarrow> 'e closure task" where
  "emit_task e \<equiv> task_new (Some (User (Emit e (Return 0))))"

text \<open>
  The poller is an executor: \<open>waiting\<close> are the functions of its queued tasks, none of which was
  cancelled. What has run stays as it is.
\<close>

definition waiting :: "('e, 'k) poller \<Rightarrow> 'e closure option list \<Rightarrow> bool" where
  "waiting w fs \<longleftrightarrow> list_all2 (\<lambda>i f. tasks w i = task_new f \<and> i < next_task w) (task_list w) fs"

lemma async_waiting:
  assumes "pipe_live K \<mu> \<nu>" and "waiting w fs"
  shows "\<exists>i w'. async K f b w = Some (i, w') \<and>
    waiting w' (if b then f # fs else fs @ [f]) \<and> trace w' = trace w"
proof -
  obtain i w' where a: "async K f b w = Some (i, w')" using async_returns [OF assms(1)] by blast
  from async_upd [OF a] obtain k e where w': "i = next_task w" "w' = w\<lparr>next_task := Suc i,
      tasks := (tasks w)(i := task_new f),
      task_list := (if b then i # task_list w else task_list w @ [i]), kern := k, cerrno := e\<rparr>"
    by (auto elim!: same_but_kernE)
  have "list_all2 (\<lambda>j f. tasks w' j = task_new f \<and> j < next_task w') (task_list w) fs"
    using assms(2) unfolding waiting_def by (rule list_all2_mono) (use w' in auto)
  then have "waiting w' (if b then f # fs else fs @ [f])"
    using w' by (cases b) (auto simp: waiting_def intro!: list_all2_appendI)
  with a w' show ?thesis by auto
qed

interpretation exec: task_executor "Async K" "AsyncFirst K"
    "\<lambda>w fs. pipe_live K \<mu> \<nu> \<and> waiting w fs \<and> trace w = t" for K \<mu> \<nu> t
  by unfold_locales
    (auto simp: Async_def AsyncFirst_def dest: async_waiting [where b = False, simplified]
      async_waiting [where b = True, simplified])

text \<open>A series of \<open>Async\<close> and \<open>AsyncFirst\<close> calls, each with the effect of its task.\<close>

abbreviation emit_fn :: "'e \<Rightarrow> 'e closure option" where
  "emit_fn e \<equiv> Some (User (Emit e (Return 0)))"

definition queue_one :: "'k kernel \<Rightarrow> bool \<times> 'e \<Rightarrow> ('e, 'k) poller \<Rightarrow> ('e, 'k) poller option" where
  "queue_one K c = queue_by (Async K) (AsyncFirst K) (apsnd emit_fn c)"

lemma queue_all: "iter_opt (queue_one K) cs = iter_opt (queue_by (Async K) (AsyncFirst K)) (map (apsnd emit_fn) cs)"
  by (induction cs) (simp_all add: queue_one_def ext)

lemma call_emit:
  assumes "tasks w i = emit_task e"
  shows "call_task K i w =
    Some (Inr 0, w\<lparr>started := started w @ [i], trace := trace w @ [e]\<rparr>)"
proof -
  have "(tasks w)(i := tasks w i) = tasks w" by simp
  then show ?thesis
    using assms by (simp add: call_task_def task_call_def task_new_def task_lock_def use_count_def
      call_body_def run_closure_def put_task_def task_unlock_def)
qed

lemma run_emits:
  "list_all2 (\<lambda>i e. tasks w i = emit_task e) is es \<Longrightarrow>
   run_task_list K is w = Some (Inr (), w\<lparr>started := started w @ is, trace := trace w @ es\<rparr>)"
proof (induction "is" arbitrary: es w)
  case (Cons i "is")
  then obtain e es' where es: "es = e # es'" "tasks w i = emit_task e"
    "list_all2 (\<lambda>i e. tasks w i = emit_task e) is es'"
    by (auto simp: list_all2_Cons1)
  let ?w = "w\<lparr>started := started w @ [i], trace := trace w @ [e]\<rparr>"
  have "run_task_list K is ?w = Some (Inr (), ?w\<lparr>started := started ?w @ is, trace := trace ?w @ es'\<rparr>)"
    by (rule Cons.IH) (use es in simp)
  then show ?case using es by (simp add: call_emit)
qed simp

definition queued :: "('e, 'k) poller \<Rightarrow> 'e list \<Rightarrow> bool" where
  "queued w es \<longleftrightarrow> waiting w (map emit_fn es)"

lemma queued_all:
  assumes "pipe_live K \<mu> \<nu>" and "task_list w = []"
  shows "\<exists>w'. iter_opt (queue_one K) cs w = Some w' \<and> trace w' = trace w \<and> queued w' (run_order cs)"
  using exec.calls_in_order [of K \<mu> \<nu> w "trace w" "map (apsnd emit_fn) cs"] assms
  by (auto simp: queue_all queued_def run_order_map waiting_def)

lemma queued_emits:
  "queued w es \<Longrightarrow> list_all2 (\<lambda>i e. tasks w i = emit_task e) (task_list w) es"
  by (auto simp: queued_def waiting_def list_all2_map2 elim!: list_all2_mono)



end
