(* ===== verification/PollerWake.thy ===== *)
theory PollerWake
  imports PollerSafety
begin

text \<open>
  Wake-ups: the pipe and the edge-triggered \<open>epoll\<close> entry of its read end never lose a queued task;
  what the poller has registered is what the kernel watches; and a shutdown ends the loop.
\<close>

section \<open>The kernel's side\<close>

text \<open>
  What \<^verbatim>\<open>pipe(7)\<close> and \<^verbatim>\<open>epoll(7)\<close> promise, for predicates \<open>full\<close> and \<open>armed\<close> of the kernel state
  (\<open>armed\<close>: the next \<open>epoll_wait\<close>s will report the read end \<open>rfd\<close>). A write of a byte that succeeds
  arms the entry, edge triggered or not; it fails only when it is interrupted or the pipe is
  full. A read that is not interrupted leaves the pipe not full. An \<open>epoll_wait\<close> reports an
  armed entry or leaves it armed. No other call fills the pipe or disarms the entry.
\<close>

definition quiet :: "('k \<Rightarrow> bool) \<Rightarrow> ('k \<Rightarrow> bool) \<Rightarrow> 'k \<Rightarrow> 'k \<Rightarrow> bool" where
  "quiet full armed k k' \<longleftrightarrow> (armed k \<longrightarrow> armed k') \<and> (full k' \<longrightarrow> full k)"

definition write_law :: "'k kernel \<Rightarrow> ('k \<Rightarrow> bool) \<Rightarrow> ('k \<Rightarrow> bool) \<Rightarrow> bool" where
  "write_law K full armed \<longleftrightarrow> (\<forall>k r e k'. sys_write K k = ((r, e), k') \<longrightarrow>
     (r = 1 \<and> armed k') \<or> (r = -1 \<and> (e = EINTR \<or> full k) \<and> quiet full armed k k'))"

definition read_law :: "'k kernel \<Rightarrow> ('k \<Rightarrow> bool) \<Rightarrow> bool" where
  "read_law K full \<longleftrightarrow> (\<forall>k r e k'. sys_read K 1024 k = ((r, e), k') \<longrightarrow>
     \<not> full k' \<or> (r = -1 \<and> e = EINTR))"

definition quiet_law :: "'k kernel \<Rightarrow> int \<Rightarrow> ('k \<Rightarrow> bool) \<Rightarrow> ('k \<Rightarrow> bool) \<Rightarrow> bool" where
  "quiet_law K rfd full armed \<longleftrightarrow>
     (\<forall>c fd m k r k'. fd \<noteq> rfd \<and> sys_ctl K c fd m k = (r, k') \<longrightarrow> quiet full armed k k') \<and>
     (\<forall>k t k'. sys_now K k = (t, k') \<longrightarrow> quiet full armed k k') \<and>
     (\<forall>k r k'. sys_input K k = (r, k') \<longrightarrow> quiet full armed k k')"

definition wait_law :: "'k kernel \<Rightarrow> int \<Rightarrow> ('k \<Rightarrow> bool) \<Rightarrow> ('k \<Rightarrow> bool) \<Rightarrow> bool" where
  "wait_law K rfd full armed \<longleftrightarrow>
     (\<forall>d k n e evs k'. sys_wait K d EPOLL_SIZE k = (((n, e), evs), k') \<longrightarrow>
        (full k' \<longrightarrow> full k) \<and> (armed k \<longrightarrow> armed k' \<or> rfd \<in> fst ` set (take (nat n) evs)))"

definition pipe_laws :: "'k kernel \<Rightarrow> int \<Rightarrow> ('k \<Rightarrow> bool) \<Rightarrow> ('k \<Rightarrow> bool) \<Rightarrow> bool" where
  "pipe_laws K rfd full armed \<longleftrightarrow>
     write_law K full armed \<and> read_law K full \<and> quiet_law K rfd full armed \<and> wait_law K rfd full armed"

section \<open>The invariant\<close>

text \<open>The pipe's own entry stays in place as long as users leave its descriptor alone.\<close>

definition safe :: "int \<Rightarrow> ('e, 'k) poller \<Rightarrow> bool" where
  "safe rfd w \<longleftrightarrow> fns_ok (\<lambda>fd. fd \<noteq> rfd) (\<lambda>_. True) w \<and> event_map w rfd = Some PipeCB"

lemma event_map_frames:
  "async K f first w = Some (i, w') \<Longrightarrow> event_map w' = event_map w"
  "get_now K w = (t, w') \<Longrightarrow> event_map w' = event_map w"
  "sys call w = (r, w') \<Longrightarrow> event_map w' = event_map w"
  "wait_events K d w = (evs, w') \<Longrightarrow> event_map w' = event_map w"
  by (auto dest!: async_upd get_now_upd sys_upd wait_events_upd elim!: same_but_kernE)

lemma event_map_simps:
  "event_map (put_task i t w) = event_map w" "event_map (snd (make_task f w)) = event_map w"
  by (simp_all add: put_task_def make_task_def)

lemma AddEvent_other: "AddEvent K fd ev cb w = (r, w') \<Longrightarrow> x \<noteq> fd \<Longrightarrow> event_map w' x = event_map w x"
  by (fastforce dest!: AddEvent_upd)

lemma DelEvent_other: "DelEvent K fd w = (s, w') \<Longrightarrow> x \<noteq> fd \<Longrightarrow> event_map w' x = event_map w x"
  by (fastforce dest!: DelEvent_upd)

interpretation safe: loop_invariant K "\<lambda>fd. fd \<noteq> rfd" "\<lambda>_. True" "safe rfd" for K rfd
proof unfold_locales
  fix w w' :: "('b, 'a) poller" and fd ev r and cb :: "'b event_cb option"
  assume *: "safe rfd w" "fd \<noteq> rfd" "pred_option (cb_all (\<lambda>fd. fd \<noteq> rfd) (\<lambda>_. True)) cb"
    "AddEvent K fd ev cb w = (r, w')"
  then show "safe rfd w'"
    unfolding safe_def using fns.add [where C = "\<lambda>fd. fd \<noteq> rfd", OF _ *(2-4)] AddEvent_other [OF *(4), of rfd] by simp
next
  fix w w' :: "('b, 'a) poller" and fd s
  assume *: "safe rfd w" "fd \<noteq> rfd" "DelEvent K fd w = (s, w')"
  then show "safe rfd w'"
    unfolding safe_def using fns.del [where C = "\<lambda>fd. fd \<noteq> rfd", OF _ *(2,3)] DelEvent_other [OF *(3), of rfd] by simp
qed (auto simp: safe_def event_map_simps event_map_frames ModifyEvent_def
  intro: fns.emit fns.input fns.clock fns.make fns.queue fns.cancel fns.modify [unfolded ModifyEvent_def]
    fns.unlock fns.emplace fns.delay fns.exit fns.read fns.take_list fns.wait fns.stale fns.callbacks
  dest: fns.lock)

definition wake :: "('k \<Rightarrow> bool) \<Rightarrow> ('k \<Rightarrow> bool) \<Rightarrow> ('e, 'k) poller \<Rightarrow> bool" where
  "wake full armed w \<longleftrightarrow>
     (task_list w \<noteq> [] \<longrightarrow> armed (kern w)) \<and> (full (kern w) \<longrightarrow> armed (kern w))"

lemma quiet_trans: "quiet full armed a b \<Longrightarrow> quiet full armed b c \<Longrightarrow> quiet full armed a c"
  by (auto simp: quiet_def)

lemma pipe_Write_arms:
  assumes law: "write_law K full armed" and "pipe_Write K w = Some (r, w')"
    and "full (kern w) \<longrightarrow> armed (kern w)"
  shows "armed (kern w')"
proof -
  define I where "I v \<longleftrightarrow> quiet full armed (kern w) (kern v) \<or> armed (kern v)"
    for v :: "('b, 'a) poller"
  have start: "I w" by (simp add: I_def quiet_def)
  have step: "I v' \<and> (r = 1 \<longrightarrow> armed (kern v')) \<and>
      (r \<noteq> 1 \<longrightarrow> r = -1 \<and> (cerrno v' = EINTR \<or> full (kern v)) \<and> quiet full armed (kern v) (kern v'))"
    if v: "I v" "sys (sys_write K) v = (r, v')" for v r v'
  proof -
    obtain q e k where q: "sys_write K (kern v) = ((q, e), k)" by (metis surj_pair)
    with law have "(q = 1 \<and> armed k) \<or>
        (q = -1 \<and> (e = EINTR \<or> full (kern v)) \<and> quiet full armed (kern v) k)"
      unfolding write_law_def by blast
    with q v show ?thesis
      by (auto simp: sys_def I_def quiet_def)
  qed
  obtain v where v: "I v" "sys (sys_write K) v = (r, w')" "\<not> (r = -1 \<and> cerrno w' = EINTR)"
    using retry_eintr_result [where I = I, OF assms(2) [unfolded pipe_Write_def] start] step by force
  show ?thesis
  proof (cases "r = 1")
    case True
    with step [OF v(1,2)] show ?thesis by simp
  next
    case False
    with step [OF v(1,2)] v(3) have "full (kern v)" "quiet full armed (kern v) (kern w')" by auto
    with v(1) assms(3) show ?thesis by (auto simp: I_def quiet_def)
  qed
qed

lemma async_arms:
  assumes "write_law K full armed" and "async K f first w = Some (i, w')"
    and "full (kern w) \<longrightarrow> armed (kern w)"
  shows "wake full armed w'"
proof -
  define w1 where "w1 = w\<lparr>next_task := Suc (next_task w), tasks := (tasks w)(next_task w := task_new f),
    task_list := (if first then next_task w # task_list w else task_list w @ [next_task w])\<rparr>"
  have "\<exists>r. pipe_Write K w1 = Some (r, w')"
    using assms(2) by (cases first) (auto simp: async_def make_task_def put_task_def Let_def w1_def)
  moreover have "kern w1 = kern w" by (simp add: w1_def)
  ultimately obtain r where "kern w1 = kern w" "pipe_Write K w1 = Some (r, w')" by blast
  with pipe_Write_arms [OF assms(1), of w1 r w'] assms(3) have "armed (kern w')" by simp
  then show ?thesis by (simp add: wake_def)
qed

lemma sys_kern: "sys call w = (r, w') \<Longrightarrow> \<exists>x. call (kern w) = (x, kern w')"
  by (auto simp: sys_def split: prod.splits)

lemma wake_quiet:
  "wake full armed w \<Longrightarrow> quiet full armed (kern w) (kern w') \<Longrightarrow> task_list w' = task_list w \<Longrightarrow>
   wake full armed w'"
  by (auto simp: wake_def quiet_def)

lemma wake_frame:
  "wake full armed w \<Longrightarrow> kern w' = kern w \<Longrightarrow> task_list w' = task_list w \<Longrightarrow> wake full armed w'"
  by (simp add: wake_def)

lemma ctl_quiet:
  "quiet_law K rfd full armed \<Longrightarrow> fd \<noteq> rfd \<Longrightarrow> sys (sys_ctl K c fd m) w = (r, w') \<Longrightarrow>
   quiet full armed (kern w) (kern w') \<and> task_list w' = task_list w"
proof -
  assume law: "quiet_law K rfd full armed" "fd \<noteq> rfd" and s: "sys (sys_ctl K c fd m) w = (r, w')"
  obtain x where "sys_ctl K c fd m (kern w) = (x, kern w')" using sys_kern [OF s] by blast
  with law have "quiet full armed (kern w) (kern w')" unfolding quiet_law_def by blast
  with sys_upd [OF s] show ?thesis by auto
qed

lemma AddEvent_quiet:
  assumes "quiet_law K rfd full armed" and "fd \<noteq> rfd" and "AddEvent K fd ev cb w = (r, w')"
  shows "quiet full armed (kern w) (kern w') \<and> task_list w' = task_list w"
proof (cases cb)
  case None
  with assms(3) show ?thesis by (simp add: AddEvent_def quiet_def)
next
  case (Some c)
  obtain q w1 where "sys (sys_ctl K CTL_ADD fd (TO_EPOLL ev)) w = (q, w1)" by fastforce
  with assms(3) Some ctl_quiet [OF assms(1,2) this] show ?thesis
    by (auto simp: AddEvent_def split: if_splits)
qed

lemma DelEvent_quiet:
  assumes "quiet_law K rfd full armed" and "fd \<noteq> rfd" and "DelEvent K fd w = (s, w')"
  shows "quiet full armed (kern w) (kern w') \<and> task_list w' = task_list w"
proof (cases "event_map w fd")
  case None
  with assms(3) show ?thesis by (simp add: DelEvent_def quiet_def)
next
  case (Some c)
  obtain q w1 where "sys (sys_ctl K CTL_DEL fd 0) w = (q, w1)" by fastforce
  with assms(3) Some ctl_quiet [OF assms(1,2) this] show ?thesis
    by (auto simp: DelEvent_def Let_def split: if_splits)
qed

definition awake ::
  "'k kernel \<Rightarrow> int \<Rightarrow> ('k \<Rightarrow> bool) \<Rightarrow> ('k \<Rightarrow> bool) \<Rightarrow> ('e, 'k) poller \<Rightarrow> bool" where
  "awake K rfd full armed w \<longleftrightarrow> pipe_laws K rfd full armed \<and> safe rfd w \<and> wake full armed w"

lemma awakeI:
  "awake K rfd full armed w \<Longrightarrow> safe rfd w' \<Longrightarrow> wake full armed w' \<Longrightarrow> awake K rfd full armed w'"
  by (simp add: awake_def)

lemma awakeD:
  assumes "awake K rfd full armed w"
  shows "safe rfd w" "wake full armed w" "write_law K full armed" "quiet_law K rfd full armed"
    "read_law K full" "wait_law K rfd full armed" "full (kern w) \<longrightarrow> armed (kern w)"
  using assms by (simp_all add: awake_def pipe_laws_def wake_def)

interpretation awake: flush_invariant K "\<lambda>fd. fd \<noteq> rfd" "\<lambda>_. True" "awake K rfd full armed"
  for K rfd full armed
proof unfold_locales
  fix w :: "('b, 'a) poller" and es
  assume a: "awake K rfd full armed w"
  show "awake K rfd full armed (w\<lparr>trace := es\<rparr>)"
    by (rule awakeI [OF a]) (auto intro: safe.emit wake_frame awakeD [OF a])
next
  fix w :: "('b, 'a) poller" and n e k
  assume a: "awake K rfd full armed w" and i: "sys_input K (kern w) = ((n, e), k)"
  have "quiet full armed (kern w) k" using awakeD(4) [OF a] i by (auto simp: quiet_law_def)
  then show "awake K rfd full armed (w\<lparr>kern := k, cerrno := e\<rparr>)"
    by (intro awakeI [OF a] safe.input [OF awakeD(1) [OF a] i] wake_quiet [OF awakeD(2) [OF a]]) simp_all
next
  fix w w' :: "('b, 'a) poller" and ms
  assume a: "awake K rfd full armed w" and n: "get_now K w = (ms, w')"
  have "quiet full armed (kern w) (kern w')" "task_list w' = task_list w"
    using awakeD(4) [OF a] n by (auto simp: quiet_law_def get_now_def split: prod.splits)
  then show "awake K rfd full armed w'"
    by (intro awakeI [OF a] safe.clock [OF awakeD(1) [OF a] n] wake_quiet [OF awakeD(2) [OF a]]) simp_all
next
  fix w w' :: "('b, 'a) poller" and f first i
  assume a: "awake K rfd full armed w" and f: "pred_option (closure_all (\<lambda>fd. fd \<noteq> rfd) (\<lambda>_. True)) f"
    and q: "async K f first w = Some (i, w')"
  show "awake K rfd full armed w'"
    using awakeI [OF a safe.queue [OF awakeD(1) [OF a] f q] async_arms [OF awakeD(3) [OF a] q awakeD(7) [OF a]]] .
next
  fix w w' :: "('b, 'a) poller" and fd cb ev r
  assume a: "awake K rfd full armed w" and f: "fd \<noteq> rfd"
    and c: "pred_option (cb_all (\<lambda>fd. fd \<noteq> rfd) (\<lambda>_. True)) cb" and q: "AddEvent K fd ev cb w = (r, w')"
  show "awake K rfd full armed w'"
    using awakeI [OF a safe.add [OF awakeD(1) [OF a] f c q]]
      wake_quiet [OF awakeD(2) [OF a]] AddEvent_quiet [OF awakeD(4) [OF a] f q] by blast
next
  fix w w' :: "('b, 'a) poller" and fd s
  assume a: "awake K rfd full armed w" and f: "fd \<noteq> rfd" and q: "DelEvent K fd w = (s, w')"
  show "awake K rfd full armed w'"
    using awakeI [OF a safe.del [OF awakeD(1) [OF a] f q]]
      wake_quiet [OF awakeD(2) [OF a]] DelEvent_quiet [OF awakeD(4) [OF a] f q] by blast
next
  fix w w' :: "('b, 'a) poller" and fd ev r
  assume a: "awake K rfd full armed w" and f: "fd \<noteq> rfd" and q: "ModifyEvent K fd ev w = (r, w')"
  show "awake K rfd full armed w'"
    using awakeI [OF a safe.modify [OF awakeD(1) [OF a] f q]]
      wake_quiet [OF awakeD(2) [OF a]] ctl_quiet [OF awakeD(4) [OF a] f q [unfolded ModifyEvent_def]] by blast
next
  fix w :: "('b, 'a) poller" and i and c :: "'b closure" and t
  assume a: "awake K rfd full armed w" and l: "task_lock (tasks w i) = (Some c, t)"
  have "wake full armed ((put_task i t w)\<lparr>started := started w @ [i]\<rparr>)"
    using awakeD(2) [OF a] by (simp add: wake_def put_task_def)
  then show "closure_all (\<lambda>fd. fd \<noteq> rfd) (\<lambda>_. True) c \<and>
      awake K rfd full armed ((put_task i t w)\<lparr>started := started w @ [i]\<rparr>)"
    using safe.lock [OF awakeD(1) [OF a] l] awakeI [OF a] by blast
next
  fix w :: "('b, 'a) poller" and f :: "'b closure option"
  assume a: "awake K rfd full armed w" and f: "pred_option (closure_all (\<lambda>fd. fd \<noteq> rfd) (\<lambda>_. True)) f"
  show "awake K rfd full armed (snd (make_task f w))"
    by (rule awakeI [OF a safe.make [OF awakeD(1) [OF a] f]])
      (use awakeD(2) [OF a] in \<open>simp add: wake_def make_task_def put_task_def\<close>)
next
  fix w :: "('b, 'a) poller" and i and m k j
  assume a: "awake K rfd full armed w"
  show "awake K rfd full armed (put_task i (task_cancel (tasks w i)) w)"
    by (rule awakeI [OF a safe.cancel [OF awakeD(1) [OF a]]])
      (use awakeD(2) [OF a] in \<open>simp add: wake_def put_task_def\<close>)
  show "awake K rfd full armed (put_task i (task_unlock (tasks w i)) w)"
    by (rule awakeI [OF a safe.unlock [OF awakeD(1) [OF a]]])
      (use awakeD(2) [OF a] in \<open>simp add: wake_def put_task_def\<close>)
  show "awake K rfd full armed (w\<lparr>delay_tasks := mm_emplace k j (delay_tasks w)\<rparr>)"
    by (rule awakeI [OF a safe.emplace [OF awakeD(1) [OF a]]])
      (use awakeD(2) [OF a] in \<open>simp add: wake_def\<close>)
  show "awake K rfd full armed (w\<lparr>delay_tasks := m\<rparr>)"
    by (rule awakeI [OF a safe.delay [OF awakeD(1) [OF a]]])
      (use awakeD(2) [OF a] in \<open>simp add: wake_def\<close>)
  show "awake K rfd full armed (w\<lparr>exit_flag := True\<rparr>)"
    by (rule awakeI [OF a safe.exit [OF awakeD(1) [OF a]]])
      (use awakeD(2) [OF a] in \<open>simp add: wake_def\<close>)
qed

section \<open>A round of the loop\<close>

text \<open>After the pipe has been drained it is not full, so the invariant holds again, even when it did
  not before: this is what the entry being reported is for.\<close>

lemma drain_not_full:
  assumes law: "read_law K full" and d: "drain K w = Some w'"
  shows "\<not> full (kern w')"
proof -
  have "K = K \<longrightarrow> \<not> full (kern w')"
  proof (rule drain.raw_induct [where P = "\<lambda>K' w w'. K' = K \<longrightarrow> \<not> full (kern w')", OF _ d], intro impI)
    fix self K' w w'
    assume IH: "\<And>K' w w'. self K' w = Some w' \<Longrightarrow> K' = K \<longrightarrow> \<not> full (kern w')"
      and body: "pipe_Read K' 1024 w \<bind>
        (\<lambda>(_, w1). if get_uv_error (cerrno w1) \<noteq> EAGAIN then self K' w1 else Some w1) = Some w'"
      and K: "K' = K"
    from body K obtain r w1 where r: "pipe_Read K 1024 w = Some (r, w1)"
      and n: "(if get_uv_error (cerrno w1) \<noteq> EAGAIN then self K w1 else Some w1) = Some w'" by auto
    obtain v where v: "sys (sys_read K 1024) v = (r, w1)" "\<not> (r = -1 \<and> cerrno w1 = EINTR)"
      using retry_eintr_result [where I = "\<lambda>_. True", OF r [unfolded pipe_Read_def]] by auto
    obtain q e k where q: "sys_read K 1024 (kern v) = ((q, e), k)" by (metis surj_pair)
    with law have "\<not> full k \<or> (q = -1 \<and> e = EINTR)" unfolding read_law_def by blast
    with v q have "\<not> full (kern w1)" by (auto simp: sys_def)
    with n IH show "\<not> full (kern w')" by (auto split: if_splits)
  qed
  then show ?thesis by simp
qed

lemma pipe_event_awake:
  assumes laws: "pipe_laws K rfd full armed" and safe: "safe rfd w"
    and e: "on_pipe_event K w = Some (r, w')"
  shows "awake K rfd full armed w'"
proof -
  from e obtain w1 where d: "drain K w = Some w1"
    and l: "run_task_list K (task_list w1) (w1\<lparr>task_list := []\<rparr>) = Some (r, w')"
    by (auto simp: on_pipe_event_def)
  have "\<not> full (kern w1)" using laws by (intro drain_not_full [OF _ d]) (simp add: pipe_laws_def)
  moreover have "safe rfd w1" by (rule drain_inv [where I = "safe rfd", OF d safe]) (rule safe.read)
  ultimately have "awake K rfd full armed (w1\<lparr>task_list := []\<rparr>)"
    using laws safe.take_list [of rfd w1] by (simp add: awake_def wake_def)
  then show ?thesis using l by (rule awake.run_list)
qed

lemma dispatch_awake:
  assumes laws: "pipe_laws K rfd full armed" and "dispatch K es w = Some (Inr (), w')"
    and "safe rfd w" and "rfd \<notin> fst ` set es \<longrightarrow> awake K rfd full armed w"
  shows "awake K rfd full armed w'"
  using assms(2-)
proof (induction es arbitrary: w)
  case (Cons e es)
  obtain fd ev where e: "e = (fd, ev)" by (cases e)
  have awake: "awake K rfd full armed w" if "rfd \<noteq> fd" "rfd \<notin> fst ` set es"
    using Cons.prems(3) e that by simp
  show ?case
  proof (cases "event_map w fd")
    case None
    obtain r w1 where c: "sys (sys_ctl K CTL_DEL fd 0) w = (r, w1)" by fastforce
    have ne: "fd \<noteq> rfd" using None Cons.prems(2) by (auto simp: safe_def)
    have safe1: "safe rfd w1" using safe.stale [OF Cons.prems(2) None c] .
    have "awake K rfd full armed w1" if "rfd \<notin> fst ` set es"
    proof (rule awakeI [OF awake [OF ne [symmetric] that] safe1])
      have q: "quiet full armed (kern w) (kern w1) \<and> task_list w1 = task_list w"
        using laws by (intro ctl_quiet [OF _ ne c]) (simp add: pipe_laws_def)
      then show "wake full armed w1"
        using wake_quiet [OF awakeD(2) [OF awake [OF ne [symmetric] that]]] by blast
    qed
    with Cons.IH [of w1] Cons.prems(1) e None c safe1 show ?thesis by auto
  next
    case (Some cb)
    with Cons.prems(1) e obtain s w1 where c: "run_cb K cb (TO_POLLER ev) w = Some (s, w1)" by auto
    have safe1: "safe rfd w1" using safe.callback [OF Cons.prems(2) Some c] .
    have awake1: "awake K rfd full armed w1" if "rfd \<notin> fst ` set es"
    proof (cases "fd = rfd")
      case True
      then have "cb = PipeCB" using Some Cons.prems(2) by (simp add: safe_def)
      then show ?thesis using c pipe_event_awake [OF laws Cons.prems(2)] by (auto simp: run_cb_def)
    next
      case False
      then have a: "awake K rfd full armed w" using awake that by blast
      show ?thesis
      proof (cases cb)
        case PipeCB
        then show ?thesis using c pipe_event_awake [OF laws Cons.prems(2)] by (auto simp: run_cb_def)
      next
        case (UserCB f)
        then obtain r where "run_prog K (f (TO_POLLER ev)) w = Some (r, w1)"
          using c by (auto simp: run_cb_def)
        with awake.run [OF a safe.callbacks [OF Cons.prems(2) Some [unfolded UserCB]]] show ?thesis by blast
      qed
    qed
    have "dispatch K es w1 = Some (Inr (), w')"
      using Cons.prems(1) e Some c by (auto split: sum.splits exc.splits)
    with Cons.IH [of w1] safe1 awake1 show ?thesis by blast
  qed
qed simp

lemma round_awake:
  assumes "awake K rfd full armed w" and l: "loop_iter K w = Some (Inr (), w')"
  shows "awake K rfd full armed w'"
proof -
  have laws: "pipe_laws K rfd full armed" using assms(1) by (simp add: awake_def)
  from l obtain s w1 where m: "get_min_delay_ms K w = Some (s, w1)" by (auto simp: loop_iter_def)
  from l m obtain d where s: "s = Inr d" by (cases s) (auto simp: loop_iter_def)
  have a: "awake K rfd full armed w1" using awake.min_delay [OF assms(1) m] .
  obtain evs w2 where v: "wait_events K d w1 = (evs, w2)" by fastforce
  have safe2: "safe rfd w2" using safe.wait [OF awakeD(1) [OF a] v] .
  obtain n e es k where q: "sys_wait K (wait_timeout d) 1024 (kern w1) = (((n, e), es), k)"
    by (metis surj_pair)
  have w2: "kern w2 = k" "task_list w2 = task_list w1" "evs = take (nat n) es"
    using v q by (auto simp: wait_events_def)
  have "(full k \<longrightarrow> full (kern w1)) \<and> (armed (kern w1) \<longrightarrow> armed k \<or> rfd \<in> fst ` set evs)"
    using awakeD(6) [OF a] q unfolding wait_law_def w2(3) by blast
  then have "rfd \<notin> fst ` set evs \<longrightarrow> awake K rfd full armed w2"
    using a safe2 w2 by (auto simp: awake_def wake_def)
  moreover have "dispatch K evs w2 = Some (Inr (), w')" using l m s v by (simp add: loop_iter_def)
  ultimately show ?thesis using dispatch_awake [OF laws _ safe2] by blast
qed

lemma steps_awake:
  "poller_steps K (\<lambda>fd. fd \<noteq> rfd) (\<lambda>_. True) w w' \<Longrightarrow> awake K rfd full armed w \<Longrightarrow> awake K rfd full armed w'"
  by (induction rule: poller_steps.induct) (auto intro: awake.run round_awake)

section \<open>Properties\<close>

text \<open>
  Property C1. No queued task is left without a wake-up: whatever users and the loop do, from
  outside or from tasks and callbacks, as long as users leave the pipe's own descriptor alone -
  whenever a task is queued between two rounds of the loop, the pipe's entry is armed, so a
  coming \<open>epoll_wait\<close> reports it; although a write to the full pipe fails silently, although the
  entry is edge triggered, and although a stale \<open>errno\<close> may stop the draining early.
\<close>

theorem no_lost_wakeup:
  assumes "pipe_laws K rfd full armed" and "safe rfd w" and "task_list w = []"
    and "full (kern w) \<longrightarrow> armed (kern w)"
    and "poller_steps K (\<lambda>fd. fd \<noteq> rfd) (\<lambda>_. True) w w'" and "task_list w' \<noteq> []"
  shows "armed (kern w')"
proof -
  have "awake K rfd full armed w" using assms(1-4) by (simp add: awake_def wake_def)
  from steps_awake [OF assms(5) this] assms(6) show ?thesis by (simp add: awake_def wake_def)
qed

lemma demo_laws: "pipe_laws demo_kernel 3 (\<lambda>(b, _). 65536 \<le> b) (\<lambda>(b, a, _). a)"
  by (auto simp: pipe_laws_def write_law_def read_law_def quiet_law_def wait_law_def quiet_def
      demo_kernel_def split: if_splits ctl_op.splits)

lemma demo_safe: "safe 3 demo_poller"
  by (simp add: safe_def fns_ok_def demo_poller_def task_new_def)

lemma no_lost_wakeup_witness:
  "\<exists>w'. poller_steps demo_kernel (\<lambda>fd. fd \<noteq> 3) (\<lambda>_. True) demo_poller w' \<and>
     task_list w' = [0] \<and> fst (snd (kern w'))"
proof -
  let ?p = "CallAsync (Some Throw) False (\<lambda>i. Return 0) :: string prog"
  let ?w = "snd (the (run_prog demo_kernel ?p demo_poller))"
  have r: "run_prog demo_kernel ?p demo_poller = Some (Inr 0, ?w) \<and> task_list ?w = [0]"
    by (simp add: demo_async_first)
  have s: "poller_steps demo_kernel (\<lambda>fd. fd \<noteq> 3) (\<lambda>_. True) demo_poller ?w"
    by (rule poller_steps.outside [OF poller_steps.start, where p = ?p and r = "Inr 0"]) (use r in simp_all)
  have "(\<lambda>(b, a, _). a) (kern ?w)"
    using no_lost_wakeup [OF demo_laws demo_safe _ _ s] r by (simp add: demo_simps)
  then show ?thesis using s r by (intro exI [of _ ?w]) (auto simp: split_beta)
qed

end
