(* ===== verification/PollerLive.thy ===== *)
theory PollerLive
  imports PollerWake
begin

text \<open>
  The poller's loop: every round returns, a shutdown ends it, and what is registered is what the
  kernel watches.
\<close>

section \<open>Registered descriptors\<close>

text \<open>
  \<^verbatim>\<open>epoll_ctl(2)\<close>: \<open>ADD\<close> succeeds for a descriptor that is not watched and \<open>DEL\<close> for one that is,
  both may fail without an effect, and nothing else changes what is watched. (A descriptor that
  is closed leaves the set as well; the poller's users close one after \<open>DelEvent\<close>.)
\<close>

definition ctl_law :: "'k kernel \<Rightarrow> ('k \<Rightarrow> int set) \<Rightarrow> bool" where
  "ctl_law K watched \<longleftrightarrow>
     (\<forall>fd m k r e k'. sys_ctl K CTL_ADD fd m k = ((r, e), k') \<longrightarrow>
        (r = 0 \<and> fd \<notin> watched k \<and> watched k' = insert fd (watched k)) \<or>
        (r = -1 \<and> watched k' = watched k)) \<and>
     (\<forall>fd m k r e k'. sys_ctl K CTL_DEL fd m k = ((r, e), k') \<longrightarrow>
        (r = 0 \<and> fd \<in> watched k \<and> watched k' = watched k - {fd}) \<or>
        (r = -1 \<and> watched k' = watched k))"

lemma ctl_lawD:
  assumes "ctl_law K watched"
  shows "sys_ctl K CTL_ADD fd m k = ((r, e), k') \<Longrightarrow>
      (r = 0 \<and> fd \<notin> watched k \<and> watched k' = insert fd (watched k)) \<or> (r = -1 \<and> watched k' = watched k)"
    and "sys_ctl K CTL_DEL fd m k = ((r, e), k') \<Longrightarrow>
      (r = 0 \<and> fd \<in> watched k \<and> watched k' = watched k - {fd}) \<or> (r = -1 \<and> watched k' = watched k)"
  by (rule assms [unfolded ctl_law_def, THEN conjunct1, rule_format],
      assumption)
    (rule assms [unfolded ctl_law_def, THEN conjunct2, rule_format])

definition watch_frame :: "'k kernel \<Rightarrow> ('k \<Rightarrow> int set) \<Rightarrow> bool" where
  "watch_frame K watched \<longleftrightarrow>
     (\<forall>fd m k x k'. sys_ctl K CTL_MOD fd m k = (x, k') \<longrightarrow> watched k' = watched k) \<and>
     (\<forall>k x k'. sys_write K k = (x, k') \<longrightarrow> watched k' = watched k) \<and>
     (\<forall>n k x k'. sys_read K n k = (x, k') \<longrightarrow> watched k' = watched k) \<and>
     (\<forall>d n k x k'. sys_wait K d n k = (x, k') \<longrightarrow> watched k' = watched k) \<and>
     (\<forall>k x k'. sys_now K k = (x, k') \<longrightarrow> watched k' = watched k) \<and>
     (\<forall>k x k'. sys_input K k = (x, k') \<longrightarrow> watched k' = watched k)"

definition registered :: "'k kernel \<Rightarrow> ('k \<Rightarrow> int set) \<Rightarrow> ('e, 'k) poller \<Rightarrow> bool" where
  "registered K watched w \<longleftrightarrow>
     ctl_law K watched \<and> watch_frame K watched \<and> dom (event_map w) = watched (kern w)"

lemma watch_mod: "watch_frame K watched \<Longrightarrow> sys_ctl K CTL_MOD fd m k = (x, k') \<Longrightarrow> watched k' = watched k"
  unfolding watch_frame_def by metis

lemma watch_write: "watch_frame K watched \<Longrightarrow> sys_write K k = (x, k') \<Longrightarrow> watched k' = watched k"
  unfolding watch_frame_def by metis

lemma watch_read: "watch_frame K watched \<Longrightarrow> sys_read K n k = (x, k') \<Longrightarrow> watched k' = watched k"
  unfolding watch_frame_def by metis

lemma watch_wait: "watch_frame K watched \<Longrightarrow> sys_wait K d n k = (x, k') \<Longrightarrow> watched k' = watched k"
  unfolding watch_frame_def by metis

lemma watch_now: "watch_frame K watched \<Longrightarrow> sys_now K k = (x, k') \<Longrightarrow> watched k' = watched k"
  unfolding watch_frame_def by metis

lemma watch_input: "watch_frame K watched \<Longrightarrow> sys_input K k = (x, k') \<Longrightarrow> watched k' = watched k"
  unfolding watch_frame_def by metis

lemma registeredD:
  "registered K watched w \<Longrightarrow> watch_frame K watched" "registered K watched w \<Longrightarrow> ctl_law K watched"
  "registered K watched w \<Longrightarrow> dom (event_map w) = watched (kern w)"
  by (simp_all add: registered_def)

lemma registeredI:
  "registered K watched w \<Longrightarrow> dom (event_map w') = watched (kern w') \<Longrightarrow> registered K watched w'"
  by (simp add: registered_def)

lemma registered_frame:
  "registered K watched w \<Longrightarrow> event_map w' = event_map w \<Longrightarrow> watched (kern w') = watched (kern w) \<Longrightarrow>
   registered K watched w'"
  by (simp add: registered_def)

lemma async_watched:
  assumes "watch_frame K watched" and "async K g first w = Some (i, w')"
  shows "watched (kern w') = watched (kern w)"
  by (rule async_frame [OF _ assms(2)]) (rule watch_write [OF assms(1)])

lemma ctl_watched:
  assumes "sys (sys_ctl K c fd m) w = (r, w')"
  obtains e where "sys_ctl K c fd m (kern w) = ((r, e), kern w')"
  using assms by (auto simp: sys_def split: prod.splits)

lemma AddEvent_registered:
  assumes g: "registered K watched w" and a: "AddEvent K fd ev cb w = (r, w')"
  shows "registered K watched w'"
proof (cases cb)
  case None
  with a g show ?thesis by (simp add: AddEvent_def)
next
  case (Some c)
  obtain q w1 where s: "sys (sys_ctl K CTL_ADD fd (TO_EPOLL ev)) w = (q, w1)" by fastforce
  obtain e where "sys_ctl K CTL_ADD fd (TO_EPOLL ev) (kern w) = ((q, e), kern w1)"
    using s by (rule ctl_watched)
  then have k: "(q = 0 \<and> fd \<notin> watched (kern w) \<and> watched (kern w1) = insert fd (watched (kern w))) \<or>
      (q = -1 \<and> watched (kern w1) = watched (kern w))"
    by (rule ctl_lawD(1) [OF registeredD(2) [OF g]])
  note e = event_map_frames(3) [OF s] and d = registeredD(3) [OF g]
  have "dom (event_map w') = watched (kern w')"
  proof (cases "q = 0")
    case True
    then have "fd \<notin> dom (event_map w)" using k d by simp
    then have "event_map w fd = None" by (simp add: domIff)
    with True a Some s e have "w' = w1\<lparr>event_map := (event_map w1)(fd \<mapsto> c)\<rparr>"
      by (simp add: AddEvent_def)
    with True e d k show ?thesis by simp
  next
    case False
    with a Some s e d k show ?thesis by (simp add: AddEvent_def)
  qed
  then show ?thesis by (rule registeredI [OF g])
qed

lemma del_watched:
  assumes g: "registered K watched w" and s: "sys (sys_ctl K CTL_DEL fd 0) w = (q, w1)"
  shows "(q = 0 \<and> fd \<in> watched (kern w) \<and> watched (kern w1) = watched (kern w) - {fd}) \<or>
      (q = -1 \<and> watched (kern w1) = watched (kern w))"
proof -
  obtain e where "sys_ctl K CTL_DEL fd 0 (kern w) = ((q, e), kern w1)" using s by (rule ctl_watched)
  then show ?thesis by (rule ctl_lawD(2) [OF registeredD(2) [OF g]])
qed

lemma DelEvent_registered:
  assumes g: "registered K watched w" and a: "DelEvent K fd w = (x, w')"
  shows "registered K watched w'"
proof (cases "event_map w fd")
  case None
  with a g show ?thesis by (simp add: DelEvent_def)
next
  case (Some c)
  obtain q w1 where s: "sys (sys_ctl K CTL_DEL fd 0) w = (q, w1)" by fastforce
  note e = event_map_frames(3) [OF s] and d = registeredD(3) [OF g] and k = del_watched [OF g s]
  have "dom (event_map w') = watched (kern w')"
  proof (cases "q = 0")
    case True
    with a Some s have "w' = w1\<lparr>event_map := (event_map w1)(fd := None)\<rparr>"
      by (simp add: DelEvent_def)
    with True e d k show ?thesis by simp
  next
    case False
    with a Some s e d k show ?thesis by (simp add: DelEvent_def)
  qed
  then show ?thesis by (rule registeredI [OF g])
qed

interpretation registered: loop_invariant K "\<lambda>_. True" "\<lambda>_. True" "registered K watched" for K watched
proof unfold_locales
  fix w w' :: "('b, 'a) poller" and f :: "'b closure option" and first j
  assume g: "registered K watched w" and a: "async K f first w = Some (j, w')"
  show "registered K watched w'"
    by (rule registered_frame [OF g event_map_frames(1) [OF a] async_watched [OF _ a]])
      (use g in \<open>simp add: registered_def\<close>)
next
  fix w w' :: "('b, 'a) poller" and fd ev r
  assume g: "registered K watched w" and a: "ModifyEvent K fd ev w = (r, w')"
  note s = a [unfolded ModifyEvent_def]
  have "watched (kern w') = watched (kern w)"
    using sys_kern [OF s] watch_mod [OF registeredD(1) [OF g]] by blast
  then show "registered K watched w'" using registered_frame [OF g event_map_frames(3) [OF s]] by blast
next
  fix w w' :: "('b, 'a) poller" and r
  assume g: "registered K watched w" and s: "sys (sys_read K 1024) w = (r, w')"
  have "watched (kern w') = watched (kern w)"
    using sys_kern [OF s] watch_read [OF registeredD(1) [OF g]] by blast
  then show "registered K watched w'" using registered_frame [OF g event_map_frames(3) [OF s]] by blast
next
  fix w w' :: "('b, 'a) poller" and fd r
  assume g: "registered K watched w" and n: "event_map w fd = None"
    and s: "sys (sys_ctl K CTL_DEL fd 0) w = (r, w')"
  have "fd \<notin> watched (kern w)" using g n by (auto simp: registered_def)
  then show "registered K watched w'"
    using del_watched [OF g s] registered_frame [OF g event_map_frames(3) [OF s]] by blast
next
  fix w w' :: "('b, 'a) poller" and d evs
  assume g: "registered K watched w" and s: "wait_events K d w = (evs, w')"
  have "\<exists>x. sys_wait K (wait_timeout d) 1024 (kern w) = (x, kern w')"
    using s by (auto simp: wait_events_def split: prod.splits)
  then have "watched (kern w') = watched (kern w)"
    using watch_wait [OF registeredD(1) [OF g]] by blast
  then show "registered K watched w'" using registered_frame [OF g event_map_frames(4) [OF s]] by blast
next
  fix w w' :: "('b, 'a) poller" and ms
  assume g: "registered K watched w" and s: "get_now K w = (ms, w')"
  have "\<exists>x. sys_now K (kern w) = (x, kern w')"
    using s by (auto simp: get_now_def split: prod.splits)
  then have "watched (kern w') = watched (kern w)"
    using watch_now [OF registeredD(1) [OF g]] by blast
  then show "registered K watched w'" using registered_frame [OF g event_map_frames(2) [OF s]] by blast
next
  fix w :: "('b, 'a) poller" and n e k
  assume g: "registered K watched w" and s: "sys_input K (kern w) = ((n, e), k)"
  have "watched k = watched (kern w)"
    using watch_input [OF registeredD(1) [OF g] s] .
  then show "registered K watched (w\<lparr>kern := k, cerrno := e\<rparr>)"
    using registered_frame [OF g] by simp
next
  fix w w' :: "('b, 'a) poller" and fd ev r and cb :: "'b event_cb option"
  assume "registered K watched w" and "AddEvent K fd ev cb w = (r, w')"
  then show "registered K watched w'" by (rule AddEvent_registered)
next
  fix w w' :: "('b, 'a) poller" and fd s
  assume "registered K watched w" and "DelEvent K fd w = (s, w')"
  then show "registered K watched w'" by (rule DelEvent_registered)
qed (auto simp: make_task_def put_task_def elim!: registered_frame)

section \<open>Rounds return\<close>

definition sorted_delays :: "('e, 'k) poller \<Rightarrow> bool" where
  "sorted_delays w \<longleftrightarrow> sorted (map fst (delay_tasks w))"

interpretation sorted_delays: batch_invariant K "\<lambda>_. True" "\<lambda>_. True" sorted_delays for K
proof unfold_locales
  fix w w' :: "('b, 'a) poller" and f :: "'b closure option" and first j
  assume "sorted_delays w" and "async K f first w = Some (j, w')"
  then show "sorted_delays w'"
    by (auto simp: sorted_delays_def dest!: async_upd elim!: same_but_kernE)
qed (auto simp: sorted_delays_def make_task_def put_task_def ModifyEvent_def mm_emplace_sorted
  dest!: get_now_upd sys_upd AddEvent_upd DelEvent_upd)

text \<open>The delay tasks are ordered and every function of a user returns a delay below \<open>2 ^ 63\<close>.\<close>

definition orderly :: "('e, 'k) poller \<Rightarrow> bool" where
  "orderly w \<longleftrightarrow> sorted_delays w \<and> fns_ok (\<lambda>_. True) short w"

definition clock_ok :: "'k kernel \<Rightarrow> bool" where
  "clock_ok K \<longleftrightarrow> (\<forall>k. short (fst (sys_now K k)))"

lemma min_delay_orderly:
  assumes live: "pipe_live K \<mu> \<nu>" and clock: "clock_ok K" and o: "orderly w"
  shows "\<exists>r w'. get_min_delay_ms K w = Some (r, w') \<and> fns_ok (\<lambda>_. True) short w' \<and>
    (r = Inl OtherException \<or> (\<exists>d. r = Inr d \<and> orderly w'))"
proof (cases "delay_tasks w")
  case Nil
  with o show ?thesis by (simp add: get_min_delay_ms_def orderly_def)
next
  case (Cons e m)
  obtain k i where e: "e = (k, i)" by (cases e)
  obtain now w1 where n: "get_now K w = (now, w1)" by fastforce
  have short: "short now" using clock n by (auto simp: clock_ok_def get_now_def split: prod.splits dest: spec [of _ "kern w"])
  have w1: "orderly w1" using n o by (auto simp: orderly_def sorted_delays_def fns_ok_def dest!: get_now_upd)
  show ?thesis
  proof (cases "now < k")
    case True
    with Cons e n w1 show ?thesis by (simp add: get_min_delay_ms_def orderly_def)
  next
    case False
    then have g: "get_min_delay_ms K w = flush_delay_tasks K now w1"
      using Cons e n by (simp add: get_min_delay_ms_def)
    have "fns_ok (\<lambda>_. True) short w1" "sorted (map fst (delay_tasks w1))"
      using w1 by (simp_all add: orderly_def sorted_delays_def)
    from flush_delay_tasks_ok [OF live this(1) short this(2)] obtain r w' where
      f: "flush_delay_tasks K now w1 = Some (r, w')"
        "case r of Inl x \<Rightarrow> x = OtherException | Inr d \<Rightarrow> sorted (map fst (delay_tasks w')) \<and>
           all_later now (delay_tasks w') \<and> (d = 0 \<longleftrightarrow> delay_tasks w' = []) \<and>
           (delay_tasks w' \<noteq> [] \<longrightarrow> unat d = unat (fst (hd (delay_tasks w'))) - unat now)"
      by blast
    have "fns_ok (\<lambda>_. True) short w'" using fns.flush [OF _ f(1)] w1 by (simp add: orderly_def)
    with g f show ?thesis by (cases r) (auto simp: orderly_def sorted_delays_def)
  qed
qed

lemma wait_orderly: "orderly w \<Longrightarrow> wait_events K d w = (evs, w') \<Longrightarrow> orderly w'"
  by (auto simp: orderly_def sorted_delays_def fns_ok_def dest!: wait_events_upd)

lemma round_orderly:
  assumes live: "pipe_live K \<mu> \<nu>" and clock: "clock_ok K" and o: "orderly w"
  shows "\<exists>r w'. loop_iter K w = Some (r, w') \<and> (r = Inr () \<longrightarrow> orderly w')"
proof -
  obtain r w1 where m: "get_min_delay_ms K w = Some (r, w1)"
    "r = Inl OtherException \<or> (\<exists>d. r = Inr d \<and> orderly w1)"
    using min_delay_orderly [OF live clock o] by blast
  show ?thesis
  proof (cases r)
    case (Inl x)
    with m show ?thesis by (simp add: loop_iter_def)
  next
    case (Inr d)
    with m have o1: "orderly w1" by simp
    obtain evs w2 where v: "wait_events K d w1 = (evs, w2)" by fastforce
    have o2: "orderly w2" using wait_orderly [OF o1 v] .
    obtain q w' where d: "dispatch K evs w2 = Some (q, w')" using dispatch_returns [OF live] by blast
    have "orderly w'"
      using sorted_delays.batch [OF _ d] fns.batch [OF _ d] o2 by (simp add: orderly_def)
    then show ?thesis using m Inr v d by (simp add: loop_iter_def)
  qed
qed

lemma run_orderly:
  "orderly w \<Longrightarrow> prog_all (\<lambda>_. True) short p \<Longrightarrow> run_prog K p w = Some (r, w') \<Longrightarrow> orderly w'"
  using fns.run [of "\<lambda>_. True" short w p K r w'] sorted_delays.run [of w p K r w']
  by (simp add: orderly_def)

lemma steps_orderly:
  assumes live: "pipe_live K \<mu> \<nu>" and clock: "clock_ok K"
  shows "poller_steps K (\<lambda>_. True) short w w' \<Longrightarrow> orderly w \<Longrightarrow> orderly w'"
proof (induction rule: poller_steps.induct)
  case (outside w p r w')
  then show ?case by (blast intro: run_orderly)
next
  case (round w w')
  then show ?case using round_orderly [OF live clock, of w] by auto
qed

section \<open>Shutdown\<close>

interpretation exited: task_invariant K "\<lambda>_. True" "\<lambda>_. True" exit_flag for K
proof unfold_locales
  fix w w' :: "('b, 'a) poller" and f :: "'b closure option" and first j
  assume "exit_flag w" and "async K f first w = Some (j, w')"
  then show "exit_flag w'" by (auto dest!: async_upd elim!: same_but_kernE)
qed (auto simp: make_task_def put_task_def ModifyEvent_def
  dest!: get_now_upd sys_upd AddEvent_upd DelEvent_upd)

lemma exit_first:
  assumes "tasks w i = task_new (Some ThrowExit)" and "run_task_list K (i # is) w = Some (r, w')"
  shows "exit_flag w'"
proof -
  obtain w1 where "call_task K i w = Some (Inl ExitException, w1)"
    using assms(1) by (simp add: call_task_def task_call_def task_new_def task_lock_def use_count_def
      call_body_def run_closure_def put_task_def)
  with assms(2) have "run_task_list K is (w1\<lparr>exit_flag := True\<rparr>) = Some (r, w')" by simp
  then show ?thesis by (rule exited.run_list [rotated]) simp
qed

section \<open>Properties\<close>

text \<open>
  The poller's table and the kernel agree: whatever users and the loop do, a descriptor
  has a callback in \<open>event_map_\<close> exactly when the kernel watches it, so no event goes to a callback
  that was deleted and none is reported without one.
\<close>

theorem descriptors_registered:
  assumes "ctl_law K watched" and "watch_frame K watched" and "dom (event_map w) = watched (kern w)"
    and "poller_steps K (\<lambda>_. True) (\<lambda>_. True) w w'"
  shows "dom (event_map w') = watched (kern w')"
  using registered.steps [OF assms(4), of watched] assms(1-3) by (simp add: registered_def)

lemma demo_ctl: "ctl_law demo_kernel (\<lambda>(_, _, s, _). s) \<and> watch_frame demo_kernel (\<lambda>(_, _, s, _). s)"
  by (auto simp: ctl_law_def watch_frame_def demo_kernel_def split: if_splits)

lemma descriptors_registered_witness:
  "\<exists>w'. poller_steps demo_kernel (\<lambda>_. True) (\<lambda>_. True) demo_poller w' \<and> dom (event_map w') = {3, 7}"
proof -
  let ?p = "CallAdd 7 PE_READ (Some (\<lambda>e. Return 0)) (\<lambda>r. Return 0) :: string prog"
  let ?w = "snd (the (run_prog demo_kernel ?p demo_poller))"
  have r: "run_prog demo_kernel ?p demo_poller = Some (Inr 0, ?w) \<and> kern ?w = (0, False, {7, 3}, 100)"
    by (simp add: AddEvent_def sys_def demo_kernel_def demo_simps)
  have s: "poller_steps demo_kernel (\<lambda>_. True) (\<lambda>_. True) demo_poller ?w"
    by (rule poller_steps.outside [OF poller_steps.start, where p = ?p and r = "Inr 0"]) (use r in simp_all)
  have "dom (event_map ?w) = (\<lambda>(_, _, s, _). s) (kern ?w)"
    using descriptors_registered [OF _ _ _ s, of "\<lambda>(_, _, s, _). s"] demo_ctl by (simp add: demo_simps)
  then have "dom (event_map ?w) = {3, 7}" using r by auto
  with s show ?thesis by blast
qed

text \<open>
  \<open>Shutdown\<close> ends the loop: the next pipe event returns with the exit flag set, and
  \<open>RunLoop\<close>'s loop returns there; the tasks queued with it still run first.
\<close>

theorem shutdown_ends_loop:
  assumes "pipe_live K \<mu> \<nu>"
  shows "\<exists>w1 r w'. Shutdown K w = Some w1 \<and> on_pipe_event K w1 = Some (r, w') \<and> IsClose w' \<and>
    while_open K w' = Some (Inr (), w')"
proof -
  obtain i w1 where a: "async K (Some ThrowExit) True w = Some (i, w1)"
    using async_returns [OF assms] by blast
  obtain w2 where d: "drain K w1 = Some w2" using drain_returns [OF assms] by blast
  obtain r w' where l: "run_task_list K (task_list w2) (w2\<lparr>task_list := []\<rparr>) = Some (r, w')"
    using run_list_returns [OF assms] by blast
  have "task_list w2 = i # task_list w \<and> tasks w2 i = task_new (Some ThrowExit)"
    using async_upd [OF a] drain_upd [OF d] by (auto elim!: same_but_kernE)
  then have "exit_flag w'" using exit_first [of "w2\<lparr>task_list := []\<rparr>" i] l by simp
  with a d l show ?thesis
    by (auto simp: Shutdown_def on_pipe_event_def IsClose_def while_open.simps [of K w'])
qed

lemma shutdown_ends_loop_witness:
  "\<exists>w1 r w'. Shutdown demo_kernel demo_poller = Some w1 \<and> on_pipe_event demo_kernel w1 = Some (r, w') \<and>
     exit_flag w'"
  using shutdown_ends_loop [OF demo_live, of demo_poller] by (auto simp: IsClose_def)


lemma mask_short: "short (t AND mask 63)"
  by (rule and_mask_less') simp

lemma demo_clock: "clock_ok demo_kernel"
  using mask_short by (auto simp: clock_ok_def demo_kernel_def)


end
