(* ===== verification/Timer.thy ===== *)
theory Timer
  imports PollerDelay
begin

text \<open>
  \<^verbatim>\<open>poller/timer.cpp\<close>: a timer is a delay task around the user's callback. The callback returns
  whether to go on; the wrapper turns that into the next delay, and a \<open>std::exception\<close> of the
  callback into a decision made when the timer was created. \<open>ms\<close> is \<open>second * 1000\<close> as the
  compiler converts the \<open>float\<close> to \<open>uint64_t\<close>.
\<close>

primrec timer_fn :: "u64 \<Rightarrow> bool \<Rightarrow> 'e prog \<Rightarrow> 'e prog" where
  "timer_fn ms go (Return v) = Return (if v \<noteq> 0 then ms else 0)"
| "timer_fn ms go Throw = Return (if go then ms else 0)"
| "timer_fn ms go ThrowOther = ThrowOther"
| "timer_fn ms go (Emit e p) = Emit e (timer_fn ms go p)"
| "timer_fn ms go (Input p) = Input (\<lambda>n. timer_fn ms go (p n))"
| "timer_fn ms go (CallAsync f first p) = CallAsync f first (\<lambda>i. timer_fn ms go (p i))"
| "timer_fn ms go (CallDelay d f p) = CallDelay d f (\<lambda>i. timer_fn ms go (p i))"
| "timer_fn ms go (CallCancel i p) = CallCancel i (timer_fn ms go p)"
| "timer_fn ms go (CallAdd fd ev cb p) = CallAdd fd ev cb (\<lambda>r. timer_fn ms go (p r))"
| "timer_fn ms go (CallDel fd p) = CallDel fd (\<lambda>s. timer_fn ms go (p s))"
| "timer_fn ms go (CallModify fd ev p) = CallModify fd ev (\<lambda>r. timer_fn ms go (p r))"
| "timer_fn ms go (CallShutdown p) = CallShutdown (timer_fn ms go p)"

definition timer_new ::
  "'k kernel \<Rightarrow> u64 \<Rightarrow> 'e prog \<Rightarrow> bool \<Rightarrow> ('e, 'k) poller \<Rightarrow> (nat \<times> ('e, 'k) poller) option" where
  "timer_new K ms cb continue_when_exception w =
     DoDelayTask K ms (Some (timer_fn ms continue_when_exception cb)) w"

text \<open>The destructor; \<open>tag\<close> is the task, if it still exists.\<close>

definition timer_delete :: "nat option \<Rightarrow> ('e, 'k) poller \<Rightarrow> ('e, 'k) poller" where
  "timer_delete tag w =
     (case tag of None \<Rightarrow> w | Some i \<Rightarrow> put_task i (task_cancel (tasks w i)) w)"

section \<open>Properties\<close>

definition timer_result :: "u64 \<Rightarrow> bool \<Rightarrow> exc + u64 \<Rightarrow> exc + u64" where
  "timer_result ms go r =
     (case r of
        Inr v \<Rightarrow> Inr (if v \<noteq> 0 then ms else 0)
      | Inl OtherException \<Rightarrow> Inl OtherException
      | Inl _ \<Rightarrow> Inr (if go then ms else 0))"

text \<open>
  A timer's task does exactly what its callback does, and asks for the next run after
  the timer's own period when the callback returned true, or threw a \<open>std::exception\<close> and the
  timer was told to continue; otherwise it asks for none, and only an exception that is not a
  \<open>std::exception\<close> gets out of it.
\<close>

theorem timer_runs_callback:
  "run_prog K (timer_fn ms go p) w = map_option (\<lambda>(r, w'). (timer_result ms go r, w')) (run_prog K p w)"
proof (induction p arbitrary: w)
  case (CallAsync f first p)
  show ?case
    by (cases "async K (map_option User f) first w") (auto simp: CallAsync.IH)
next
  case (CallDelay d f p)
  show ?case by (cases "DoDelayTask K d f w") (auto simp: CallDelay.IH)
next
  case (CallShutdown p)
  show ?case by (cases "Shutdown K w") (auto simp: CallShutdown.IH)
qed (auto simp: timer_result_def split: prod.splits)

lemma timer_new_made:
  assumes "timer_new K ms cb go w = Some (i, w1)"
  shows "i < next_task w1"
proof -
  obtain now k j where d: "get_now K (snd (make_task (Some (User (timer_fn ms go cb))) w)) = (now, k)"
    "i = next_task w" "async K (Some (EmplaceDelay (ms + now) i)) True k = Some (j, w1)"
    using assms by (auto simp: timer_new_def DoDelayTask_def AsyncFirst_def make_task_def Let_def
      split: prod.splits)
  have "i < next_task k" using d(1,2) by (auto simp: make_task_def put_task_def dest!: get_now_upd)
  with known.queue [OF _ _ d(3)] show ?thesis by simp
qed



end
