(* ===== verification/Socket.thy ===== *)
theory Socket
  imports BufferList Epoll
begin

text \<open>
  \<^verbatim>\<open>net/socket.cpp\<close> and \<^verbatim>\<open>net/socket.h\<close>: the sending half of a socket, its errors and its closing.
  Data waits in \<open>send_buf_waiting_\<close>, is gathered into batches in \<open>send_buf_sending_\<close> and is sent
  from there when the poller reports the descriptor writable. The poller, the kernel and the user's
  flush callback are reached through a parameter.
\<close>

section \<open>Types\<close>

datatype sock_err_code =
  ERR_SUCCESS | ERR_EOF | ERR_TIMEOUT | ERR_REFUESD | ERR_UNREACHABLE | ERR_SHUTDOWN | ERR_OTHER

datatype sock_type = SOCK_UDP | SOCK_TCP

record sock_exception =
  ex_code :: sock_err_code
  ex_msg :: string

text \<open>\<open>operator bool\<close> of \<open>SocketException\<close>.\<close>

definition ex_bool :: "sock_exception \<Rightarrow> bool" where
  "ex_bool err \<longleftrightarrow> ex_code err \<noteq> ERR_SUCCESS"

record sock_fd =
  raw_fd :: int
  fd_type :: sock_type
  fd_connected :: bool

text \<open>
  The fields of \<open>Socket\<close>. \<open>timer\<close> and \<open>connecting\<close> say whether \<open>connect_timer_\<close> and
  \<open>async_connect_cb_\<close> are set; \<open>flushed_cb\<close> is the user's callback, \<open>None\<close> the default one;
  \<open>reported\<close> are the errors handed to the poller for \<open>error_cb_\<close>, oldest first. \<open>err_no\<close> and
  \<open>kern_st\<close> are the thread's \<open>errno\<close> and the state of the kernel and the poller.
\<close>

record 'k socket =
  sockfd :: "sock_fd option"
  timer :: bool
  connecting :: bool
  send_buf_sending :: "buffer_list list"
  send_buf_waiting :: "packet list"
  sending :: bool
  enable_recv :: bool
  flushed_cb :: "nat option"
  socket_flags :: int
  reported :: "sock_exception list"
  err_no :: errno
  kern_st :: 'k

text \<open>
  What a socket uses: \<open>sendmsg\<close>, \<open>getsockopt\<close> for \<open>SO_ERROR\<close> (the result, the \<open>errno\<close> of a failure
  and the value), \<open>poller_->IsClose()\<close> and \<open>poller_->ModifyEvent\<close>, the user's flush callbacks, and
  the texts of the error numbers.
\<close>

record 'k sock_env =
  env_sendmsg :: "'k sendmsg"
  env_so_error :: "int \<Rightarrow> 'k \<Rightarrow> (int \<times> errno \<times> int) \<times> 'k"
  env_closed :: "'k \<Rightarrow> bool"
  env_modify :: "int \<Rightarrow> u32 \<Rightarrow> 'k \<Rightarrow> 'k"
  env_flushed :: "nat \<Rightarrow> 'k socket \<Rightarrow> bool \<times> 'k socket"
  env_strerror :: "errno \<Rightarrow> string"

section \<open>Errors and closing\<close>

text \<open>\<open>Close\<close>; what waits to be sent stays in the two lists.\<close>

definition Close :: "'k socket \<Rightarrow> 'k socket" where
  "Close sk = sk\<lparr>timer := False, connecting := False, sockfd := None\<rparr>"

definition get_socket_error ::
  "'k sock_env \<Rightarrow> bool \<Rightarrow> sock_fd \<Rightarrow> 'k socket \<Rightarrow> sock_exception \<times> 'k socket" where
  "get_socket_error E try_errno fd sk =
     (let ((r, e, v), k) = env_so_error E (raw_fd fd) (kern_st sk);
          sk = sk\<lparr>kern_st := k, err_no := (if r = -1 then e else err_no sk)\<rparr>;
          so_error = (if r = -1 then 0 else v);
          error = (if so_error = 0 then (if try_errno then get_uv_error (err_no sk) else 0)
                   else uv_translate_posix_error so_error)
      in (if error = 0 \<or> error = EAGAIN then \<lparr>ex_code = ERR_SUCCESS, ex_msg = ''OK''\<rparr>
          else if error = ETIMEDOUT then \<lparr>ex_code = ERR_TIMEOUT, ex_msg = ''TIMEOUT''\<rparr>
          else if error = ECONNREFUSED then \<lparr>ex_code = ERR_REFUESD, ex_msg = ''REFUESD''\<rparr>
          else \<lparr>ex_code = ERR_OTHER, ex_msg = env_strerror E error\<rparr>, sk))"

definition emit_error :: "sock_exception \<Rightarrow> 'k socket \<Rightarrow> bool \<times> 'k socket" where
  "emit_error err sk =
     (case sockfd sk of
        None \<Rightarrow> (False, sk)
      | Some _ \<Rightarrow> (True, (Close sk)\<lparr>reported := reported sk @ [err]\<rparr>))"

definition on_error :: "'k sock_env \<Rightarrow> sock_fd \<Rightarrow> 'k socket \<Rightarrow> bool \<times> 'k socket" where
  "on_error E fd sk = (case get_socket_error E True fd sk of (err, sk) \<Rightarrow> emit_error err sk)"

text \<open>What an error changes: the socket is closed, and the two lists stay.\<close>

lemma get_socket_error_upd:
  obtains err e where
    "get_socket_error E t fd sk = (err, sk\<lparr>kern_st := snd (env_so_error E (raw_fd fd) (kern_st sk)), err_no := e\<rparr>)"
proof -
  obtain r e v k where "env_so_error E (raw_fd fd) (kern_st sk) = ((r, e, v), k)" by (metis surj_pair)
  then have "snd (get_socket_error E t fd sk) =
      sk\<lparr>kern_st := snd (env_so_error E (raw_fd fd) (kern_st sk)), err_no := if r = -1 then e else err_no sk\<rparr>"
    by (simp add: get_socket_error_def Let_def)
  then show ?thesis using that by (metis prod.collapse)
qed

lemma emit_error_lists:
  "send_buf_sending (snd (emit_error err sk)) = send_buf_sending sk \<and>
   send_buf_waiting (snd (emit_error err sk)) = send_buf_waiting sk \<and>
   kern_st (snd (emit_error err sk)) = kern_st sk \<and> sockfd (snd (emit_error err sk)) = None"
  by (cases "sockfd sk") (simp_all add: emit_error_def Close_def)

lemma on_error_lists:
  "send_buf_sending (snd (on_error E fd sk)) = send_buf_sending sk \<and>
   send_buf_waiting (snd (on_error E fd sk)) = send_buf_waiting sk \<and>
   kern_st (snd (on_error E fd sk)) = snd (env_so_error E (raw_fd fd) (kern_st sk)) \<and>
   sockfd (snd (on_error E fd sk)) = None"
proof -
  obtain err e where g: "get_socket_error E True fd sk =
      (err, sk\<lparr>kern_st := snd (env_so_error E (raw_fd fd) (kern_st sk)), err_no := e\<rparr>)"
    by (rule get_socket_error_upd)
  show ?thesis unfolding on_error_def g prod.case
    using emit_error_lists [of err "sk\<lparr>kern_st := snd (env_so_error E (raw_fd fd) (kern_st sk)), err_no := e\<rparr>"]
    by simp
qed

section \<open>Sending\<close>

definition event_mask :: "'k socket \<Rightarrow> u32" where
  "event_mask sk = (if enable_recv sk then 0 OR PE_READ else 0)"

definition stop_writeable_event :: "'k sock_env \<Rightarrow> sock_fd \<Rightarrow> 'k socket \<Rightarrow> 'k socket" where
  "stop_writeable_event E fd sk =
     sk\<lparr>kern_st := env_modify E (raw_fd fd) (event_mask sk OR PE_ERROR) (kern_st sk), sending := False\<rparr>"

definition start_writeable_event :: "'k sock_env \<Rightarrow> sock_fd \<Rightarrow> 'k socket \<Rightarrow> 'k socket" where
  "start_writeable_event E fd sk =
     sk\<lparr>kern_st := env_modify E (raw_fd fd) (event_mask sk OR PE_ERROR OR PE_WRITE) (kern_st sk),
        sending := True\<rparr>"

text \<open>The default flush callback returns \<open>true\<close>; a callback that returns \<open>false\<close> is replaced by it.\<close>

definition on_flushed :: "'k sock_env \<Rightarrow> 'k socket \<Rightarrow> 'k socket" where
  "on_flushed E sk =
     (case flushed_cb sk of
        None \<Rightarrow> sk
      | Some c \<Rightarrow> (case env_flushed E c sk of (flag, sk1) \<Rightarrow>
          if flag then sk1 else sk1\<lparr>flushed_cb := None\<rparr>))"

text \<open>How the loop over the batches ends: everything sent, the socket is full, or an error.\<close>

datatype send_end = AllSent | WouldBlock | SendError

fun send_batches ::
  "'k sock_env \<Rightarrow> sock_fd \<Rightarrow> buffer_list list \<Rightarrow> 'k socket \<Rightarrow>
   (send_end \<times> buffer_list list \<times> 'k socket) option" where
  "send_batches E fd [] sk = Some (AllSent, [], sk)"
| "send_batches E fd (pkt # tmp) sk =
     bl_send (env_sendmsg E) (raw_fd fd) (socket_flags sk) (fd_type fd = SOCK_UDP) pkt (err_no sk) (kern_st sk) \<bind>
       (\<lambda>(n, pkt', e, k).
          let sk1 = sk\<lparr>err_no := e, kern_st := k\<rparr>
          in if n > 0 then
               (if bl_empty pkt' then send_batches E fd tmp sk1
                else Some (WouldBlock, pkt' # tmp, sk1))
             else if get_uv_error e = EAGAIN then Some (WouldBlock, pkt' # tmp, sk1)
             else Some (SendError, pkt' # tmp, sk1))"

text \<open>
  \<open>flush_data\<close>. The batches to send are taken over into a local list; when there are none, the
  waiting packets become one. When all are sent it calls itself again.
\<close>

partial_function (option) flush_data ::
  "'k sock_env \<Rightarrow> sock_fd \<Rightarrow> 'k socket \<Rightarrow> (bool \<times> 'k socket) option" where
  "flush_data E fd sk =
     (if env_closed E (kern_st sk) then Some (False, sk)
      else if send_buf_sending sk = [] \<and> send_buf_waiting sk = []
      then Some (True, on_flushed E (stop_writeable_event E fd sk))
      else
        (let (tmp, sk0) =
           (if send_buf_sending sk \<noteq> [] then (send_buf_sending sk, sk\<lparr>send_buf_sending := []\<rparr>)
            else ([bl_new (send_buf_waiting sk)], sk\<lparr>send_buf_waiting := []\<rparr>))
         in send_batches E fd tmp sk0 \<bind>
              (\<lambda>(r, tmp', sk1). case r of
                 SendError \<Rightarrow> Some (False, snd (on_error E fd sk1))
               | WouldBlock \<Rightarrow> Some (True, sk1\<lparr>send_buf_sending := tmp' @ send_buf_sending sk1\<rparr>)
               | AllSent \<Rightarrow> flush_data E fd sk1)))"

definition on_writeable :: "'k sock_env \<Rightarrow> sock_fd \<Rightarrow> 'k socket \<Rightarrow> 'k socket option" where
  "on_writeable E fd sk =
     (if send_buf_sending sk = [] \<and> send_buf_waiting sk = []
      then Some (stop_writeable_event E fd sk)
      else flush_data E fd sk \<bind> (\<lambda>(_, sk'). Some sk'))"

text \<open>
  \<open>send\<close> and \<open>Send\<close>: the return value, and the packet that the function queued on the poller adds
  to the waiting list. That function is \<open>send_task\<close>; it runs when the socket and the descriptor
  object it was queued with still exist.
\<close>

definition sock_send ::
  "raw_buf \<Rightarrow> byte list option \<Rightarrow> u32 \<Rightarrow> 'k socket \<Rightarrow> buf_error + (int \<times> packet option)" where
  "sock_send buf addr len sk =
     (if raw_size buf = 0 then Inr (0, None)
      else (case sockfd sk of
              None \<Rightarrow> Inr (-1, None)
            | Some fd \<Rightarrow>
                if fd_type fd = SOCK_UDP
                then map_sum id (\<lambda>b. (0, Some (Sock b))) (sock_new buf addr len)
                else Inr (0, Some (Raw buf))))"

definition Send ::
  "byte list \<Rightarrow> int \<Rightarrow> byte list option \<Rightarrow> u32 \<Rightarrow> 'k socket \<Rightarrow> buf_error + (int \<times> packet option)" where
  "Send buf sz addr len sk =
     (case (if sz \<le> 0 then map_option (\<lambda>n. int32 (int n)) (c_strlen buf) else Some sz) of
        None \<Rightarrow> Inl OutOfBounds
      | Some n \<Rightarrow>
          if n = 0 then Inr (0, None)
          else (case Assign buf (word_of_int n) (raw_new 0) of
                  Inl x \<Rightarrow> Inl x
                | Inr b \<Rightarrow> sock_send b addr len sk))"

definition send_task :: "'k sock_env \<Rightarrow> sock_fd \<Rightarrow> packet \<Rightarrow> 'k socket \<Rightarrow> 'k socket" where
  "send_task E fd p sk =
     (let sk1 = sk\<lparr>send_buf_waiting := send_buf_waiting sk @ [p]\<rparr>
      in if sending sk1 then sk1 else start_writeable_event E fd sk1)"

section \<open>What is still to be sent\<close>

definition unsent :: "'k socket \<Rightarrow> block" where
  "unsent sk = concat (map pending (send_buf_sending sk)) @ concat (map payload (send_buf_waiting sk))"

definition batch_good :: "buffer_list \<Rightarrow> bool" where
  "batch_good bl \<longleftrightarrow> (\<exists>ps. bl_inv ps bl) \<and> pending bl \<noteq> []"

definition sock_good :: "'k socket \<Rightarrow> bool" where
  "sock_good sk \<longleftrightarrow> list_all batch_good (send_buf_sending sk) \<and> batch_ok (send_buf_waiting sk)"

text \<open>
  What the code relies on: \<open>sendmsg\<close> as before, no other call of the socket sends anything, and the
  flush callback sends through \<open>Send\<close>, which only queues, so it leaves the two lists alone.
\<close>

definition env_ok :: "'k sock_env \<Rightarrow> ('k \<Rightarrow> 'l list) \<Rightarrow> bool" where
  "env_ok E wire \<longleftrightarrow>
     (\<forall>fd m k. wire (env_modify E fd m k) = wire k) \<and>
     (\<forall>fd k. wire (snd (env_so_error E fd k)) = wire k) \<and>
     (\<forall>c sk. wire (kern_st (snd (env_flushed E c sk))) = wire (kern_st sk) \<and>
        send_buf_sending (snd (env_flushed E c sk)) = send_buf_sending sk \<and>
        send_buf_waiting (snd (env_flushed E c sk)) = send_buf_waiting sk)"

lemma bl_inv_bounds:
  assumes "bl_inv ps bl"
  shows "0 \<le> bl_iovec_off bl" "nat (bl_iovec_off bl) \<le> length (bl_iovec bl)"
    "length (bl_iovec bl) < 2 ^ 31" "list_all iov_ok (todo bl)"
  using assms by (auto simp: bl_inv_def)

lemma bl_empty_pending:
  assumes "bl_inv ps bl"
  shows "bl_empty bl \<longleftrightarrow> pending bl = []"
proof -
  note b = bl_inv_bounds [OF assms]
  have len: "int32 (int (length (bl_iovec bl))) = int (length (bl_iovec bl))"
    using b(3) by (rule int32_of_nat)
  have "pending bl = [] \<longleftrightarrow> todo bl = []"
  proof (cases "todo bl")
    case (Cons v vs)
    then have "iov_ok v" using b(4) by simp
    then have "iov_bytes v \<noteq> []" by (auto simp: iov_bytes_def iov_ok_def)
    with Cons show ?thesis by (simp add: pending_def)
  qed (simp add: pending_def)
  also have "\<dots> \<longleftrightarrow> nat (bl_iovec_off bl) = length (bl_iovec bl)"
    using b(2) by (auto simp: todo_def)
  also have "\<dots> \<longleftrightarrow> bl_empty bl" using b(1) len by (auto simp: bl_empty_def)
  finally show ?thesis ..
qed

lemma batch_good_new:
  assumes "batch_ok ps" and "ps \<noteq> []"
  shows "batch_good (bl_new ps)" "pending (bl_new ps) = concat (map payload ps)"
proof -
  show p: "pending (bl_new ps) = concat (map payload ps)" using bl_new_inv(2) [OF assms(1)] .
  obtain q qs where ps: "ps = q # qs" using assms(2) by (cases ps) auto
  have "packet_ok q" "0 < packet_size q" using assms(1) ps by (simp_all add: batch_ok_def)
  then have "iov_ok (iov_of q)" by (rule iov_of_ok)
  then have "iov_bytes (iov_of q) \<noteq> []" by (auto simp: iov_bytes_def iov_ok_def)
  then have "payload q \<noteq> []" by (simp add: iov_of_bytes)
  then show "batch_good (bl_new ps)"
    using p ps bl_new_inv(1) [OF assms(1)] by (auto simp: batch_good_def)
qed

section \<open>Flushing\<close>

lemma on_flushed_frame:
  assumes "env_ok E wire"
  shows "wire (kern_st (on_flushed E sk)) = wire (kern_st sk) \<and>
    send_buf_sending (on_flushed E sk) = send_buf_sending sk \<and>
    send_buf_waiting (on_flushed E sk) = send_buf_waiting sk"
proof (cases "flushed_cb sk")
  case None
  then show ?thesis by (simp add: on_flushed_def)
next
  case (Some c)
  obtain flag sk1 where c: "env_flushed E c sk = (flag, sk1)" by fastforce
  have "wire (kern_st sk1) = wire (kern_st sk) \<and> send_buf_sending sk1 = send_buf_sending sk \<and>
      send_buf_waiting sk1 = send_buf_waiting sk"
    using assms unfolding env_ok_def by (metis c snd_conv)
  with Some c show ?thesis by (simp add: on_flushed_def)
qed

lemma on_error_frame:
  assumes "env_ok E wire"
  shows "wire (kern_st (snd (on_error E fd sk))) = wire (kern_st sk) \<and>
    send_buf_sending (snd (on_error E fd sk)) = send_buf_sending sk \<and>
    send_buf_waiting (snd (on_error E fd sk)) = send_buf_waiting sk \<and>
    sockfd (snd (on_error E fd sk)) = None \<and> sending (snd (on_error E fd sk)) = sending sk"
proof -
  obtain r e v k where g: "env_so_error E (raw_fd fd) (kern_st sk) = ((r, e, v), k)"
    by (metis surj_pair)
  with assms have "wire k = wire (kern_st sk)"
    unfolding env_ok_def by (metis snd_conv)
  moreover have "snd (get_socket_error E True fd sk) = sk\<lparr>kern_st := k, err_no := if r = -1 then e else err_no sk\<rparr>"
    using g by (simp add: get_socket_error_def Let_def)
  then obtain err e' where "get_socket_error E True fd sk = (err, sk\<lparr>kern_st := k, err_no := e'\<rparr>)"
    by (metis prod.collapse)
  ultimately show ?thesis
    by (cases "sockfd sk") (simp_all add: on_error_def emit_error_def Close_def)
qed

text \<open>
  What is left to send of a batch, in the units that the kernel logs - bytes, or datagrams - and
  what the waiting packets amount to.
\<close>

definition to_send ::
  "(buffer_list \<Rightarrow> 'l list) \<Rightarrow> (packet list \<Rightarrow> 'l list) \<Rightarrow> 'k socket \<Rightarrow> 'l list" where
  "to_send bl_left content sk = concat (map bl_left (send_buf_sending sk)) @ content (send_buf_waiting sk)"

definition lists_good :: "(buffer_list \<Rightarrow> bool) \<Rightarrow> (packet list \<Rightarrow> bool) \<Rightarrow> 'k socket \<Rightarrow> bool" where
  "lists_good good ready sk \<longleftrightarrow> list_all good (send_buf_sending sk) \<and> ready (send_buf_waiting sk)"

definition flush_result ::
  "'k sock_env \<Rightarrow> sock_fd \<Rightarrow> ('k \<Rightarrow> 'l list) \<Rightarrow> ('k socket \<Rightarrow> 'l list) \<Rightarrow> ('k socket \<Rightarrow> bool) \<Rightarrow>
   'k socket \<Rightarrow> bool \<Rightarrow> 'k socket \<Rightarrow> bool" where
  "flush_result E fd wire todo_of good sk b sk' \<longleftrightarrow>
     (\<exists>lost. wire (kern_st sk') @ lost @ todo_of sk' = wire (kern_st sk) @ todo_of sk \<and>
        (lost = [] \<or> \<not> b \<and> sockfd sk' = None)) \<and>
     good sk' \<and>
     (if b then todo_of sk' = [] \<or> refused (env_sendmsg E) (raw_fd fd) (kern_st sk')
      else env_closed E (kern_st sk') \<or> sockfd sk' = None)"

text \<open>The three rounds of \<open>flush_data\<close>: batches left over, the waiting packets, nothing left.\<close>

definition flush_rounds :: "'k socket \<Rightarrow> nat" where
  "flush_rounds sk = (if send_buf_sending sk = [] then 0 else 1) + (if send_buf_waiting sk = [] then 0 else 1)"

lemma batch_ok_nil [simp]: "batch_ok []"
  by (simp add: batch_ok_def)

text \<open>
  What \<open>flush_data\<close> needs of the batches it sends, whatever the mode: a batch that is sent keeps its
  own account, and a new batch has the content of its packets. The stream mode and the datagram
  mode are the instances.
\<close>

locale flushing =
  fixes E :: "'k sock_env" and fd :: sock_fd and wire :: "'k \<Rightarrow> 'l list"
    and good :: "buffer_list \<Rightarrow> bool" and bl_left :: "buffer_list \<Rightarrow> 'l list"
    and ready :: "packet list \<Rightarrow> bool" and content :: "packet list \<Rightarrow> 'l list"
  assumes send: "good bl \<Longrightarrow> \<exists>n bl' e' k'.
      bl_send (env_sendmsg E) (raw_fd fd) flags (fd_type fd = SOCK_UDP) bl e k = Some (n, bl', e', k') \<and>
      wire k' @ bl_left bl' = wire k @ bl_left bl \<and>
      (if n > 0 \<and> bl_empty bl' then bl_left bl' = []
       else good bl' \<and> refused (env_sendmsg E) (raw_fd fd) k')"
    and new: "ready ps \<Longrightarrow> ps \<noteq> [] \<Longrightarrow> good (bl_new ps) \<and> bl_left (bl_new ps) = content ps"
    and none: "ready ps \<Longrightarrow> ready [] \<and> content [] = []"
    and env: "ready ps \<Longrightarrow> env_ok E wire"
begin

lemma send_batches_left:
  "list_all good tmp \<Longrightarrow>
   \<exists>r tmp' e k. send_batches E fd tmp sk = Some (r, tmp', sk\<lparr>err_no := e, kern_st := k\<rparr>) \<and>
    list_all good tmp' \<and> (r = AllSent \<longleftrightarrow> tmp' = []) \<and>
    (r = AllSent \<or> refused (env_sendmsg E) (raw_fd fd) k) \<and>
    wire k @ concat (map bl_left tmp') = wire (kern_st sk) @ concat (map bl_left tmp)"
proof (induction tmp arbitrary: sk)
  case Nil
  show ?case
    by (intro exI [of _ AllSent] exI [of _ "[]"] exI [of _ "err_no sk"] exI [of _ "kern_st sk"]) simp
next
  case (Cons bl tmp)
  then have "good bl" by simp
  from send [OF this, of "socket_flags sk" "err_no sk" "kern_st sk"] obtain n bl' e k where
    s: "bl_send (env_sendmsg E) (raw_fd fd) (socket_flags sk) (fd_type fd = SOCK_UDP) bl (err_no sk) (kern_st sk) =
          Some (n, bl', e, k)" "wire k @ bl_left bl' = wire (kern_st sk) @ bl_left bl"
       "if n > 0 \<and> bl_empty bl' then bl_left bl' = [] else good bl' \<and> refused (env_sendmsg E) (raw_fd fd) k"
    by blast
  let ?sk = "sk\<lparr>err_no := e, kern_st := k\<rparr>"
  show ?case
  proof (cases "n > 0 \<and> bl_empty bl'")
    case True
    then have "send_batches E fd (bl # tmp) sk = send_batches E fd tmp ?sk" using s(1) by simp
    moreover have "\<exists>r tmp' e' k'. send_batches E fd tmp ?sk = Some (r, tmp', ?sk\<lparr>err_no := e', kern_st := k'\<rparr>) \<and>
      list_all good tmp' \<and> (r = AllSent \<longleftrightarrow> tmp' = []) \<and>
      (r = AllSent \<or> refused (env_sendmsg E) (raw_fd fd) k') \<and>
      wire k' @ concat (map bl_left tmp') = wire (kern_st ?sk) @ concat (map bl_left tmp)"
      using Cons by (intro Cons.IH) simp
    then obtain r tmp' e' k' where t: "send_batches E fd tmp ?sk = Some (r, tmp', ?sk\<lparr>err_no := e', kern_st := k'\<rparr>)"
      "list_all good tmp'" "r = AllSent \<longleftrightarrow> tmp' = []"
      "wire k' @ concat (map bl_left tmp') = wire (kern_st ?sk) @ concat (map bl_left tmp)"
      "r = AllSent \<or> refused (env_sendmsg E) (raw_fd fd) k'"
      by blast
    moreover have "wire k' @ concat (map bl_left tmp') = wire (kern_st sk) @ concat (map bl_left (bl # tmp))"
      using t(4) s(2,3) True by simp
    ultimately show ?thesis
      by (intro exI [of _ r] exI [of _ tmp'] exI [of _ e'] exI [of _ k']) simp
  next
    case False
    then have "good bl'" "refused (env_sendmsg E) (raw_fd fd) k" using s(3) by auto
    moreover have "\<exists>r. send_batches E fd (bl # tmp) sk = Some (r, bl' # tmp, ?sk) \<and> r \<noteq> AllSent"
      using s(1) False by (simp add: Let_def)
    then obtain r where "send_batches E fd (bl # tmp) sk = Some (r, bl' # tmp, ?sk)" "r \<noteq> AllSent"
      by blast
    moreover have "wire k @ concat (map bl_left (bl' # tmp)) = wire (kern_st sk) @ concat (map bl_left (bl # tmp))"
      using arg_cong [OF s(2), of "\<lambda>x. x @ concat (map bl_left tmp)"] by simp
    ultimately show ?thesis using Cons.prems
      by (intro exI [of _ r] exI [of _ "bl' # tmp"] exI [of _ e] exI [of _ k]) simp
  qed
qed

lemma flush_left:
  "lists_good good ready sk \<Longrightarrow> \<exists>b sk'. flush_data E fd sk = Some (b, sk') \<and>
     flush_result E fd wire (to_send bl_left content) (lists_good good ready) sk b sk'"
proof (induction "flush_rounds sk" arbitrary: sk rule: less_induct)
  case less
  have env: "env_ok E wire" and none: "ready [] \<and> content [] = []"
    using less.prems env none by (auto simp: lists_good_def)
  show ?case
  proof (cases "env_closed E (kern_st sk)")
    case True
    with less.prems show ?thesis
      by (subst flush_data.simps) (auto simp: flush_result_def)
  next
    case alive: False
    show ?thesis
    proof (cases "send_buf_sending sk = [] \<and> send_buf_waiting sk = []")
      case True
      have "wire (kern_st (stop_writeable_event E fd sk)) = wire (kern_st sk)"
        using env by (simp add: stop_writeable_event_def env_ok_def)
      with True alive on_flushed_frame [OF env, of "stop_writeable_event E fd sk"] none show ?thesis
        by (subst flush_data.simps)
          (auto simp: flush_result_def to_send_def lists_good_def stop_writeable_event_def)
    next
      case False
      define tmp where "tmp = (if send_buf_sending sk \<noteq> [] then send_buf_sending sk
          else [bl_new (send_buf_waiting sk)])"
      define sk0 where "sk0 = (if send_buf_sending sk \<noteq> [] then sk\<lparr>send_buf_sending := []\<rparr>
          else sk\<lparr>send_buf_waiting := []\<rparr>)"
      have pair: "(if send_buf_sending sk \<noteq> [] then (send_buf_sending sk, sk\<lparr>send_buf_sending := []\<rparr>)
            else ([bl_new (send_buf_waiting sk)], sk\<lparr>send_buf_waiting := []\<rparr>)) = (tmp, sk0)"
        by (simp add: tmp_def sk0_def)
      have tmp: "list_all good tmp"
        "concat (map bl_left tmp) @ to_send bl_left content sk0 = to_send bl_left content sk"
        using less.prems False new [of "send_buf_waiting sk"] none
        by (auto simp: tmp_def sk0_def lists_good_def to_send_def)
      have sk0: "send_buf_sending sk0 = []" "lists_good good ready sk0" "kern_st sk0 = kern_st sk"
        using less.prems none by (auto simp: sk0_def lists_good_def)
      from send_batches_left [OF tmp(1), of sk0] obtain r tmp' e k where
        b: "send_batches E fd tmp sk0 = Some (r, tmp', sk0\<lparr>err_no := e, kern_st := k\<rparr>)"
          "list_all good tmp'" "r = AllSent \<longleftrightarrow> tmp' = []"
          "wire k @ concat (map bl_left tmp') = wire (kern_st sk) @ concat (map bl_left tmp)"
          "r = AllSent \<or> refused (env_sendmsg E) (raw_fd fd) k"
        using sk0(3) by auto
      let ?sk = "sk0\<lparr>err_no := e, kern_st := k\<rparr>"
      have f: "flush_data E fd sk = (case r of
            SendError \<Rightarrow> Some (False, snd (on_error E fd ?sk))
          | WouldBlock \<Rightarrow> Some (True, ?sk\<lparr>send_buf_sending := tmp' @ send_buf_sending ?sk\<rparr>)
          | AllSent \<Rightarrow> flush_data E fd ?sk)"
        using alive False b(1) pair by (subst flush_data.simps) (simp del: send_batches.simps, blast)
      have w: "wire k @ concat (map bl_left tmp') @ to_send bl_left content sk0 =
          wire (kern_st sk) @ to_send bl_left content sk"
        using b(4) tmp(2) by (metis append_assoc)
      show ?thesis
      proof (cases r)
        case AllSent
        have "flush_rounds ?sk < flush_rounds sk"
          using False by (auto simp: flush_rounds_def sk0_def)
        moreover have "lists_good good ready ?sk" using sk0(2) by (simp add: lists_good_def)
        ultimately obtain c sk' where c: "flush_data E fd ?sk = Some (c, sk')"
          "flush_result E fd wire (to_send bl_left content) (lists_good good ready) ?sk c sk'"
          using less.hyps by blast
        have "wire (kern_st ?sk) @ to_send bl_left content ?sk = wire (kern_st sk) @ to_send bl_left content sk"
          using w b(3) AllSent by (simp add: to_send_def)
        with c f AllSent show ?thesis by (auto simp: flush_result_def)
      next
        case WouldBlock
        let ?sk' = "?sk\<lparr>send_buf_sending := tmp' @ send_buf_sending ?sk\<rparr>"
        have "wire (kern_st ?sk') @ to_send bl_left content ?sk' = wire (kern_st sk) @ to_send bl_left content sk"
          "lists_good good ready ?sk'"
          using w sk0 b(2) by (simp_all add: to_send_def lists_good_def)
        with f WouldBlock b(5) show ?thesis by (auto simp: flush_result_def)
      next
        case SendError
        let ?sk' = "snd (on_error E fd ?sk)"
        have "wire (kern_st ?sk') @ concat (map bl_left tmp') @ to_send bl_left content ?sk' =
            wire (kern_st sk) @ to_send bl_left content sk"
          "lists_good good ready ?sk'" "sockfd ?sk' = None"
          using w sk0(2) on_error_frame [OF env, of fd ?sk] by (simp_all add: to_send_def lists_good_def)
        with f SendError show ?thesis by (auto simp: flush_result_def)
      qed
    qed
  qed
qed

end

text \<open>A connection: the log is the bytes that have been sent.\<close>

definition stream_ok :: "'k sock_env \<Rightarrow> sock_fd \<Rightarrow> ('k \<Rightarrow> block) \<Rightarrow> ('k \<Rightarrow> nat) \<Rightarrow> bool" where
  "stream_ok E fd wire \<mu> \<longleftrightarrow>
     kernel_ok (env_sendmsg E) (raw_fd fd) wire stream_valid stream_deliver \<and>
     eintr_bounded (env_sendmsg E) (raw_fd fd) \<mu> \<and> fd_type fd = SOCK_TCP \<and> env_ok E wire"

interpretation stream: flushing E fd wire "\<lambda>bl. stream_ok E fd wire \<mu> \<and> batch_good bl" pending
    "\<lambda>ps. stream_ok E fd wire \<mu> \<and> batch_ok ps" "\<lambda>ps. concat (map payload ps)"
  for E :: "'k sock_env" and fd wire \<mu>
proof unfold_locales
  fix bl flags e and k :: 'k
  assume *: "stream_ok E fd wire \<mu> \<and> batch_good bl"
  then obtain ps where inv: "bl_inv ps bl" "pending bl \<noteq> []" by (auto simp: batch_good_def)
  from * have ok: "kernel_ok (env_sendmsg E) (raw_fd fd) wire stream_valid stream_deliver"
    "eintr_bounded (env_sendmsg E) (raw_fd fd) \<mu>" "fd_type fd = SOCK_TCP" by (auto simp: stream_ok_def)
  from bl_send_stream [OF ok(1,2) inv(1), of flags e k] obtain n bl' e' k' where
    s: "bl_send (env_sendmsg E) (raw_fd fd) flags False bl e k = Some (n, bl', e', k')" "bl_inv ps bl'"
       "wire k' @ pending bl' = wire k @ pending bl"
       "n = (if length (pending bl') < length (pending bl)
             then int (length (pending bl) - length (pending bl')) else -1)"
       "pending bl' = [] \<or> refused (env_sendmsg E) (raw_fd fd) k'"
    by blast
  have "if n > 0 \<and> bl_empty bl' then pending bl' = []
      else (stream_ok E fd wire \<mu> \<and> batch_good bl') \<and> refused (env_sendmsg E) (raw_fd fd) k'"
    using s inv(2) bl_empty_pending [OF s(2)] * by (auto simp: batch_good_def)
  moreover have "bl_send (env_sendmsg E) (raw_fd fd) flags (fd_type fd = SOCK_UDP) bl e k = Some (n, bl', e', k')"
    using s(1) ok(3) by simp
  ultimately show "\<exists>n bl' e' k'. bl_send (env_sendmsg E) (raw_fd fd) flags (fd_type fd = SOCK_UDP) bl e k =
      Some (n, bl', e', k') \<and> wire k' @ pending bl' = wire k @ pending bl \<and>
      (if n > 0 \<and> bl_empty bl' then pending bl' = []
       else (stream_ok E fd wire \<mu> \<and> batch_good bl') \<and> refused (env_sendmsg E) (raw_fd fd) k')"
    using s(3) by blast
qed (auto simp: batch_good_new stream_ok_def)

lemma stream_lists:
  "to_send pending (\<lambda>ps. concat (map payload ps)) = unsent"
  "stream_ok E fd wire \<mu> \<Longrightarrow>
   lists_good (\<lambda>bl. stream_ok E fd wire \<mu> \<and> batch_good bl) (\<lambda>ps. stream_ok E fd wire \<mu> \<and> batch_ok ps) = sock_good"
  by (auto simp: to_send_def unsent_def lists_good_def sock_good_def fun_eq_iff)

lemma flush_stream:
  assumes "kernel_ok (env_sendmsg E) (raw_fd fd) wire stream_valid stream_deliver"
    and "eintr_bounded (env_sendmsg E) (raw_fd fd) \<mu>" and "fd_type fd = SOCK_TCP"
    and "env_ok E wire" and "sock_good sk"
  shows "\<exists>b sk'. flush_data E fd sk = Some (b, sk') \<and> flush_result E fd wire unsent sock_good sk b sk'"
proof -
  have ok: "stream_ok E fd wire \<mu>" using assms by (simp add: stream_ok_def)
  show ?thesis
    using stream.flush_left [where sk = sk and E = E and fd = fd and wire = wire and \<mu> = \<mu>] assms(5)
    unfolding stream_lists(1) stream_lists(2) [OF ok] .
qed

section \<open>Queueing\<close>

lemma Send_packet:
  assumes "0 < n" and "n < 2 ^ 31" and "n \<le> length buf" and "sockfd sk = Some fd"
    and "fd_type fd = SOCK_TCP"
  shows "\<exists>p. Send buf (int n) addr len sk = Inr (0, Some p) \<and> packet_ok p \<and> 0 < packet_size p \<and>
    unat (packet_size p) = n \<and> payload p = map Some (take n buf)"
proof -
  have u: "unat (word_of_int (int n) :: u32) = n" using assms(2) by (simp add: unat_of_nat take_bit_nat_eq_self)
  have new: "raw_alloc (raw_new 0)" using raw_new_ok by (simp add: raw_ok_def)
  have nz: "(word_of_int (int n) :: u32) \<noteq> 0" using u assms(1) by (metis unat_0 less_numeral_extra(3))
  have "if word_of_int (int n) = (0 :: u32) then c_strlen buf = Some n \<and> n < 2 ^ 32
      else n = unat (word_of_int (int n) :: u32) \<and> n \<le> length buf"
    using nz u assms(3) by simp
  from Assign_ok [OF new this] assms(2) obtain b where
    b: "Assign buf (word_of_int (int n)) (raw_new 0) = Inr b" "raw_ok b" "unat (raw_size b) = n"
      "raw_to_string b = Inr (map Some (take n buf))" by auto
  have sz: "raw_size b \<noteq> 0" using b(3) assms(1) by auto
  have "payload (Raw b) = map Some (take n buf)"
    using b(3,4) by (simp add: payload_def raw_to_string_def split: if_splits)
  moreover have "Send buf (int n) addr len sk = Inr (0, Some (Raw b))"
    using assms b(1) sz by (simp add: Send_def sock_send_def)
  moreover have "0 < raw_size b" using sz by (simp add: word_gt_0)
  ultimately show ?thesis using b(2,3) by (intro exI [of _ "Raw b"]) simp
qed

lemma Send_closed:
  assumes "0 < n" and "n < 2 ^ 31" and "n \<le> length buf" and "sockfd sk = None"
  shows "Send buf (int n) addr len sk = Inr (-1, None)"
proof -
  let ?fd = "\<lparr>raw_fd = 0, fd_type = SOCK_TCP, fd_connected = True\<rparr>"
  have "\<exists>b. Assign buf (word_of_int (int n)) (raw_new 0) = Inr b \<and> raw_size b \<noteq> 0"
    using Send_packet [OF assms(1-3), of "sk\<lparr>sockfd := Some ?fd\<rparr>" ?fd addr len] assms(1)
    by (auto simp: Send_def sock_send_def split: sum.splits if_splits)
  with assms(1,4) show ?thesis by (auto simp: Send_def sock_send_def)
qed

lemma send_task_unsent: "unsent (send_task E fd p sk) = unsent sk @ payload p"
  by (simp add: send_task_def Let_def unsent_def start_writeable_event_def)

section \<open>The write interest\<close>

text \<open>Whenever something waits to be sent, the socket counts on a writable event.\<close>

definition armed_for_write :: "'k socket \<Rightarrow> bool" where
  "armed_for_write sk \<longleftrightarrow> (send_buf_sending sk \<noteq> [] \<or> send_buf_waiting sk \<noteq> [] \<longrightarrow> sending sk)"

text \<open>What happens to a socket: its queued sends run, the poller reports it writable or in error, it is
  closed, a new descriptor is attached.\<close>

datatype sock_op = OpSend packet | OpWriteable | OpError | OpClose | OpAttach sock_fd

fun exec_sock_op :: "'k sock_env \<Rightarrow> sock_op \<Rightarrow> 'k socket \<Rightarrow> 'k socket option" where
  "exec_sock_op E (OpSend p) sk =
     Some (case sockfd sk of None \<Rightarrow> sk | Some fd \<Rightarrow> send_task E fd p sk)"
| "exec_sock_op E OpWriteable sk =
     (case sockfd sk of None \<Rightarrow> Some sk | Some fd \<Rightarrow> on_writeable E fd sk)"
| "exec_sock_op E OpError sk =
     Some (case sockfd sk of None \<Rightarrow> sk | Some fd \<Rightarrow> snd (on_error E fd sk))"
| "exec_sock_op E OpClose sk = Some (Close sk)"
| "exec_sock_op E (OpAttach fd) sk = Some ((Close sk)\<lparr>sockfd := Some fd\<rparr>)"

lemma send_batches_sending:
  "send_batches E fd tmp sk = Some (r, tmp', sk') \<Longrightarrow>
   sending sk' = sending sk \<and> send_buf_sending sk' = send_buf_sending sk \<and>
   send_buf_waiting sk' = send_buf_waiting sk"
proof (induction tmp arbitrary: sk)
  case (Cons pkt tmp)
  then obtain n pkt' e k where
    "bl_send (env_sendmsg E) (raw_fd fd) (socket_flags sk) (fd_type fd = SOCK_UDP) pkt (err_no sk) (kern_st sk) =
       Some (n, pkt', e, k)" by auto
  with Cons.IH [of "sk\<lparr>err_no := e, kern_st := k\<rparr>"] Cons.prems show ?case
    by (auto simp: Let_def split: if_splits)
qed simp

text \<open>
  What \<open>flush_data\<close> keeps: \<open>I\<close> between its rounds, \<open>J\<close> while the batches of a round are in hand.
\<close>

locale flush_keeps =
  fixes E :: "'k sock_env" and fd :: sock_fd
    and I :: "'k socket \<Rightarrow> bool" and J :: "buffer_list list \<Rightarrow> 'k socket \<Rightarrow> bool"
  assumes idle: "I sk \<Longrightarrow> send_buf_sending sk = [] \<Longrightarrow> send_buf_waiting sk = [] \<Longrightarrow>
      I (on_flushed E (stop_writeable_event E fd sk))"
    and take_sending: "I sk \<Longrightarrow> send_buf_sending sk \<noteq> [] \<Longrightarrow>
      J (send_buf_sending sk) (sk\<lparr>send_buf_sending := []\<rparr>)"
    and take_waiting: "I sk \<Longrightarrow> send_buf_sending sk = [] \<Longrightarrow> send_buf_waiting sk \<noteq> [] \<Longrightarrow>
      J [bl_new (send_buf_waiting sk)] (sk\<lparr>send_buf_waiting := []\<rparr>)"
    and batches: "J tmp sk \<Longrightarrow> send_batches E fd tmp sk = Some (r, tmp', sk') \<Longrightarrow> J tmp' sk'"
    and all_sent: "J tmp sk \<Longrightarrow> I sk"
    and would_block: "J tmp sk \<Longrightarrow> I (sk\<lparr>send_buf_sending := tmp @ send_buf_sending sk\<rparr>)"
    and failed: "J tmp sk \<Longrightarrow> I (snd (on_error E fd sk))"
begin

lemma flush:
  assumes "flush_data E fd sk = Some y" and "I sk"
  shows "I (snd y)"
proof -
  have "E = E \<and> fd = fd \<longrightarrow> I sk \<longrightarrow> I (snd y)"
  proof (rule flush_data.raw_induct [where P = "\<lambda>E' fd' sk y. E' = E \<and> fd' = fd \<longrightarrow> I sk \<longrightarrow> I (snd y)",
      OF _ assms(1)], intro impI)
    fix self E' fd' sk y
    assume IH: "\<And>E' fd' sk y. self E' fd' sk = Some y \<Longrightarrow> E' = E \<and> fd' = fd \<longrightarrow> I sk \<longrightarrow> I (snd y)"
      and body: "(if env_closed E' (kern_st sk) then Some (False, sk)
        else if send_buf_sending sk = [] \<and> send_buf_waiting sk = []
        then Some (True, on_flushed E' (stop_writeable_event E' fd' sk))
        else
          (let (tmp, sk0) =
             (if send_buf_sending sk \<noteq> [] then (send_buf_sending sk, sk\<lparr>send_buf_sending := []\<rparr>)
              else ([bl_new (send_buf_waiting sk)], sk\<lparr>send_buf_waiting := []\<rparr>))
           in send_batches E' fd' tmp sk0 \<bind>
                (\<lambda>(r, tmp', sk1). case r of
                   AllSent \<Rightarrow> self E' fd' sk1
                 | WouldBlock \<Rightarrow> Some (True, sk1\<lparr>send_buf_sending := tmp' @ send_buf_sending sk1\<rparr>)
                 | SendError \<Rightarrow> Some (False, snd (on_error E' fd' sk1))))) = Some y"
      and E: "E' = E \<and> fd' = fd" and I: "I sk"
    show "I (snd y)"
    proof (cases "env_closed E (kern_st sk) \<or> (send_buf_sending sk = [] \<and> send_buf_waiting sk = [])")
      case True
      with body I E idle show ?thesis by (auto split: if_splits)
    next
      case False
      obtain tmp sk0 where t: "(if send_buf_sending sk \<noteq> [] then (send_buf_sending sk, sk\<lparr>send_buf_sending := []\<rparr>)
          else ([bl_new (send_buf_waiting sk)], sk\<lparr>send_buf_waiting := []\<rparr>)) = (tmp, sk0)"
        by fastforce
      have J: "J tmp sk0"
        using t False I take_sending take_waiting by (auto split: if_splits)
      have c: "env_closed E (kern_st sk) = False" "E' = E" "fd' = fd"
        "(send_buf_sending sk = [] \<and> send_buf_waiting sk = []) = False" using False E by auto
      from body [unfolded c if_False t Let_def prod.case] obtain r tmp' sk1
        where b: "send_batches E fd tmp sk0 = Some (r, tmp', sk1)"
        and y: "(case r of AllSent \<Rightarrow> self E fd sk1
                 | WouldBlock \<Rightarrow> Some (True, sk1\<lparr>send_buf_sending := tmp' @ send_buf_sending sk1\<rparr>)
                 | SendError \<Rightarrow> Some (False, snd (on_error E fd sk1))) = Some y"
        by (auto simp del: send_batches.simps)
      from batches [OF J b] y IH [of E fd sk1 y] show ?thesis
        by (cases r) (auto intro: would_block failed all_sent)
    qed
  qed
  with assms(2) show ?thesis by simp
qed

end

interpretation armed: flush_keeps E fd "\<lambda>sk. env_ok E wire \<and> armed_for_write sk"
    "\<lambda>tmp sk. env_ok E wire \<and> sending sk" for E :: "'k sock_env" and fd and wire :: "'k \<Rightarrow> 'l list"
proof unfold_locales
  fix sk :: "'k socket"
  assume "env_ok E wire \<and> armed_for_write sk" "send_buf_sending sk = []" "send_buf_waiting sk = []"
  then show "env_ok E wire \<and> armed_for_write (on_flushed E (stop_writeable_event E fd sk))"
    using on_flushed_frame [of E wire "stop_writeable_event E fd sk"]
    by (simp add: armed_for_write_def stop_writeable_event_def)
next
  fix tmp :: "buffer_list list" and sk :: "'k socket"
  assume "env_ok E wire \<and> sending sk"
  then show "env_ok E wire \<and> armed_for_write (snd (on_error E fd sk))"
    using on_error_frame [of E wire fd sk] by (simp add: armed_for_write_def)
qed (auto simp: armed_for_write_def dest: send_batches_sending)

lemma flush_data_armed:
  assumes "flush_data E fd sk = Some y" and "env_ok E wire" and "armed_for_write sk"
  shows "armed_for_write (snd y)"
  using armed.flush [OF assms(1), of wire] assms(2,3) by simp

lemma exec_sock_op_armed:
  assumes "env_ok E wire" and "armed_for_write sk" and "exec_sock_op E op sk = Some sk'"
  shows "armed_for_write sk'"
proof (cases op)
  case (OpSend p)
  with assms show ?thesis
    by (auto simp: send_task_def Let_def start_writeable_event_def armed_for_write_def split: option.splits if_splits)
next
  case OpWriteable
  show ?thesis
  proof (cases "sockfd sk")
    case (Some fd)
    show ?thesis
    proof (cases "send_buf_sending sk = [] \<and> send_buf_waiting sk = []")
      case True
      with assms OpWriteable Some show ?thesis
        by (auto simp: on_writeable_def stop_writeable_event_def armed_for_write_def)
    next
      case False
      with assms OpWriteable Some obtain b where "flush_data E fd sk = Some (b, sk')"
        by (auto simp: on_writeable_def)
      from flush_data_armed [OF this assms(1,2)] show ?thesis by simp
    qed
  qed (use assms OpWriteable in simp)
next
  case OpError
  with assms on_error_frame [OF assms(1), of _ sk] show ?thesis
    by (auto simp: armed_for_write_def split: option.splits)
qed (use assms in \<open>auto simp: Close_def armed_for_write_def\<close>)

lemma sock_ops_armed:
  "env_ok E wire \<Longrightarrow> armed_for_write sk \<Longrightarrow> iter_opt (exec_sock_op E) ops sk = Some sk' \<Longrightarrow> armed_for_write sk'"
  by (induction ops arbitrary: sk) (auto dest: exec_sock_op_armed)

section \<open>Properties\<close>

text \<open>An environment over the scripted kernel: sockets that report no error, a callback that asks not
  to be called again.\<close>

definition demo_env :: "(answer list \<times> block) sock_env" where
  "demo_env = \<lparr>env_sendmsg = script_stream, env_so_error = (\<lambda>fd k. ((0, 0, 0), k)),
     env_closed = (\<lambda>_. False), env_modify = (\<lambda>fd m k. k), env_flushed = (\<lambda>c sk. (False, sk)),
     env_strerror = (\<lambda>_. ''error'')\<rparr>"

definition demo_fd :: sock_fd where
  "demo_fd = \<lparr>raw_fd = 3, fd_type = SOCK_TCP, fd_connected = True\<rparr>"

definition demo_sock :: "(answer list \<times> block) socket" where
  "demo_sock = \<lparr>sockfd = Some demo_fd, timer = False, connecting = False, send_buf_sending = [],
     send_buf_waiting = [demo_packet 7 1, demo_packet 9 2], sending = True, enable_recv = True,
     flushed_cb = Some 0, socket_flags = 0, reported = [], err_no = 0,
     kern_st = ([Room 1, Err EINTR, Room 2], [])\<rparr>"

lemma demo_env_ok: "env_ok demo_env snd"
  by (simp add: env_ok_def demo_env_def)

lemma demo_sendmsg: "env_sendmsg demo_env = script_stream" "raw_fd demo_fd = 3" "fd_type demo_fd = SOCK_TCP"
  by (simp_all add: demo_env_def demo_fd_def)

lemma demo_sock_good: "sock_good demo_sock"
  using demo_batch by (simp add: sock_good_def demo_sock_def)

lemma demo_unsent: "unsent demo_sock = [Some 7, Some 0, Some 9, Some 0]"
  by (simp add: unsent_def demo_sock_def payload_def demo_packet_def sock_block_def sock_size_def block_of_def)

text \<open>
  Property C6. \<open>flush_data\<close> on a connection returns and keeps the stream intact: whatever prefix the
  kernel takes each time, what the peer has received followed by what is still to be sent stays
  the same - the batch in progress, the batches behind it and the packets that wait, in this
  order, over all its rounds. Only after a fatal error, when the socket has been closed and the
  result is \<open>false\<close>, are the batches in hand dropped; the packets that wait are still kept. Otherwise
  it goes on until everything is sent or the last \<open>sendmsg\<close> has failed, unless the poller has ended.
\<close>

theorem flush_keeps_stream:
  assumes "kernel_ok (env_sendmsg E) (raw_fd fd) wire stream_valid stream_deliver"
    and "eintr_bounded (env_sendmsg E) (raw_fd fd) \<mu>" and "fd_type fd = SOCK_TCP"
    and "env_ok E wire" and "sock_good sk"
  shows "\<exists>b sk' lost. flush_data E fd sk = Some (b, sk') \<and>
    wire (kern_st sk') @ lost @ unsent sk' = wire (kern_st sk) @ unsent sk \<and>
    (lost = [] \<or> \<not> b \<and> sockfd sk' = None) \<and> sock_good sk' \<and>
    (if b then unsent sk' = [] \<or> refused (env_sendmsg E) (raw_fd fd) (kern_st sk')
     else env_closed E (kern_st sk') \<or> sockfd sk' = None)"
  using flush_stream [OF assms] unfolding flush_result_def by blast

lemma demo_kernel_ok:
  "kernel_ok (env_sendmsg demo_env) (raw_fd demo_fd) snd stream_valid stream_deliver"
  "eintr_bounded (env_sendmsg demo_env) (raw_fd demo_fd) (\<lambda>k. length (fst k))"
  by (simp_all add: demo_sendmsg script_stream_ok)

lemma flush_keeps_stream_witness:
  "\<exists>b sk' lost. flush_data demo_env demo_fd demo_sock = Some (b, sk') \<and>
     snd (kern_st sk') @ lost @ unsent sk' = [Some 7, Some 0, Some 9, Some 0]"
proof -
  have "snd (kern_st demo_sock) = []" by (simp add: demo_sock_def)
  with flush_keeps_stream [OF demo_kernel_ok demo_sendmsg(3) demo_env_ok demo_sock_good]
  show ?thesis unfolding demo_unsent by (metis append_Nil)
qed

text \<open>
  \<open>Send\<close> on an open connection copies exactly the bytes it was given into a packet, and
  its queued half appends them to what is to be sent, behind everything already there; on a
  closed socket it returns -1 and queues nothing.
\<close>

theorem Send_appends:
  assumes "0 < n" and "n < 2 ^ 31" and "n \<le> length buf"
    and "fd_type fd = SOCK_TCP"
  shows "(sockfd sk = Some fd \<longrightarrow>
      (\<exists>p. Send buf (int n) addr len sk = Inr (0, Some p) \<and> packet_ok p \<and>
        unsent (send_task E fd p sk') = unsent sk' @ map Some (take n buf))) \<and>
    (sockfd sk = None \<longrightarrow> Send buf (int n) addr len sk = Inr (-1, None))"
proof (intro conjI impI)
  assume "sockfd sk = Some fd"
  from Send_packet [OF assms(1-3) this assms(4)] show "\<exists>p. Send buf (int n) addr len sk = Inr (0, Some p) \<and>
      packet_ok p \<and> unsent (send_task E fd p sk') = unsent sk' @ map Some (take n buf)"
    by (metis send_task_unsent)
next
  assume "sockfd sk = None"
  then show "Send buf (int n) addr len sk = Inr (-1, None)" by (rule Send_closed [OF assms(1-3)])
qed

lemma Send_appends_witness:
  "\<exists>p. Send [1, 2, 3] 2 None 0 demo_sock = Inr (0, Some p) \<and>
     unsent (send_task demo_env demo_fd p demo_sock) = [Some 7, Some 0, Some 9, Some 0, Some 1, Some 2]"
  using Send_appends [where n = 2 and buf = "[1, 2, 3]" and fd = demo_fd and sk = demo_sock and sk' = demo_sock
      and addr = None and len = 0 and E = demo_env] demo_unsent
  by (auto simp: demo_sendmsg) (auto simp: demo_sock_def)

text \<open>
  Property C28. No data waits for ever without the socket counting on a writable event: over any
  sequence of sends, writable and error events, closes and new connections, whenever something is
  in the two lists the flag \<open>sending_\<close> is set, which \<open>start_writeable_event\<close> sets together with
  \<open>PE_WRITE\<close> in the poller's mask.
\<close>

theorem write_interest_kept:
  assumes "env_ok E wire" and "armed_for_write sk"
    and "iter_opt (exec_sock_op E) ops sk = Some sk'"
    and "send_buf_sending sk' \<noteq> [] \<or> send_buf_waiting sk' \<noteq> []"
  shows "sending sk'"
  using sock_ops_armed [OF assms(1-3)] assms(4) by (simp add: armed_for_write_def)

lemma write_interest_kept_witness:
  "sending ((Close (send_task demo_env demo_fd (demo_packet 5 5) demo_sock))\<lparr>sockfd := Some demo_fd\<rparr>)"
  by (rule write_interest_kept [OF demo_env_ok, where sk = demo_sock
        and ops = "[OpSend (demo_packet 5 5), OpAttach demo_fd]"])
    (simp_all add: demo_sock_def armed_for_write_def send_task_def Let_def start_writeable_event_def Close_def)

text \<open>
  Property C39. \<open>Close\<close> does not discard what was to be sent: after a close and a new connection, a
  flush that gets everything through sends the bytes meant for the old peer to the new one.
\<close>

theorem stale_bytes_reach_new_peer:
  assumes "kernel_ok (env_sendmsg E) (raw_fd fd) wire stream_valid stream_deliver"
    and "eintr_bounded (env_sendmsg E) (raw_fd fd) \<mu>" and "fd_type fd = SOCK_TCP"
    and "env_ok E wire" and "sock_good sk"
    and "flush_data E fd ((Close sk)\<lparr>sockfd := Some fd\<rparr>) = Some (True, sk')" and "unsent sk' = []"
  shows "wire (kern_st sk') = wire (kern_st sk) @ unsent sk"
proof -
  let ?sk = "(Close sk)\<lparr>sockfd := Some fd\<rparr>"
  have "sock_good ?sk" "unsent ?sk = unsent sk" "kern_st ?sk = kern_st sk"
    using assms(5) by (simp_all add: sock_good_def unsent_def Close_def)
  with flush_stream [OF assms(1-4), of ?sk] assms(6,7) show ?thesis
    by (auto simp: flush_result_def)
qed

definition stale_sock :: "(answer list \<times> block) socket" where
  "stale_sock = demo_sock\<lparr>send_buf_waiting := [demo_packet 7 1], kern_st := ([Room 9], [])\<rparr>"

lemma stale_send_l:
  "\<exists>bl. send_l script_stream 3 0 False (bl_new [demo_packet 7 1]) 0 ([Room 9], []) =
     Some (2, bl, 0, ([], [Some 7, Some 0])) \<and> bl_empty bl \<and> bl_remain_size bl = 0"
  by (simp add: send_l_def mk_msg_def Let_def bl_new_def iov_of_def iov_bytes_def demo_packet_def
      sock_block_def sock_size_def block_of_def, subst sendmsg_retry.simps,
      simp add: Let_def bl_empty_def int32_id)

lemma stale_send:
  "\<exists>bl. bl_send script_stream 3 0 False (bl_new [demo_packet 7 1]) 0 ([Room 9], []) =
     Some (2, bl, 0, ([], [Some 7, Some 0])) \<and> bl_empty bl"
proof -
  obtain bl where l: "send_l script_stream 3 0 False (bl_new [demo_packet 7 1]) 0 ([Room 9], []) =
     Some (2, bl, 0, ([], [Some 7, Some 0]))" "bl_empty bl" "bl_remain_size bl = 0"
    using stale_send_l by blast
  have r: "bl_remain_size (bl_new [demo_packet 7 1]) = 2"
    by (simp add: bl_new_def demo_packet_def sock_size_def int32_id)
  have "send_loop script_stream 3 0 False (bl_new [demo_packet 7 1]) 0 ([Room 9], []) =
      Some (bl, 0, ([], [Some 7, Some 0]))"
    using l r by (subst send_loop.simps, simp, subst send_loop.simps, simp)
  then show ?thesis using l r by (simp add: bl_send_def)
qed

lemma stale_flush:
  "\<exists>sk'. flush_data demo_env demo_fd ((Close stale_sock)\<lparr>sockfd := Some demo_fd\<rparr>) = Some (True, sk') \<and>
     unsent sk' = []"
proof -
  obtain bl where s: "bl_send script_stream 3 0 False (bl_new [demo_packet 7 1]) 0 ([Room 9], []) =
     Some (2, bl, 0, ([], [Some 7, Some 0]))" "bl_empty bl" using stale_send by blast
  show ?thesis
    by (subst flush_data.simps)
      (simp add: stale_sock_def demo_sock_def Close_def demo_sendmsg s,
       subst flush_data.simps,
       simp add: demo_env_def on_flushed_def stop_writeable_event_def unsent_def)
qed

lemma stale_bytes_reach_new_peer_witness:
  "\<exists>sk'. flush_data demo_env demo_fd ((Close stale_sock)\<lparr>sockfd := Some demo_fd\<rparr>) = Some (True, sk') \<and>
     snd (kern_st sk') = [Some 7, Some 0]"
proof -
  obtain sk' where f: "flush_data demo_env demo_fd ((Close stale_sock)\<lparr>sockfd := Some demo_fd\<rparr>) = Some (True, sk')"
    "unsent sk' = []" using stale_flush by blast
  have "sock_good stale_sock" by (simp add: sock_good_def stale_sock_def demo_sock_def)
    (simp add: batch_ok_def demo_packet_def sock_ok_def raw_ok_def raw_alloc_def block_of_def sock_size_def)
  moreover have "unsent stale_sock = [Some 7, Some 0]" "snd (kern_st stale_sock) = []"
    by (simp_all add: unsent_def stale_sock_def demo_sock_def payload_def demo_packet_def sock_block_def
      sock_size_def block_of_def)
  ultimately show ?thesis
    using stale_bytes_reach_new_peer [OF demo_kernel_ok demo_sendmsg(3) demo_env_ok _ f] f(1) by auto
qed

text \<open>
  The code that \<open>get_socket_error\<close> reports: that of the pending error, translated,
  when there is one - and otherwise that of whatever \<open>errno\<close> an earlier call left, so that a
  connection that was established can be reported as failed.
\<close>

theorem socket_error_code:
  assumes "env_so_error E (raw_fd fd) (kern_st sk) = ((0, e, v), k)"
  shows "let err = (if v \<noteq> 0 then uv_translate_posix_error v else get_uv_error (err_no sk));
             code = ex_code (fst (get_socket_error E True fd sk))
         in (code = ERR_SUCCESS \<longleftrightarrow> err = 0 \<or> err = EAGAIN) \<and>
            (code = ERR_TIMEOUT \<longleftrightarrow> err = ETIMEDOUT) \<and> (code = ERR_REFUESD \<longleftrightarrow> err = ECONNREFUSED) \<and>
            (code = ERR_OTHER \<longleftrightarrow> err \<notin> {0, EAGAIN, ETIMEDOUT, ECONNREFUSED})"
proof -
  define err where "err = (if v \<noteq> 0 then uv_translate_posix_error v else get_uv_error (err_no sk))"
  have "ex_code (fst (get_socket_error E True fd sk)) =
      (if err = 0 \<or> err = EAGAIN then ERR_SUCCESS else if err = ETIMEDOUT then ERR_TIMEOUT
       else if err = ECONNREFUSED then ERR_REFUESD else ERR_OTHER)"
    unfolding get_socket_error_def assms by (cases "v = 0") (simp_all add: Let_def err_def)
  then show ?thesis unfolding err_def [symmetric] Let_def by simp
qed

lemma socket_error_code_witness:
  "ex_code (fst (get_socket_error demo_env True demo_fd (demo_sock\<lparr>err_no := 2\<rparr>))) = ERR_OTHER"
proof -
  have "env_so_error demo_env (raw_fd demo_fd) (kern_st (demo_sock\<lparr>err_no := 2\<rparr>)) =
      ((0, 0, 0), kern_st demo_sock)" by (simp add: demo_env_def)
  from socket_error_code [OF this] show ?thesis
    by (simp add: Let_def get_uv_error_def uv_translate_posix_error_def)
qed

end
