(* ===== verification/DnsCache.thy ===== *)
theory DnsCache
  imports UvError
begin

text \<open>
  \<^verbatim>\<open>net/dns_cache.cpp\<close>: the cache of resolved host names. \<open>getaddrinfo\<close>, \<open>freeaddrinfo\<close> and the
  clock are parameters: functions on the state of the system, which also holds \<open>errno\<close>. The
  address type is a parameter too, the cache only copies it.
\<close>

record 'a dns_item =
  item_addr :: 'a
  create_time :: u64

record ('a, 'w) dns_env =
  sys_getaddrinfo :: "string \<Rightarrow> 'w \<Rightarrow> int \<times> 'a option \<times> 'w"
  sys_freeaddrinfo :: "'w \<Rightarrow> 'w"
  dns_errno :: "'w \<Rightarrow> errno"
  current_seconds :: "'w \<Rightarrow> u64 \<times> 'w"

record ('a, 'w) dns_cache =
  dns_map :: "string \<rightharpoonup> 'a dns_item"
  dns_world :: 'w

text \<open>
  A name that is found but too old is erased. \<open>expire_sec\<close> is an \<open>int\<close>, which the addition
  converts to \<open>uint64_t\<close>.
\<close>

definition expired :: "'a dns_item \<Rightarrow> int \<Rightarrow> u64 \<Rightarrow> bool" where
  "expired it expire_sec now \<longleftrightarrow> create_time it + of_int expire_sec < now"

definition get_cache_domain_ip ::
  "('a, 'w) dns_env \<Rightarrow> string \<Rightarrow> int \<Rightarrow> ('a, 'w) dns_cache \<Rightarrow>
     'a dns_item option \<times> ('a, 'w) dns_cache" where
  "get_cache_domain_ip E host expire_sec d =
     (case dns_map d host of
        None \<Rightarrow> (None, d)
      | Some it \<Rightarrow>
          (case current_seconds E (dns_world d) of (now, w) \<Rightarrow>
             if expired it expire_sec now
             then (None, d\<lparr>dns_map := (dns_map d)(host := None), dns_world := w\<rparr>)
             else (Some it, d\<lparr>dns_world := w\<rparr>)))"

text \<open>
  One call of \<open>getaddrinfo\<close> in the loop. The code only compares the result with 0, so that any
  error counts as \<open>-1\<close> here.
\<close>

definition resolve_call ::
  "('a, 'w) dns_env \<Rightarrow> string \<Rightarrow> 'a option \<times> 'w \<Rightarrow> int \<times> 'a option \<times> 'w" where
  "resolve_call E host aw =
     (case sys_getaddrinfo E host (snd aw) of (ret, answer, w) \<Rightarrow>
        (if ret \<noteq> 0 then - 1 else 0, answer, w))"

definition get_system_domain_ip ::
  "('a, 'w) dns_env \<Rightarrow> string \<Rightarrow> ('a, 'w) dns_cache \<Rightarrow>
     ('a dns_item option \<times> ('a, 'w) dns_cache) option" where
  "get_system_domain_ip E host d =
     retry_eintr (resolve_call E host) (\<lambda>aw. dns_errno E (snd aw)) (None, dns_world d) \<bind>
     (\<lambda>(ret, answer, w).
        case answer of
          None \<Rightarrow> Some (None, d\<lparr>dns_world := w\<rparr>)
        | Some a \<Rightarrow>
            if ret \<noteq> 0 then Some (None, d\<lparr>dns_world := w\<rparr>)
            else (case current_seconds E w of (now, w') \<Rightarrow>
              let item = \<lparr>item_addr = a, create_time = now\<rparr>
              in Some (Some item, d\<lparr>dns_map := (dns_map d)(host \<mapsto> item),
                                    dns_world := sys_freeaddrinfo E w'\<rparr>)))"

text \<open>The address is the result; \<open>None\<close> is the result \<open>false\<close>, which leaves \<open>addr\<close> alone.\<close>

definition Parse ::
  "('a, 'w) dns_env \<Rightarrow> string \<Rightarrow> int \<Rightarrow> ('a, 'w) dns_cache \<Rightarrow>
     ('a option \<times> ('a, 'w) dns_cache) option" where
  "Parse E host expire_sec d =
     (case get_cache_domain_ip E host expire_sec d of
        (Some it, d') \<Rightarrow> Some (Some (item_addr it), d')
      | (None, d') \<Rightarrow>
          get_system_domain_ip E host d' \<bind>
          (\<lambda>(r, d''). Some (map_option item_addr r, d'')))"

section \<open>The cache\<close>

lemma cache_hit:
  assumes "dns_map d host = Some it"
    and "\<not> expired it expire_sec (fst (current_seconds E (dns_world d)))"
  shows "get_cache_domain_ip E host expire_sec d =
    (Some it, d\<lparr>dns_world := snd (current_seconds E (dns_world d))\<rparr>)"
  using assms by (cases "current_seconds E (dns_world d)") (simp add: get_cache_domain_ip_def)

lemma cache_miss:
  assumes "\<forall>it. dns_map d host = Some it \<longrightarrow>
             expired it expire_sec (fst (current_seconds E (dns_world d)))"
  shows "\<exists>d'. get_cache_domain_ip E host expire_sec d = (None, d') \<and>
    dns_map d' = (dns_map d)(host := None)"
proof (cases "dns_map d host")
  case None
  then show ?thesis by (simp add: get_cache_domain_ip_def fun_upd_idem)
next
  case (Some it)
  with assms show ?thesis
    by (cases "current_seconds E (dns_world d)") (simp add: get_cache_domain_ip_def)
qed

section \<open>The resolver\<close>

text \<open>The resolver is not interrupted for ever.\<close>

definition resolver_ends :: "('a, 'w) dns_env \<Rightarrow> ('w \<Rightarrow> nat) \<Rightarrow> bool" where
  "resolver_ends E \<mu> \<longleftrightarrow>
     (\<forall>host w ret answer w'. sys_getaddrinfo E host w = (ret, answer, w') \<longrightarrow>
        ret \<noteq> 0 \<longrightarrow> dns_errno E w' = EINTR \<longrightarrow> \<mu> w' < \<mu> w)"

lemma resolve_ends:
  assumes "resolver_ends E \<mu>"
  shows "eintr_drops (resolve_call E host) (\<lambda>aw. dns_errno E (snd aw)) (\<mu> \<circ> snd)"
  using assms
  by (auto simp: eintr_drops_def resolve_call_def resolver_ends_def split: prod.splits if_splits)

text \<open>The last answer of the resolver is the one that counts.\<close>

definition resolved :: "('a, 'w) dns_env \<Rightarrow> string \<Rightarrow> 'a option \<Rightarrow> 'w \<Rightarrow> bool" where
  "resolved E host answer w \<longleftrightarrow>
     (\<exists>v ret a. sys_getaddrinfo E host v = (ret, a, w) \<and>
        answer = (if ret = 0 then a else None))"

lemma resolve_result:
  assumes "retry_eintr (resolve_call E host) (\<lambda>aw. dns_errno E (snd aw)) s = Some (ret, answer, w)"
  shows "resolved E host (if ret = 0 then answer else None) w"
proof -
  obtain v where "resolve_call E host v = (ret, answer, w)"
    using retry_eintr_result [OF assms, of "\<lambda>_. True"] by auto
  then show ?thesis
    by (auto simp: resolve_call_def resolved_def split: prod.splits if_splits)
qed

lemma get_system_ok:
  assumes "resolver_ends E \<mu>"
  shows "\<exists>answer w. resolved E host answer w \<and>
    get_system_domain_ip E host d =
      (case answer of
         None \<Rightarrow> Some (None, d\<lparr>dns_world := w\<rparr>)
       | Some a \<Rightarrow>
           let item = \<lparr>item_addr = a, create_time = fst (current_seconds E w)\<rparr>
           in Some (Some item, d\<lparr>dns_map := (dns_map d)(host \<mapsto> item),
                dns_world := sys_freeaddrinfo E (snd (current_seconds E w))\<rparr>))"
proof -
  obtain ret answer w where
    r: "retry_eintr (resolve_call E host) (\<lambda>aw. dns_errno E (snd aw)) (None, dns_world d) =
          Some (ret, answer, w)"
    using retry_eintr_returns [OF resolve_ends [OF assms]] by (metis prod.exhaust)
  then show ?thesis
    using resolve_result [OF r]
    by (intro exI [of _ "if ret = 0 then answer else None"] exI [of _ w])
       (auto simp: get_system_domain_ip_def split: option.splits prod.splits)
qed

lemma Parse_returns:
  assumes "resolver_ends E \<mu>"
  shows "\<exists>r d'. Parse E host expire_sec d = Some (r, d')"
proof -
  obtain r d1 where c: "get_cache_domain_ip E host expire_sec d = (r, d1)" by fastforce
  then show ?thesis
    using get_system_ok [OF assms, of host d1]
    by (cases r) (auto simp: Parse_def Let_def split: option.splits)
qed

text \<open>What the resolver and the clock keep of the state of the system, a look-up keeps.\<close>

definition dns_keeps :: "('a, 'w) dns_env \<Rightarrow> ('w \<Rightarrow> bool) \<Rightarrow> bool" where
  "dns_keeps E I \<longleftrightarrow>
     (\<forall>w. I w \<longrightarrow> (\<forall>host. I (snd (snd (sys_getaddrinfo E host w)))) \<and>
                 I (sys_freeaddrinfo E w) \<and> I (snd (current_seconds E w)))"

lemma get_cache_keeps:
  assumes "dns_keeps E I" and "I (dns_world d)" and "get_cache_domain_ip E host e d = (r, d')"
  shows "I (dns_world d')"
proof (cases "dns_map d host")
  case None
  with assms(2,3) show ?thesis by (simp add: get_cache_domain_ip_def)
next
  case (Some it)
  have "I (snd (current_seconds E (dns_world d)))" using assms(1,2) by (simp add: dns_keeps_def)
  with Some assms(3) show ?thesis
    by (auto simp: get_cache_domain_ip_def case_prod_beta split: if_splits)
qed

lemma get_system_keeps:
  assumes E: "dns_keeps E I" and d: "I (dns_world d)"
    and s: "get_system_domain_ip E host d = Some (r, d')"
  shows "I (dns_world d')"
proof -
  obtain x a w where l: "retry_eintr (resolve_call E host) (\<lambda>aw. dns_errno E (snd aw))
      (None, dns_world d) = Some (x, a, w)"
    using s by (auto simp: get_system_domain_ip_def)
  have "I (snd (a, w))"
  proof -
    have "I (snd v')" if "I (snd v)" "resolve_call E host v = (y, v')" for v y v'
      using that E by (auto simp: resolve_call_def dns_keeps_def split: prod.splits) (metis snd_conv)
    from retry_eintr_result [OF l, of "\<lambda>v. I (snd v)"] this d show ?thesis by auto
  qed
  with l s E show ?thesis
    by (auto simp: get_system_domain_ip_def dns_keeps_def Let_def case_prod_beta
        split: option.splits if_splits)
qed

lemma Parse_keeps:
  assumes "dns_keeps E I" and "I (dns_world d)" and "Parse E host e d = Some (r, d')"
  shows "I (dns_world d')"
proof -
  obtain c d1 where c: "get_cache_domain_ip E host e d = (c, d1)" by fastforce
  have "I (dns_world d1)" using get_cache_keeps [OF assms(1,2) c] .
  with c assms(3) get_system_keeps [OF assms(1), of d1 host] show ?thesis
    by (auto simp: Parse_def split: option.splits)
qed

section \<open>Properties\<close>

text \<open>
  a name whose entry has not expired is answered from the cache: the result is the
  stored address, the cache is unchanged, and the resolver is not called (the only effect is
  the reading of the clock).
\<close>

theorem Parse_cache_hit:
  assumes "dns_map d host = Some it"
    and "\<not> expired it expire_sec (fst (current_seconds E (dns_world d)))"
  shows "Parse E host expire_sec d =
    Some (Some (item_addr it), d\<lparr>dns_world := snd (current_seconds E (dns_world d))\<rparr>)"
  using cache_hit [OF assms] by (simp add: Parse_def)


text \<open>
  A resolver that is interrupted once and then knows one name; its state is the number of
  interruptions left and the time.
\<close>

definition demo_dns :: "(nat, nat \<times> u64) dns_env" where
  "demo_dns = \<lparr>sys_getaddrinfo = (\<lambda>host (n, t). if n > 0 then (- 11, None, (n - 1, t))
                 else if host = ''a'' then (0, Some 7, (n, t)) else (- 2, None, (n, t))),
               sys_freeaddrinfo = id,
               dns_errno = (\<lambda>(n, t). if n > 0 then EINTR else 0),
               current_seconds = (\<lambda>(n, t). (t, (n, t)))\<rparr>"

definition demo_cache :: "u64 \<Rightarrow> (nat, nat \<times> u64) dns_cache" where
  "demo_cache now = \<lparr>dns_map = [''a'' \<mapsto> \<lparr>item_addr = 3, create_time = 100\<rparr>],
                     dns_world = (2, now)\<rparr>"

theorem Parse_cache_hit_witness:
  "Parse demo_dns ''a'' 60 (demo_cache 160) = Some (Some 3, demo_cache 160)"
  using Parse_cache_hit [of "demo_cache 160" "''a''" "\<lparr>item_addr = 3, create_time = 100\<rparr>" 60 demo_dns]
  by (simp add: demo_cache_def demo_dns_def expired_def)


end
