(* ===== verification/SocketUtils.thy ===== *)
theory SocketUtils
  imports Socket DnsCache "HOL-Library.State_Monad"
begin

text \<open>
  \<^verbatim>\<open>net/socket_utils.cpp\<close>: the wrappers of the system calls that make, set up, bind, connect and
  describe sockets. Each is a computation in the state monad over the state of the system; a
  system call returns -1 for failure. What is only logged is left out.
\<close>

abbreviation (input) ret :: "'a \<Rightarrow> ('w, 'a) state" where
  "ret \<equiv> State_Monad.return"

section \<open>Addresses\<close>

datatype family = AF_INET | AF_INET6 | AF_OTHER nat

text \<open>
  \<open>sockaddr_in\<close>, \<open>sockaddr_in6\<close> (with its scope) and the addresses of other families that the list
  of interfaces contains. Ports are stored in network byte order, as \<open>htons\<close> leaves them on a
  little-endian machine; the address is a list of 4 or 16 bytes.
\<close>

datatype sockaddr = SIn u16 "byte list" | SIn6 u16 "byte list" u32 | SOther nat

fun ss_family :: "sockaddr \<Rightarrow> family" where
  "ss_family (SIn _ _) = AF_INET"
| "ss_family (SIn6 _ _ _) = AF_INET6"
| "ss_family (SOther n) = AF_OTHER n"

fun addr_bytes :: "sockaddr \<Rightarrow> byte list" where
  "addr_bytes (SIn _ b) = b"
| "addr_bytes (SIn6 _ b _) = b"
| "addr_bytes (SOther _) = []"

definition htons :: "u16 \<Rightarrow> u16" where
  "htons p = or (push_bit 8 p) (drop_bit 8 p)"

definition ntohs :: "u16 \<Rightarrow> u16" where
  "ntohs p = or (push_bit 8 p) (drop_bit 8 p)"

text \<open>The assignments to \<open>sin_port\<close> and \<open>sin6_port\<close>.\<close>

fun set_port :: "u16 \<Rightarrow> sockaddr \<Rightarrow> sockaddr" where
  "set_port p (SIn _ b) = SIn (htons p) b"
| "set_port p (SIn6 _ b s) = SIn6 (htons p) b s"
| "set_port p (SOther n) = SOther n"

fun GetPortFromAddr :: "sockaddr \<Rightarrow> u16" where
  "GetPortFromAddr (SIn6 p _ _) = ntohs p"
| "GetPortFromAddr (SIn p _) = ntohs p"
| "GetPortFromAddr (SOther _) = 0"

section \<open>The system\<close>

datatype sockopt =
    SO_REUSEADDR bool | SO_REUSEPORT bool | SO_KEEPALIVE bool | TCP_NODELAY bool
  | SO_SNDBUF int | SO_RCVBUF int | SO_LINGER bool int | SO_SNDTIMEO int

record ifaddrs =
  ifa_name :: "string option"
  ifa_addr :: "sockaddr option"

text \<open>
  The protocol given to \<open>socket\<close> follows from the type of the socket. \<open>inet_pton\<close> and \<open>inet_ntop\<close>
  do not depend on the state.
\<close>

record 'w net_env =
  sys_socket :: "family \<Rightarrow> sock_type \<Rightarrow> ('w, int) state"
  sys_setsockopt :: "int \<Rightarrow> sockopt \<Rightarrow> ('w, int) state"
  sys_ioctl_nbio :: "int \<Rightarrow> bool \<Rightarrow> ('w, int) state"
  sys_getfd :: "int \<Rightarrow> ('w, int) state"
  sys_setfd :: "int \<Rightarrow> int \<Rightarrow> ('w, int) state"
  sys_bind :: "int \<Rightarrow> sockaddr \<Rightarrow> ('w, int) state"
  sys_listen :: "int \<Rightarrow> int \<Rightarrow> ('w, int) state"
  sys_connect :: "int \<Rightarrow> sockaddr \<Rightarrow> ('w, int) state"
  sys_close :: "int \<Rightarrow> ('w, int) state"
  sys_getifaddrs :: "('w, int \<times> ifaddrs list) state"
  sys_freeifaddrs :: "('w, unit) state"
  sys_getsockname :: "int \<Rightarrow> ('w, int \<times> sockaddr) state"
  sys_getpeername :: "int \<Rightarrow> ('w, int \<times> sockaddr) state"
  net_errno :: "'w \<Rightarrow> errno"
  inet_pton :: "family \<Rightarrow> string \<Rightarrow> byte list option"
  inet_ntop :: "family \<Rightarrow> byte list \<Rightarrow> string"

section \<open>Making and setting up a socket\<close>

definition CreateSocket :: "'w net_env \<Rightarrow> sock_type \<Rightarrow> bool \<Rightarrow> ('w, int) state" where
  "CreateSocket N t is_ipv6 =
     (if is_ipv6 then sys_socket N AF_INET6 t else sys_socket N AF_INET t)"

definition SetNoBlocked :: "'w net_env \<Rightarrow> int \<Rightarrow> bool \<Rightarrow> ('w, int) state" where
  "SetNoBlocked N fd enable = sys_ioctl_nbio N fd enable"

definition SetReuseable :: "'w net_env \<Rightarrow> int \<Rightarrow> bool \<Rightarrow> ('w, int) state" where
  "SetReuseable N fd enable = do {
     r \<leftarrow> sys_setsockopt N fd (SO_REUSEADDR enable);
     if r = -1 then ret r else sys_setsockopt N fd (SO_REUSEPORT enable) }"

definition SetKeepAlive :: "'w net_env \<Rightarrow> int \<Rightarrow> bool \<Rightarrow> ('w, int) state" where
  "SetKeepAlive N fd enable = sys_setsockopt N fd (SO_KEEPALIVE enable)"

definition SetNoDelay :: "'w net_env \<Rightarrow> int \<Rightarrow> bool \<Rightarrow> ('w, int) state" where
  "SetNoDelay N fd enable = sys_setsockopt N fd (TCP_NODELAY enable)"

definition SetSendBuf :: "'w net_env \<Rightarrow> int \<Rightarrow> int \<Rightarrow> ('w, int) state" where
  "SetSendBuf N fd sz = sys_setsockopt N fd (SO_SNDBUF sz)"

definition SetRecvBuf :: "'w net_env \<Rightarrow> int \<Rightarrow> int \<Rightarrow> ('w, int) state" where
  "SetRecvBuf N fd sz = sys_setsockopt N fd (SO_RCVBUF sz)"

definition SetCloExec :: "'w net_env \<Rightarrow> int \<Rightarrow> bool \<Rightarrow> ('w, int) state" where
  "SetCloExec N fd enable = do {
     flags \<leftarrow> sys_getfd N fd;
     if flags = -1 then ret (-1)
     else sys_setfd N fd (if enable then or flags 1 else and flags (not 1)) }"

definition SetCloseWait :: "'w net_env \<Rightarrow> int \<Rightarrow> int \<Rightarrow> ('w, int) state" where
  "SetCloseWait N fd seconds = sys_setsockopt N fd (SO_LINGER (seconds > 0) seconds)"

definition SetSendTimeout :: "'w net_env \<Rightarrow> int \<Rightarrow> int \<Rightarrow> ('w, int) state" where
  "SetSendTimeout N fd seconds = sys_setsockopt N fd (SO_SNDTIMEO seconds)"

section \<open>The local address\<close>

text \<open>The address structure starts as zeros; \<open>inet_pton\<close> fills in the any address.\<close>

definition get_default_addr :: "'w net_env \<Rightarrow> bool \<Rightarrow> u16 \<Rightarrow> sockaddr" where
  "get_default_addr N is_ipv6 port =
     (if is_ipv6
      then SIn6 (htons port) (case inet_pton N AF_INET6 ''::'' of Some b \<Rightarrow> b | None \<Rightarrow> replicate 16 0) 0
      else SIn (htons port) (case inet_pton N AF_INET ''0.0.0.0'' of Some b \<Rightarrow> b | None \<Rightarrow> replicate 4 0))"

text \<open>The two searches through the list of interfaces: by name, and by the bytes of an address.\<close>

definition by_name :: "family \<Rightarrow> string \<Rightarrow> ifaddrs \<Rightarrow> bool" where
  "by_name f name cur \<longleftrightarrow>
     (case (ifa_addr cur, ifa_name cur) of
        (Some a, Some n) \<Rightarrow> f = ss_family a \<and> n = name
      | _ \<Rightarrow> False)"

definition by_bytes :: "family \<Rightarrow> byte list \<Rightarrow> ifaddrs \<Rightarrow> bool" where
  "by_bytes f b cur \<longleftrightarrow>
     (case ifa_addr cur of
        Some a \<Rightarrow> f = ss_family a \<and> addr_bytes a = b
      | None \<Rightarrow> False)"

definition find_if :: "'w net_env \<Rightarrow> family \<Rightarrow> string \<Rightarrow> ifaddrs list \<Rightarrow> ifaddrs option" where
  "find_if N f adapter list =
     (case find (by_name f adapter) list of
        Some cur \<Rightarrow> Some cur
      | None \<Rightarrow>
          if f = AF_INET \<or> f = AF_INET6
          then (case inet_pton N f adapter of
                  Some b \<Rightarrow> find (by_bytes f b) list
                | None \<Rightarrow> None)
          else None)"

text \<open>\<open>None\<close> is the result -1.\<close>

definition get_addr_by_if ::
  "'w net_env \<Rightarrow> family \<Rightarrow> string \<Rightarrow> u16 \<Rightarrow> ('w, sockaddr option) state" where
  "get_addr_by_if N f adapter port = do {
     (r, list) \<leftarrow> sys_getifaddrs N;
     if r = -1 then ret None
     else do {
       let res = (case find_if N f adapter list of
                    Some cur \<Rightarrow> map_option (set_port port) (ifa_addr cur)
                  | None \<Rightarrow>
                      if adapter = ''0.0.0.0''
                      then Some (get_default_addr N (f = AF_INET6) port)
                      else None);
       _ \<leftarrow> sys_freeifaddrs N;
       ret res } }"

definition Bind :: "'w net_env \<Rightarrow> int \<Rightarrow> string \<Rightarrow> u16 \<Rightarrow> bool \<Rightarrow> ('w, int) state" where
  "Bind N fd local_ip_or_intf port is_ipv6 = do {
     r \<leftarrow> get_addr_by_if N (if is_ipv6 then AF_INET6 else AF_INET) local_ip_or_intf port;
     case r of None \<Rightarrow> ret (-1) | Some a \<Rightarrow> sys_bind N fd a }"

section \<open>Listening and connecting\<close>

definition Listen ::
  "'w net_env \<Rightarrow> sock_type \<Rightarrow> u16 \<Rightarrow> bool \<Rightarrow> string \<Rightarrow> int \<Rightarrow> ('w, int) state" where
  "Listen N t port is_ipv6 local_ip backlog = do {
     fd \<leftarrow> CreateSocket N t is_ipv6;
     if fd = -1 then ret (-1)
     else do {
       _ \<leftarrow> SetReuseable N fd True;
       _ \<leftarrow> SetNoBlocked N fd True;
       _ \<leftarrow> SetCloExec N fd True;
       b \<leftarrow> Bind N fd local_ip port is_ipv6;
       if b = -1 then do { _ \<leftarrow> sys_close N fd; ret (-1) }
       else if t = SOCK_TCP then do {
         l \<leftarrow> sys_listen N fd backlog;
         if l = -1 then do { _ \<leftarrow> sys_close N fd; ret (-1) } else ret fd }
       else ret fd } }"

text \<open>The part of \<open>Connect\<close> that follows the look-up of the host.\<close>

definition connect_to ::
  "'w net_env \<Rightarrow> sockaddr \<Rightarrow> u16 \<Rightarrow> string \<Rightarrow> u16 \<Rightarrow> bool \<Rightarrow> ('w, int) state" where
  "connect_to N addr port local_ip_or_intf local_port async = do {
     let is_ipv6 = (ss_family addr = AF_INET6);
     fd \<leftarrow> CreateSocket N SOCK_TCP is_ipv6;
     if fd = -1 then ret (-1)
     else do {
       _ \<leftarrow> SetReuseable N fd True;
       _ \<leftarrow> SetNoBlocked N fd async;
       _ \<leftarrow> SetNoDelay N fd True;
       _ \<leftarrow> SetRecvBuf N fd (256 * 1024);
       _ \<leftarrow> SetSendBuf N fd (256 * 1024);
       _ \<leftarrow> SetCloseWait N fd 0;
       _ \<leftarrow> SetCloExec N fd True;
       b \<leftarrow> Bind N fd local_ip_or_intf local_port is_ipv6;
       if b = -1 then do { _ \<leftarrow> sys_close N fd; ret b }
       else do {
         r \<leftarrow> sys_connect N fd (set_port port addr);
         if r = 0 then ret fd
         else do {
           w \<leftarrow> State_Monad.get;
           if async \<and> get_uv_error (net_errno N w) = EAGAIN then ret fd
           else do { _ \<leftarrow> sys_close N fd; ret (-1) } } } } }"

text \<open>
  \<open>Connect\<close> looks the host up in the DNS cache, with an expiry of 60 seconds; the look-up may
  not return.
\<close>

definition Connect ::
  "'w net_env \<Rightarrow> (sockaddr, 'w) dns_env \<Rightarrow> string \<Rightarrow> u16 \<Rightarrow> string \<Rightarrow> u16 \<Rightarrow> bool \<Rightarrow>
   (sockaddr, 'w) dns_cache \<Rightarrow> (int \<times> (sockaddr, 'w) dns_cache) option" where
  "Connect N E host port local_ip_or_intf local_port async d =
     Parse E host 60 d \<bind>
     (\<lambda>(answer, d').
        case answer of
          None \<Rightarrow> Some (-1, d')
        | Some addr \<Rightarrow>
            (case run_state (connect_to N addr port local_ip_or_intf local_port async) (dns_world d') of
               (r, w) \<Rightarrow> Some (r, d'\<lparr>dns_world := w\<rparr>)))"

section \<open>Describing a socket\<close>

definition GetIPFromAddr :: "'w net_env \<Rightarrow> sockaddr \<Rightarrow> string" where
  "GetIPFromAddr N a =
     (if ss_family a = AF_INET6 then inet_ntop N AF_INET6 (addr_bytes a)
      else if ss_family a = AF_INET then inet_ntop N AF_INET (addr_bytes a)
      else '''')"

definition GetLocalIP :: "'w net_env \<Rightarrow> int \<Rightarrow> ('w, string) state" where
  "GetLocalIP N fd = do {
     (r, a) \<leftarrow> sys_getsockname N fd;
     ret (if r = 0 then GetIPFromAddr N a else '''') }"

definition GetPeerIP :: "'w net_env \<Rightarrow> int \<Rightarrow> ('w, string) state" where
  "GetPeerIP N fd = do {
     (r, a) \<leftarrow> sys_getpeername N fd;
     ret (if r = 0 then GetIPFromAddr N a else '''') }"

definition GetLocalPort :: "'w net_env \<Rightarrow> int \<Rightarrow> ('w, u16) state" where
  "GetLocalPort N fd = do {
     (r, a) \<leftarrow> sys_getsockname N fd;
     ret (if r = 0 then GetPortFromAddr a else 0) }"

definition GetPeerPort :: "'w net_env \<Rightarrow> int \<Rightarrow> ('w, u16) state" where
  "GetPeerPort N fd = do {
     (r, a) \<leftarrow> sys_getpeername N fd;
     ret (if r = 0 then GetPortFromAddr a else 0) }"

end
