(* ===== verification/SocketUtilsProps.thy ===== *)
theory SocketUtilsProps
  imports SocketUtils
begin

text \<open>
  What the socket utilities promise: the sockets that \<open>Listen\<close> and \<open>Connect\<close> return are bound and
  listening or connecting as asked for, no descriptor is left open when they fail, and the port
  a socket was bound to is the one that it reports.
\<close>

section \<open>Triples over the state monad\<close>

definition triple :: "('w \<Rightarrow> bool) \<Rightarrow> ('w, 'a) state \<Rightarrow> ('a \<Rightarrow> 'w \<Rightarrow> bool) \<Rightarrow> bool" where
  "triple P m Q \<longleftrightarrow> (\<forall>w. P w \<longrightarrow> Q (fst (run_state m w)) (snd (run_state m w)))"

lemma tripleD: "triple P m Q \<Longrightarrow> P w \<Longrightarrow> run_state m w = (x, w') \<Longrightarrow> Q x w'"
  by (force simp: triple_def)

lemma triple_ret: "(\<And>w. P w \<Longrightarrow> Q x w) \<Longrightarrow> triple P (State_Monad.return x) Q"
  by (simp add: triple_def)

lemma triple_bind:
  "triple P m R \<Longrightarrow> (\<And>x. triple (R x) (f x) Q) \<Longrightarrow> triple P (State_Monad.bind m f) Q"
  by (simp add: triple_def case_prod_beta)

lemma triple_conseq:
  "triple P' m Q' \<Longrightarrow> (\<And>w. P w \<Longrightarrow> P' w) \<Longrightarrow> (\<And>x w. Q' x w \<Longrightarrow> Q x w) \<Longrightarrow> triple P m Q"
  by (simp add: triple_def)

text \<open>The outcomes of a call, treated one by one.\<close>

lemma triple_disj: "triple P m Q \<Longrightarrow> triple P' m Q \<Longrightarrow> triple (\<lambda>w. P w \<or> P' w) m Q"
  by (auto simp: triple_def)

lemma triple_pure: "(b \<Longrightarrow> triple P m Q) \<Longrightarrow> triple (\<lambda>w. b \<and> P w) m Q"
  by (simp add: triple_def)

lemma triple_ex: "(\<And>y. triple (P y) m Q) \<Longrightarrow> triple (\<lambda>w. \<exists>y. P y w) m Q"
  by (auto simp: triple_def)

section \<open>Descriptors\<close>

text \<open>
  What the system knows of an open socket: its family and type, the address and the peer it was
  bound and connected to, whether it listens and whether it is non-blocking.
\<close>

record fd_info =
  i_family :: family
  i_kind :: sock_type
  i_bound :: "sockaddr option"
  i_peer :: "sockaddr option"
  i_listening :: bool
  i_nonblock :: bool

type_synonym fd_table = "int \<Rightarrow> fd_info option"

definition new_fd :: "family \<Rightarrow> sock_type \<Rightarrow> fd_info" where
  "new_fd f t = \<lparr>i_family = f, i_kind = t, i_bound = None, i_peer = None, i_listening = False,
                 i_nonblock = False\<rparr>"

definition upd_fd :: "int \<Rightarrow> (fd_info \<Rightarrow> fd_info) \<Rightarrow> fd_table \<Rightarrow> fd_table" where
  "upd_fd fd f T = T(fd := map_option f (T fd))"

definition frames :: "('w \<Rightarrow> fd_table) \<Rightarrow> ('w, 'a) state \<Rightarrow> bool" where
  "frames info m \<longleftrightarrow> (\<forall>w. info (snd (run_state m w)) = info w)"

text \<open>A call that returns 0 and makes the change \<open>f\<close>, or returns -1 and changes nothing.\<close>

definition changes :: "('w \<Rightarrow> fd_table) \<Rightarrow> ('w, int) state \<Rightarrow> (fd_table \<Rightarrow> fd_table) \<Rightarrow> bool" where
  "changes info m f \<longleftrightarrow>
     (\<forall>w. (fst (run_state m w) = 0 \<and> info (snd (run_state m w)) = f (info w)) \<or>
          (fst (run_state m w) = -1 \<and> info (snd (run_state m w)) = info w))"

text \<open>
  The documented behaviour of the calls, as far as the table is concerned. \<open>socket\<close> returns a
  descriptor that is not in use; \<open>FIONBIO\<close> does not fail on an open socket; \<open>connect\<close> remembers
  the peer also when the connection is only under way; \<open>getsockname\<close> knows the address of a
  socket that was bound to a port. The list of interfaces is \<open>ifs\<close>.
\<close>

definition net_laws :: "'w net_env \<Rightarrow> ('w \<Rightarrow> fd_table) \<Rightarrow> ifaddrs list \<Rightarrow> bool" where
  "net_laws N info ifs \<longleftrightarrow>
     (\<forall>f t w. (fst (run_state (sys_socket N f t) w) = -1 \<and>
               info (snd (run_state (sys_socket N f t) w)) = info w) \<or>
        (0 \<le> fst (run_state (sys_socket N f t) w) \<and>
         info w (fst (run_state (sys_socket N f t) w)) = None \<and>
         info (snd (run_state (sys_socket N f t) w)) =
           (info w)(fst (run_state (sys_socket N f t) w) \<mapsto> new_fd f t))) \<and>
     (\<forall>fd w. info (snd (run_state (sys_close N fd) w)) = (info w)(fd := None)) \<and>
     (\<forall>fd a. changes info (sys_bind N fd a) (upd_fd fd (i_bound_update (\<lambda>_. Some a)))) \<and>
     (\<forall>fd n. changes info (sys_listen N fd n) (upd_fd fd (i_listening_update (\<lambda>_. True)))) \<and>
     (\<forall>fd b w. info w fd \<noteq> None \<longrightarrow> info (snd (run_state (sys_ioctl_nbio N fd b) w)) =
        upd_fd fd (i_nonblock_update (\<lambda>_. b)) (info w)) \<and>
     (\<forall>fd a w. info (snd (run_state (sys_connect N fd a) w)) =
        upd_fd fd (i_peer_update (\<lambda>_. Some a)) (info w)) \<and>
     (\<forall>fd opt. frames info (sys_setsockopt N fd opt)) \<and>
     (\<forall>fd. frames info (sys_getfd N fd)) \<and> (\<forall>fd n. frames info (sys_setfd N fd n)) \<and>
     frames info (sys_getifaddrs N) \<and> frames info (sys_freeifaddrs N) \<and>
     (\<forall>w. fst (run_state (sys_getifaddrs N) w) \<in> {(0, ifs), (-1, [])}) \<and>
     (\<forall>fd i a w. info w fd = Some i \<and> i_bound i = Some a \<and> GetPortFromAddr a \<noteq> 0 \<longrightarrow>
        fst (run_state (sys_getsockname N fd) w) = (0, a))"

lemma net_frames:
  assumes "net_laws N info ifs"
  shows "frames info (sys_setsockopt N fd opt)" "frames info (sys_getfd N fd)"
    "frames info (sys_setfd N fd n)" "frames info (sys_getifaddrs N)" "frames info (sys_freeifaddrs N)"
  using assms by (simp_all add: net_laws_def)

lemma frames_ret: "frames info (State_Monad.return x)"
  by (simp add: frames_def)

lemma frames_bind: "frames info m \<Longrightarrow> (\<And>x. frames info (f x)) \<Longrightarrow> frames info (State_Monad.bind m f)"
  by (simp add: frames_def split: prod.splits) (metis snd_conv)

text \<open>The setters of options leave the table alone.\<close>

lemma setter_frames:
  assumes "net_laws N info ifs"
  shows "frames info (SetReuseable N fd b)" "frames info (SetKeepAlive N fd b)"
    "frames info (SetNoDelay N fd b)" "frames info (SetSendBuf N fd n)"
    "frames info (SetRecvBuf N fd n)" "frames info (SetCloExec N fd b)"
    "frames info (SetCloseWait N fd n)" "frames info (SetSendTimeout N fd n)"
  using net_frames [OF assms]
  by (auto simp: SetReuseable_def SetKeepAlive_def SetNoDelay_def SetSendBuf_def SetRecvBuf_def
      SetCloExec_def SetCloseWait_def SetSendTimeout_def intro!: frames_bind frames_ret)

section \<open>A new descriptor and the table it was added to\<close>

definition owns ::
  "('w \<Rightarrow> fd_table) \<Rightarrow> fd_table \<Rightarrow> int \<Rightarrow> fd_info \<Rightarrow> 'w \<Rightarrow> bool" where
  "owns info T fd i w \<longleftrightarrow> 0 \<le> fd \<and> T fd = None \<and> info w = T(fd \<mapsto> i)"

lemma owns_frames: "frames info m \<Longrightarrow> triple (owns info T fd i) m (\<lambda>_. owns info T fd i)"
  by (simp add: triple_def owns_def frames_def)

lemma owns_close:
  "net_laws N info ifs \<Longrightarrow> triple (owns info T fd i) (sys_close N fd) (\<lambda>_ w. info w = T)"
  by (auto simp add: triple_def owns_def net_laws_def fun_upd_idem)

lemma owns_changes:
  "changes info m (upd_fd fd f) \<Longrightarrow>
   triple (owns info T fd i) m
     (\<lambda>r w. (r = 0 \<and> owns info T fd (f i) w) \<or> (r = -1 \<and> owns info T fd i w))"
  unfolding triple_def
proof (intro allI impI)
  fix w assume c: "changes info m (upd_fd fd f)" and o: "owns info T fd i w"
  from c have "(fst (run_state m w) = 0 \<and> info (snd (run_state m w)) = upd_fd fd f (info w)) \<or>
      (fst (run_state m w) = -1 \<and> info (snd (run_state m w)) = info w)"
    by (simp add: changes_def)
  with o show "(fst (run_state m w) = 0 \<and> owns info T fd (f i) (snd (run_state m w))) \<or>
      (fst (run_state m w) = -1 \<and> owns info T fd i (snd (run_state m w)))"
    by (auto simp: owns_def upd_fd_def)
qed

lemma owns_upd:
  "(\<And>w. info w fd \<noteq> None \<Longrightarrow> info (snd (run_state m w)) = upd_fd fd f (info w)) \<Longrightarrow>
   triple (owns info T fd i) m (\<lambda>_. owns info T fd (f i))"
  by (simp add: triple_def owns_def upd_fd_def)

section \<open>The local address\<close>

lemma ntohs_htons [simp]: "ntohs (htons p) = p"
  by (rule bit_word_eqI)
     (auto simp: ntohs_def htons_def bit_or_iff bit_push_bit_iff bit_drop_bit_eq not_less)

lemma family_set_port [simp]: "ss_family (set_port p a) = ss_family a"
  by (cases a) auto

lemma bytes_set_port [simp]: "addr_bytes (set_port p a) = addr_bytes a"
  by (cases a) auto

lemma port_set_port: "ss_family a \<in> {AF_INET, AF_INET6} \<Longrightarrow> GetPortFromAddr (set_port p a) = p"
  by (cases a) auto

abbreviation fam :: "bool \<Rightarrow> family" where
  "fam is_ipv6 \<equiv> (if is_ipv6 then AF_INET6 else AF_INET)"

text \<open>
  What the local address of a socket should be: that of the first interface with the given name,
  or else the numeric address when an interface has it, or the any address for \<open>0.0.0.0\<close>.
\<close>

definition local_addr ::
  "'w net_env \<Rightarrow> ifaddrs list \<Rightarrow> family \<Rightarrow> string \<Rightarrow> u16 \<Rightarrow> sockaddr \<Rightarrow> bool" where
  "local_addr N ifs f ip port a \<longleftrightarrow>
     ss_family a = f \<and> GetPortFromAddr a = port \<and>
     ((\<exists>cur \<in> set ifs. by_name f ip cur \<and> map_option (set_port port) (ifa_addr cur) = Some a) \<or>
      ((\<forall>cur \<in> set ifs. \<not> by_name f ip cur) \<and> inet_pton N f ip = Some (addr_bytes a) \<and>
       (\<exists>cur \<in> set ifs. by_bytes f (addr_bytes a) cur)) \<or>
      (ip = ''0.0.0.0'' \<and> a = get_default_addr N (f = AF_INET6) port))"

lemma by_name_addr: "by_name f name cur \<Longrightarrow> \<exists>a. ifa_addr cur = Some a \<and> ss_family a = f"
  by (auto simp: by_name_def split: option.splits)

lemma by_bytes_addr:
  "by_bytes f b cur \<Longrightarrow> \<exists>a. ifa_addr cur = Some a \<and> ss_family a = f \<and> addr_bytes a = b"
  by (auto simp: by_bytes_def split: option.splits)

lemma find_SomeD: "find P xs = Some x \<Longrightarrow> x \<in> set xs \<and> P x"
  by (induction xs) (auto split: if_splits)

lemma find_if_cases:
  assumes "find_if N f ip ifs = Some cur"
  shows "(cur \<in> set ifs \<and> by_name f ip cur) \<or>
    (cur \<in> set ifs \<and> (\<forall>c \<in> set ifs. \<not> by_name f ip c) \<and>
     (\<exists>b. inet_pton N f ip = Some b \<and> by_bytes f b cur))"
  using assms
  by (auto simp: find_if_def find_None_iff dest: find_SomeD split: option.splits if_splits)

lemma find_if_local:
  assumes f: "f \<in> {AF_INET, AF_INET6}" and found: "find_if N f ip ifs = Some cur"
    and a: "map_option (set_port port) (ifa_addr cur) = Some a"
  shows "local_addr N ifs f ip port a"
proof -
  obtain c where c: "ifa_addr cur = Some c" "a = set_port port c" using a by auto
  have "ss_family c = f"
    using find_if_cases [OF found] c(1) by (auto dest!: by_name_addr by_bytes_addr)
  then have props: "ss_family a = f" "GetPortFromAddr a = port" "addr_bytes a = addr_bytes c"
    using c(2) f by (simp_all add: port_set_port)
  from find_if_cases [OF found] show ?thesis
  proof
    assume "cur \<in> set ifs \<and> by_name f ip cur"
    with props a show ?thesis by (auto simp: local_addr_def)
  next
    assume b: "cur \<in> set ifs \<and> (\<forall>c \<in> set ifs. \<not> by_name f ip c) \<and>
      (\<exists>b. inet_pton N f ip = Some b \<and> by_bytes f b cur)"
    with c(1) have "inet_pton N f ip = Some (addr_bytes a)" "by_bytes f (addr_bytes a) cur"
      by (auto simp: props dest!: by_bytes_addr) (auto simp: by_bytes_def)
    with b props show ?thesis by (auto simp: local_addr_def)
  qed
qed

lemma default_local:
  assumes "f \<in> {AF_INET, AF_INET6}"
  shows "local_addr N ifs f ''0.0.0.0'' port (get_default_addr N (f = AF_INET6) port)"
  using assms by (auto simp: local_addr_def get_default_addr_def)

lemma get_addr_local:
  assumes "f \<in> {AF_INET, AF_INET6}" and "net_laws N info ifs"
    and "fst (run_state (get_addr_by_if N f ip port) w) = Some a"
  shows "local_addr N ifs f ip port a"
proof -
  have "fst (run_state (sys_getifaddrs N) w) \<in> {(0, ifs), (-1, [])}"
    using assms(2) by (simp add: net_laws_def)
  then consider (ok) "fst (run_state (sys_getifaddrs N) w) = (0, ifs)"
    | (failed) "fst (run_state (sys_getifaddrs N) w) = (-1, [])" by blast
  then show ?thesis
  proof cases
    case ok
    show ?thesis
    proof (cases "find_if N f ip ifs")
      case None
      with ok assms(3) have "ip = ''0.0.0.0''" "a = get_default_addr N (f = AF_INET6) port"
        by (auto simp: get_addr_by_if_def case_prod_beta split: if_splits)
      then show ?thesis using default_local [OF assms(1)] by simp
    next
      case (Some cur)
      with ok assms(3) have "map_option (set_port port) (ifa_addr cur) = Some a"
        by (auto simp: get_addr_by_if_def case_prod_beta)
      with Some show ?thesis by (rule find_if_local [OF assms(1)])
    qed
  next
    case failed
    with assms(3) show ?thesis by (simp add: get_addr_by_if_def case_prod_beta)
  qed
qed

lemma get_addr_frames:
  "net_laws N info ifs \<Longrightarrow> frames info (get_addr_by_if N f ip port)"
  unfolding get_addr_by_if_def Let_def
  by (auto intro!: frames_bind frames_ret net_frames split: prod.splits)

lemma Bind_owns:
  assumes "net_laws N info ifs"
  shows "triple (owns info T fd i) (Bind N fd ip port v6)
    (\<lambda>r w. (\<exists>a. local_addr N ifs (fam v6) ip port a \<and> r = 0 \<and>
                owns info T fd (i\<lparr>i_bound := Some a\<rparr>) w) \<or>
           (r = -1 \<and> owns info T fd i w))"
  unfolding triple_def
proof (intro allI impI)
  fix w assume o: "owns info T fd i w"
  let ?g = "get_addr_by_if N (fam v6) ip port"
  have o1: "owns info T fd i (snd (run_state ?g w))"
    using owns_frames [OF get_addr_frames [OF assms]] o by (auto simp: triple_def)
  have b: "changes info (sys_bind N fd a) (upd_fd fd (i_bound_update (\<lambda>_. Some a)))" for a
    using assms by (simp add: net_laws_def)
  show "(\<exists>a. local_addr N ifs (fam v6) ip port a \<and> fst (run_state (Bind N fd ip port v6) w) = 0 \<and>
          owns info T fd (i\<lparr>i_bound := Some a\<rparr>) (snd (run_state (Bind N fd ip port v6) w))) \<or>
        (fst (run_state (Bind N fd ip port v6) w) = -1 \<and>
         owns info T fd i (snd (run_state (Bind N fd ip port v6) w)))"
  proof (cases "fst (run_state ?g w)")
    case None
    with o1 show ?thesis by (simp add: Bind_def case_prod_beta)
  next
    case (Some a)
    have "local_addr N ifs (fam v6) ip port a"
      by (rule get_addr_local [OF _ assms Some]) simp
    with Some o1 owns_changes [OF b, of T i a] show ?thesis
      by (auto simp: Bind_def case_prod_beta triple_def)
  qed
qed

section \<open>Listen and Connect\<close>

lemma then_frames:
  "frames info m \<Longrightarrow> triple (owns info T fd i) n Q \<Longrightarrow>
   triple (owns info T fd i) (State_Monad.bind m (\<lambda>_. n)) Q"
  by (rule triple_bind [OF owns_frames])

lemma then_get: "(\<And>w. triple P (f w) Q) \<Longrightarrow> triple P (State_Monad.bind State_Monad.get f) Q"
  by (simp add: triple_def)

lemma then_nonblock:
  assumes "net_laws N info ifs"
    and "triple (owns info T fd (i\<lparr>i_nonblock := b\<rparr>)) n Q"
  shows "triple (owns info T fd i) (State_Monad.bind (SetNoBlocked N fd b) (\<lambda>_. n)) Q"
  unfolding SetNoBlocked_def
  by (rule triple_bind [OF owns_upd [where f = "i_nonblock_update (\<lambda>_. b)"]])
     (use assms in \<open>auto simp: net_laws_def\<close>)

lemma then_close:
  assumes "net_laws N info ifs" and "\<And>w. info w = T \<Longrightarrow> Q x w"
  shows "triple (owns info T fd i) (State_Monad.bind (sys_close N fd) (\<lambda>_. State_Monad.return x)) Q"
  by (rule triple_bind [OF owns_close [OF assms(1)]]) (simp add: triple_ret assms(2))

lemma then_bind:
  assumes "net_laws N info ifs"
    and "\<And>a. local_addr N ifs (fam v6) ip port a \<Longrightarrow>
           triple (owns info T fd (i\<lparr>i_bound := Some a\<rparr>)) (n 0) Q"
    and "triple (owns info T fd i) (n (-1)) Q"
  shows "triple (owns info T fd i) (State_Monad.bind (Bind N fd ip port v6) n) Q"
proof (rule triple_bind [OF Bind_owns [OF assms(1)]])
  fix r
  show "triple (\<lambda>w. (\<exists>a. local_addr N ifs (fam v6) ip port a \<and> r = 0 \<and>
      owns info T fd (i\<lparr>i_bound := Some a\<rparr>) w) \<or> (r = -1 \<and> owns info T fd i w)) (n r) Q"
    using assms(2,3) by (auto intro!: triple_disj triple_ex triple_pure)
qed

lemma then_create:
  assumes "net_laws N info ifs"
    and "triple (\<lambda>w. info w = T) (n (-1)) Q"
    and "\<And>fd. fd \<noteq> -1 \<Longrightarrow> triple (owns info T fd (new_fd (fam v6) t)) (n fd) Q"
  shows "triple (\<lambda>w. info w = T) (State_Monad.bind (CreateSocket N t v6) n) Q"
proof (rule triple_bind)
  show "triple (\<lambda>w. info w = T) (CreateSocket N t v6)
      (\<lambda>r w. (r = -1 \<and> info w = T) \<or> (r \<noteq> -1 \<and> owns info T r (new_fd (fam v6) t) w))"
    unfolding triple_def
  proof (intro allI impI)
    fix w assume T: "info w = T"
    let ?m = "sys_socket N (fam v6) t"
    have "(fst (run_state ?m w) = -1 \<and> info (snd (run_state ?m w)) = info w) \<or>
        (0 \<le> fst (run_state ?m w) \<and> info w (fst (run_state ?m w)) = None \<and>
         info (snd (run_state ?m w)) = (info w)(fst (run_state ?m w) \<mapsto> new_fd (fam v6) t))"
      by (rule assms(1) [unfolded net_laws_def, THEN conjunct1, rule_format])
    moreover have "CreateSocket N t v6 = ?m" by (simp add: CreateSocket_def)
    ultimately show "(fst (run_state (CreateSocket N t v6) w) = -1 \<and>
          info (snd (run_state (CreateSocket N t v6) w)) = T) \<or>
        (fst (run_state (CreateSocket N t v6) w) \<noteq> -1 \<and>
          owns info T (fst (run_state (CreateSocket N t v6) w)) (new_fd (fam v6) t)
            (snd (run_state (CreateSocket N t v6) w)))"
      using T by (auto simp: owns_def)
  qed
  show "triple (\<lambda>w. (fd = -1 \<and> info w = T) \<or> (fd \<noteq> -1 \<and> owns info T fd (new_fd (fam v6) t) w))
      (n fd) Q" for fd
    using assms(2,3) by (auto intro!: triple_disj triple_pure)
qed

definition listening_socket ::
  "'w net_env \<Rightarrow> ifaddrs list \<Rightarrow> sock_type \<Rightarrow> u16 \<Rightarrow> bool \<Rightarrow> string \<Rightarrow> fd_info \<Rightarrow> bool" where
  "listening_socket N ifs t port v6 ip i \<longleftrightarrow>
     i_family i = fam v6 \<and> i_kind i = t \<and> i_nonblock i \<and> i_peer i = None \<and>
     i_listening i = (t = SOCK_TCP) \<and>
     (\<exists>a. i_bound i = Some a \<and> local_addr N ifs (fam v6) ip port a)"

lemma Listen_ok:
  assumes N: "net_laws N info ifs"
  shows "triple (\<lambda>w. info w = T) (Listen N t port v6 ip backlog)
    (\<lambda>r w. (r = -1 \<and> info w = T) \<or>
           (\<exists>i. owns info T r i w \<and> listening_socket N ifs t port v6 ip i))"
    (is "triple _ _ ?Q")
  unfolding Listen_def
proof (rule then_create [OF N])
  fix fd :: int assume "fd \<noteq> -1"
  let ?i = "(new_fd (fam v6) t)\<lparr>i_nonblock := True\<rparr>"
  have listen: "changes info (sys_listen N fd backlog) (upd_fd fd (i_listening_update (\<lambda>_. True)))"
    using N by (simp add: net_laws_def)
  have tcp: "triple (owns info T fd (?i\<lparr>i_bound := Some a\<rparr>))
      (State_Monad.bind (sys_listen N fd backlog) (\<lambda>l.
         if l = -1 then State_Monad.bind (sys_close N fd) (\<lambda>_. ret (-1)) else ret fd)) ?Q"
    if "local_addr N ifs (fam v6) ip port a" "t = SOCK_TCP" for a
    by (rule triple_bind [OF owns_changes [OF listen]])
       (use that in \<open>auto intro!: triple_disj triple_pure triple_ret then_close [OF N] exI
          simp: listening_socket_def new_fd_def\<close>)
  show "triple (owns info T fd (new_fd (fam v6) t))
     (if fd = -1 then ret (-1)
      else do {
        _ \<leftarrow> SetReuseable N fd True;
        _ \<leftarrow> SetNoBlocked N fd True;
        _ \<leftarrow> SetCloExec N fd True;
        b \<leftarrow> Bind N fd ip port v6;
        if b = -1 then do { _ \<leftarrow> sys_close N fd; ret (-1) }
        else if t = SOCK_TCP then do {
          l \<leftarrow> sys_listen N fd backlog;
          if l = -1 then do { _ \<leftarrow> sys_close N fd; ret (-1) } else ret fd }
        else ret fd }) ?Q"
    using \<open>fd \<noteq> -1\<close> tcp
    by (auto intro!: then_frames setter_frames [OF N] then_nonblock [OF N] then_bind [OF N]
        then_close [OF N] triple_ret exI simp: listening_socket_def new_fd_def)
qed (simp add: triple_ret)

definition connected_socket ::
  "'w net_env \<Rightarrow> ifaddrs list \<Rightarrow> sockaddr \<Rightarrow> u16 \<Rightarrow> string \<Rightarrow> u16 \<Rightarrow> bool \<Rightarrow> fd_info \<Rightarrow> bool" where
  "connected_socket N ifs addr port ip local_port async i \<longleftrightarrow>
     (let f = (if ss_family addr = AF_INET6 then AF_INET6 else AF_INET)
      in i_family i = f \<and> i_kind i = SOCK_TCP \<and> i_nonblock i = async \<and> \<not> i_listening i \<and>
         i_peer i = Some (set_port port addr) \<and>
         (\<exists>a. i_bound i = Some a \<and> local_addr N ifs f ip local_port a))"

lemma connect_to_ok:
  assumes N: "net_laws N info ifs"
  shows "triple (\<lambda>w. info w = T) (connect_to N addr port ip local_port async)
    (\<lambda>r w. (r = -1 \<and> info w = T) \<or>
           (\<exists>i. owns info T r i w \<and> connected_socket N ifs addr port ip local_port async i))"
    (is "triple _ _ ?Q")
  unfolding connect_to_def Let_def
proof (rule then_create [OF N])
  fix fd :: int assume "fd \<noteq> -1"
  let ?v6 = "ss_family addr = AF_INET6"
  let ?i = "(new_fd (fam ?v6) SOCK_TCP)\<lparr>i_nonblock := async\<rparr>"
  have conn: "triple (owns info T fd (?i\<lparr>i_bound := Some a\<rparr>))
      (State_Monad.bind (sys_connect N fd (set_port port addr)) (\<lambda>r.
         if r = 0 then ret fd
         else State_Monad.bind State_Monad.get (\<lambda>w.
           if async \<and> get_uv_error (net_errno N w) = EAGAIN then ret fd
           else State_Monad.bind (sys_close N fd) (\<lambda>_. ret (-1))))) ?Q"
    if "local_addr N ifs (fam ?v6) ip local_port a" for a
  proof (rule triple_bind [OF owns_upd [where f = "i_peer_update (\<lambda>_. Some (set_port port addr))"]])
    fix r :: int
    let ?j = "?i\<lparr>i_bound := Some a, i_peer := Some (set_port port addr)\<rparr>"
    have good: "connected_socket N ifs addr port ip local_port async ?j"
      using that by (simp add: connected_socket_def new_fd_def)
    show "triple (owns info T fd (i_peer_update (\<lambda>_. Some (set_port port addr)) (?i\<lparr>i_bound := Some a\<rparr>)))
        (if r = 0 then ret fd
         else State_Monad.bind State_Monad.get (\<lambda>w.
           if async \<and> get_uv_error (net_errno N w) = EAGAIN then ret fd
           else State_Monad.bind (sys_close N fd) (\<lambda>_. ret (-1)))) ?Q"
      using good by (auto intro!: triple_ret exI then_get then_close [OF N])
  qed (use N in \<open>auto simp: net_laws_def\<close>)
  show "triple (owns info T fd (new_fd (fam ?v6) SOCK_TCP))
     (if fd = -1 then ret (-1)
      else do {
       _ \<leftarrow> SetReuseable N fd True;
       _ \<leftarrow> SetNoBlocked N fd async;
       _ \<leftarrow> SetNoDelay N fd True;
       _ \<leftarrow> SetRecvBuf N fd (256 * 1024);
       _ \<leftarrow> SetSendBuf N fd (256 * 1024);
       _ \<leftarrow> SetCloseWait N fd 0;
       _ \<leftarrow> SetCloExec N fd True;
       b \<leftarrow> Bind N fd ip local_port ?v6;
       if b = -1 then do { _ \<leftarrow> sys_close N fd; ret b }
       else do {
         r \<leftarrow> sys_connect N fd (set_port port addr);
         if r = 0 then ret fd
         else do {
           w \<leftarrow> State_Monad.get;
           if async \<and> get_uv_error (net_errno N w) = EAGAIN then ret fd
           else do { _ \<leftarrow> sys_close N fd; ret (-1) } } } }) ?Q"
    using \<open>fd \<noteq> -1\<close> conn
    by (auto intro!: then_frames setter_frames [OF N] then_nonblock [OF N] then_bind [OF N]
        then_close [OF N])
qed (simp add: triple_ret)

text \<open>The port that a socket was bound to is what it reports.\<close>

lemma bound_port:
  assumes "net_laws N info ifs" and "info w fd = Some i" and "i_bound i = Some a"
    and "local_addr N ifs f ip port a" and "port \<noteq> 0"
  shows "fst (run_state (GetLocalPort N fd) w) = port"
proof -
  have "GetPortFromAddr a = port" using assms(4) by (simp add: local_addr_def)
  with assms have "fst (run_state (sys_getsockname N fd) w) = (0, a)"
    unfolding net_laws_def by blast
  with \<open>GetPortFromAddr a = port\<close> show ?thesis
    by (simp add: GetLocalPort_def case_prod_beta)
qed

section \<open>When nothing fails\<close>

text \<open>
  \<open>ok\<close> describes the states from which no call that makes a socket fails; for \<open>connect\<close> this includes
  a connection that is under way, when the socket is non-blocking.
\<close>

definition calls_succeed :: "'w net_env \<Rightarrow> ifaddrs list \<Rightarrow> ('w \<Rightarrow> bool) \<Rightarrow> bool" where
  "calls_succeed N ifs ok \<longleftrightarrow>
     (\<forall>f t. triple ok (sys_socket N f t) (\<lambda>r w. r \<noteq> -1 \<and> ok w)) \<and>
     (\<forall>fd a. triple ok (sys_bind N fd a) (\<lambda>r w. r \<noteq> -1 \<and> ok w)) \<and>
     (\<forall>fd n. triple ok (sys_listen N fd n) (\<lambda>r w. r \<noteq> -1 \<and> ok w)) \<and>
     triple ok (sys_getifaddrs N) (\<lambda>r w. r = (0, ifs) \<and> ok w) \<and>
     triple ok (sys_freeifaddrs N) (\<lambda>_. ok) \<and>
     (\<forall>fd opt. triple ok (sys_setsockopt N fd opt) (\<lambda>_. ok)) \<and>
     (\<forall>fd b. triple ok (sys_ioctl_nbio N fd b) (\<lambda>_. ok)) \<and>
     (\<forall>fd. triple ok (sys_getfd N fd) (\<lambda>_. ok)) \<and> (\<forall>fd n. triple ok (sys_setfd N fd n) (\<lambda>_. ok))"

definition connects :: "'w net_env \<Rightarrow> bool \<Rightarrow> ('w \<Rightarrow> bool) \<Rightarrow> bool" where
  "connects N async ok \<longleftrightarrow>
     (\<forall>fd a. triple ok (sys_connect N fd a)
        (\<lambda>r w. r = 0 \<or> async \<and> get_uv_error (net_errno N w) = EAGAIN))"

lemma triple_then: "triple P m (\<lambda>_. P) \<Longrightarrow> triple P n Q \<Longrightarrow> triple P (State_Monad.bind m (\<lambda>_. n)) Q"
  by (rule triple_bind)

lemma setter_ok:
  assumes "calls_succeed N ifs ok"
  shows "triple ok (SetReuseable N fd b) (\<lambda>_. ok)" "triple ok (SetNoBlocked N fd b) (\<lambda>_. ok)"
    "triple ok (SetNoDelay N fd b) (\<lambda>_. ok)" "triple ok (SetSendBuf N fd n) (\<lambda>_. ok)"
    "triple ok (SetRecvBuf N fd n) (\<lambda>_. ok)" "triple ok (SetCloExec N fd b) (\<lambda>_. ok)"
    "triple ok (SetCloseWait N fd n) (\<lambda>_. ok)"
  using assms
  by (auto simp: SetReuseable_def SetNoBlocked_def SetNoDelay_def SetSendBuf_def SetRecvBuf_def
      SetCloExec_def SetCloseWait_def calls_succeed_def intro!: triple_bind [where R = "\<lambda>_. ok"] triple_ret)

lemma local_addr_found:
  assumes "local_addr N ifs f ip port a" and "f \<in> {AF_INET, AF_INET6}"
  shows "(\<exists>cur. find_if N f ip ifs = Some cur \<and> ifa_addr cur \<noteq> None) \<or> (find_if N f ip ifs = None \<and> ip = ''0.0.0.0'')"
proof (cases "find_if N f ip ifs")
  case None
  with assms show ?thesis by (auto simp: local_addr_def find_if_def find_None_iff split: option.splits)
next
  case (Some cur)
  with find_if_cases [OF Some] show ?thesis by (auto dest!: by_name_addr by_bytes_addr)
qed

lemma Bind_ok:
  assumes ok: "calls_succeed N ifs ok" and "local_addr N ifs (fam v6) ip port a"
  shows "triple ok (Bind N fd ip port v6) (\<lambda>r w. r \<noteq> -1 \<and> ok w)"
  unfolding Bind_def
proof (rule triple_bind [where R = "\<lambda>r w. r \<noteq> None \<and> ok w"])
  show "triple ok (get_addr_by_if N (fam v6) ip port) (\<lambda>r w. r \<noteq> None \<and> ok w)"
    unfolding get_addr_by_if_def
  proof (rule triple_bind [where R = "\<lambda>r w. r = (0, ifs) \<and> ok w"])
    fix x :: "int \<times> ifaddrs list"
    show "triple (\<lambda>w. x = (0, ifs) \<and> ok w) (case x of (r, list) \<Rightarrow>
        if r = -1 then ret None
        else do {
          let res = (case find_if N (fam v6) ip list of
                       Some cur \<Rightarrow> map_option (set_port port) (ifa_addr cur)
                     | None \<Rightarrow> if ip = ''0.0.0.0'' then Some (get_default_addr N (fam v6 = AF_INET6) port) else None);
          _ \<leftarrow> sys_freeifaddrs N;
          ret res }) (\<lambda>r w. r \<noteq> None \<and> ok w)"
      using local_addr_found [OF assms(2)] ok
      by (auto intro!: triple_pure triple_bind [where R = "\<lambda>_. ok"] triple_ret simp: calls_succeed_def Let_def)
  qed (use ok in \<open>simp add: calls_succeed_def\<close>)
  show "triple (\<lambda>w. r \<noteq> None \<and> ok w) (case r of None \<Rightarrow> ret (-1) | Some a \<Rightarrow> sys_bind N fd a) (\<lambda>r w. r \<noteq> -1 \<and> ok w)" for r
    using ok by (cases r) (auto intro!: triple_pure simp: calls_succeed_def triple_def)
qed

lemma then_made:
  "triple ok m (\<lambda>r w. r \<noteq> -1 \<and> ok w) \<Longrightarrow> (\<And>r. r \<noteq> -1 \<Longrightarrow> triple ok (n r) Q) \<Longrightarrow>
   triple ok (State_Monad.bind m n) Q"
  for n :: "int \<Rightarrow> ('w, 'a) state"
  by (rule triple_bind) (auto intro!: triple_pure)

lemma Listen_succeeds:
  assumes ok: "calls_succeed N ifs ok" and a: "local_addr N ifs (fam v6) ip port a"
  shows "triple ok (Listen N t port v6 ip backlog) (\<lambda>r _. r \<noteq> -1)"
proof -
  have "triple ok (CreateSocket N t v6) (\<lambda>r w. r \<noteq> -1 \<and> ok w)"
    "\<And>fd. triple ok (sys_listen N fd backlog) (\<lambda>r w. r \<noteq> -1 \<and> ok w)"
    using ok by (simp_all add: calls_succeed_def CreateSocket_def)
  then show ?thesis
    unfolding Listen_def
    by (auto intro!: then_made triple_then setter_ok [OF ok] Bind_ok [OF ok a] triple_ret)
qed

lemma connect_to_succeeds:
  assumes ok: "calls_succeed N ifs ok" and c: "connects N async ok"
    and a: "local_addr N ifs (fam (ss_family addr = AF_INET6)) ip local_port a"
  shows "triple ok (connect_to N addr port ip local_port async) (\<lambda>r _. r \<noteq> -1)"
proof -
  have s: "triple ok (CreateSocket N SOCK_TCP v6) (\<lambda>r w. r \<noteq> -1 \<and> ok w)" for v6
    using ok by (simp add: calls_succeed_def CreateSocket_def)
  have conn: "triple ok (do {
        r \<leftarrow> sys_connect N fd (set_port port addr);
        if r = 0 then ret fd
        else do {
          w \<leftarrow> State_Monad.get;
          if async \<and> get_uv_error (net_errno N w) = EAGAIN then ret fd
          else do { _ \<leftarrow> sys_close N fd; ret (-1) } } }) (\<lambda>r _. r \<noteq> -1)" if "fd \<noteq> -1" for fd
    using c that by (auto simp: triple_def connects_def case_prod_beta)
  show ?thesis
    unfolding connect_to_def Let_def
    by (auto intro!: then_made [OF s] then_made [OF Bind_ok [OF ok a]] triple_then setter_ok [OF ok] conn triple_ret
        simp del: get_uv_error_EAGAIN)
qed

section \<open>Properties\<close>

text \<open>
  Property C21. \<open>Listen\<close> either fails and leaves every descriptor as it was, the one it had made
  closed again, or returns a new non-blocking socket, listening when it is a TCP socket, that is
  bound to an address of the right family with the port asked for: that of the interface with
  the given name, or the given numeric address of an interface, or the any address. The socket
  then reports that port. It does not fail when no system call fails and there is such an address.
\<close>

theorem Listen_correct:
  assumes "net_laws N info ifs"
    and "run_state (Listen N t port v6 ip backlog) w = (fd, w')"
  shows "((fd = -1 \<and> info w' = info w) \<or>
    (0 \<le> fd \<and> info w fd = None \<and>
     (\<exists>i. info w' = (info w)(fd \<mapsto> i) \<and> listening_socket N ifs t port v6 ip i) \<and>
     (port \<noteq> 0 \<longrightarrow> fst (run_state (GetLocalPort N fd) w') = port))) \<and>
    (\<forall>ok a. calls_succeed N ifs ok \<and> ok w \<and> local_addr N ifs (fam v6) ip port a \<longrightarrow> fd \<noteq> -1)"
proof -
  have "fd \<noteq> -1" if "calls_succeed N ifs ok" "ok w" "local_addr N ifs (fam v6) ip port a" for ok a
    using tripleD [OF Listen_succeeds [OF that(1,3)] that(2) assms(2)] .
  moreover
  have "(fd = -1 \<and> info w' = info w) \<or>
      (\<exists>i. owns info (info w) fd i w' \<and> listening_socket N ifs t port v6 ip i)"
    using tripleD [OF Listen_ok [OF assms(1)] refl assms(2)] by simp
  then have "(fd = -1 \<and> info w' = info w) \<or>
    (0 \<le> fd \<and> info w fd = None \<and>
     (\<exists>i. info w' = (info w)(fd \<mapsto> i) \<and> listening_socket N ifs t port v6 ip i) \<and>
     (port \<noteq> 0 \<longrightarrow> fst (run_state (GetLocalPort N fd) w') = port))" (is ?goal)
  proof
    assume "\<exists>i. owns info (info w) fd i w' \<and> listening_socket N ifs t port v6 ip i"
    then obtain i a where i: "owns info (info w) fd i w'" "listening_socket N ifs t port v6 ip i"
      and a: "i_bound i = Some a" "local_addr N ifs (fam v6) ip port a"
      by (auto simp: listening_socket_def)
    moreover have "port \<noteq> 0 \<longrightarrow> fst (run_state (GetLocalPort N fd) w') = port"
      using bound_port [OF assms(1) _ a, of w' fd] i(1) by (auto simp: owns_def)
    ultimately show ?goal by (auto simp: owns_def)
  qed simp
  ultimately show ?thesis by blast
qed


text \<open>
  The text \<open>::\<close> does not stand for the IPv6 any address, as \<open>0.0.0.0\<close> does for both
  families: unless an interface is called so or has that very address, \<open>Listen\<close> on it fails.
\<close>

theorem Listen_any6_fails:
  assumes "net_laws N info ifs"
    and "\<forall>cur \<in> set ifs. \<not> by_name AF_INET6 ''::'' cur"
    and "\<forall>b. inet_pton N AF_INET6 ''::'' = Some b \<longrightarrow> (\<forall>cur \<in> set ifs. \<not> by_bytes AF_INET6 b cur)"
  shows "fst (run_state (Listen N t port True ''::'' backlog) w) = -1"
proof -
  have "\<not> local_addr N ifs AF_INET6 ''::'' port a" for a
    using assms(2,3) by (auto simp: local_addr_def)
  then show ?thesis
    using tripleD [OF Listen_ok [OF assms(1), of "info w" t port True "''::''" backlog] refl
        prod.collapse [symmetric]]
    by (auto simp: listening_socket_def)
qed

text \<open>
  A system with the loopback interface, which gives out the descriptor in the second component
  and whose connections are always under way.
\<close>

definition demo_ifs :: "ifaddrs list" where
  "demo_ifs = [\<lparr>ifa_name = Some ''lo'', ifa_addr = Some (SOther 17)\<rparr>,
               \<lparr>ifa_name = Some ''lo'', ifa_addr = Some (SIn 0 [127, 0, 0, 1])\<rparr>]"

text \<open>A system in which nothing can be opened and every setter succeeds.\<close>

definition idle_net :: "'w net_env" where
  "idle_net = \<lparr>
     sys_socket = (\<lambda>f t. ret (-1)), sys_setsockopt = (\<lambda>fd opt. ret 0),
     sys_ioctl_nbio = (\<lambda>fd b. ret 0), sys_getfd = (\<lambda>fd. ret 0), sys_setfd = (\<lambda>fd n. ret 0),
     sys_bind = (\<lambda>fd a. ret (-1)), sys_listen = (\<lambda>fd b. ret (-1)), sys_connect = (\<lambda>fd a. ret (-1)),
     sys_close = (\<lambda>fd. ret 0), sys_getifaddrs = ret (-1, []), sys_freeifaddrs = ret (),
     sys_getsockname = (\<lambda>fd. ret (-1, SOther 0)), sys_getpeername = (\<lambda>fd. ret (-1, SOther 0)),
     net_errno = (\<lambda>k. 0), inet_pton = (\<lambda>f s. None), inet_ntop = (\<lambda>f b. '''')\<rparr>"

definition demo_net :: "(fd_table \<times> int) net_env" where
  "demo_net = \<lparr>
     sys_socket = (\<lambda>f t. State (\<lambda>(T, n).
       if 0 \<le> n \<and> T n = None then (n, (T(n \<mapsto> new_fd f t), n + 1)) else (-1, (T, n)))),
     sys_setsockopt = (\<lambda>fd opt. State (\<lambda>w. (0, w))),
     sys_ioctl_nbio = (\<lambda>fd b. State (\<lambda>(T, n). (0, (upd_fd fd (i_nonblock_update (\<lambda>_. b)) T, n)))),
     sys_getfd = (\<lambda>fd. State (\<lambda>w. (0, w))),
     sys_setfd = (\<lambda>fd n. State (\<lambda>w. (0, w))),
     sys_bind = (\<lambda>fd a. State (\<lambda>(T, n). (0, (upd_fd fd (i_bound_update (\<lambda>_. Some a)) T, n)))),
     sys_listen = (\<lambda>fd b. State (\<lambda>(T, n). (0, (upd_fd fd (i_listening_update (\<lambda>_. True)) T, n)))),
     sys_connect = (\<lambda>fd a. State (\<lambda>(T, n). (-1, (upd_fd fd (i_peer_update (\<lambda>_. Some a)) T, n)))),
     sys_close = (\<lambda>fd. State (\<lambda>(T, n). (0, (T(fd := None), n)))),
     sys_getifaddrs = State (\<lambda>w. ((0, demo_ifs), w)),
     sys_freeifaddrs = State (\<lambda>w. ((), w)),
     sys_getsockname = (\<lambda>fd. State (\<lambda>(T, n).
       (case T fd of None \<Rightarrow> (-1, SOther 0)
        | Some i \<Rightarrow> (case i_bound i of None \<Rightarrow> (-1, SOther 0) | Some a \<Rightarrow> (0, a)), (T, n)))),
     sys_getpeername = (\<lambda>fd. State (\<lambda>w. ((-1, SOther 0), w))),
     net_errno = (\<lambda>w. EINPROGRESS),
     inet_pton = (\<lambda>f s. if f = AF_INET \<and> s = ''0.0.0.0'' then Some [0, 0, 0, 0]
                         else if f = AF_INET6 \<and> s = ''::'' then Some (replicate 16 0) else None),
     inet_ntop = (\<lambda>f b. '''')\<rparr>"

lemma demo_net_laws: "net_laws demo_net fst demo_ifs"
  by (auto simp: net_laws_def demo_net_def frames_def changes_def new_fd_def split: option.splits)

definition demo_hosts :: "(sockaddr, fd_table \<times> int) dns_env" where
  "demo_hosts = \<lparr>sys_getaddrinfo = (\<lambda>host w.
       if host = ''localhost'' then (0, Some (SIn 0 [127, 0, 0, 1]), w) else (-2, None, w)),
     sys_freeaddrinfo = id, dns_errno = (\<lambda>_. 0), current_seconds = (\<lambda>w. (1000, w))\<rparr>"

lemma demo_hosts_laws: "resolver_ends demo_hosts (\<lambda>_. 0)" "dns_keeps demo_hosts I"
  by (auto simp: resolver_ends_def dns_keeps_def demo_hosts_def)

theorem Listen_correct_witness:
  "\<exists>w'. run_state (Listen demo_net SOCK_TCP 8080 False ''0.0.0.0'' 16) (Map.empty, 3) = (3, w') \<and>
     fst (run_state (GetLocalPort demo_net 3) w') = 8080"
proof -
  obtain fd w' where l: "run_state (Listen demo_net SOCK_TCP 8080 False ''0.0.0.0'' 16) (Map.empty, 3) = (fd, w')"
    by (metis prod.exhaust)
  then have "fd = 3"
    by (simp add: Listen_def CreateSocket_def SetReuseable_def SetNoBlocked_def SetCloExec_def
        Bind_def get_addr_by_if_def find_if_def by_name_def by_bytes_def demo_net_def demo_ifs_def)
  with l Listen_correct [OF demo_net_laws l] show ?thesis by auto
qed


theorem Listen_any6_fails_witness:
  "fst (run_state (Listen demo_net SOCK_TCP 8080 True ''::'' 16) (Map.empty, 3)) = -1"
  by (rule Listen_any6_fails [OF demo_net_laws])
     (auto simp: demo_ifs_def by_name_def by_bytes_def)

end
