(* ===== verification/PollerLife.thy ===== *)
theory PollerLife
  imports PollerLive SocketUtilsProps
begin

text \<open>
  The beginning and the end of a poller: the constructors and destructors of \<open>PipeWrapper\<close>
  (\<^verbatim>\<open>poller/pipe_wrapper.cpp\<close>) and \<open>EventPoller\<close> (\<^verbatim>\<open>poller/event_poller.cpp\<close>). The descriptors they
  make decide which system calls the poller makes afterwards, so the kernel of the other
  theories about the poller is here a function of them.
\<close>

section \<open>Constructors and destructors\<close>

record poller_fds =
  pipe_rfd :: int
  pipe_wfd :: int
  epoll_fd :: int

text \<open>
  \<open>pipe\<close> (its result and the two descriptors), \<open>epoll_create\<close>, the calls of \<open>SocketUtils\<close>, and the
  calls of a poller with the given descriptors.
\<close>

record 'k life_env =
  life_net :: "'k net_env"
  sys_pipe :: "('k, int \<times> int \<times> int) state"
  sys_epoll_create :: "nat \<Rightarrow> ('k, int) state"
  kernel_of :: "poller_fds \<Rightarrow> 'k kernel"

text \<open>\<open>PipeWrapper()\<close>; \<open>None\<close> is the \<open>runtime_error\<close>.\<close>

definition PipeWrapper_new :: "'k life_env \<Rightarrow> ('k, (int \<times> int) option) state" where
  "PipeWrapper_new L = do {
     (r, rfd, wfd) \<leftarrow> sys_pipe L;
     if r = -1 then ret None
     else do {
       _ \<leftarrow> SetNoBlocked (life_net L) rfd True;
       _ \<leftarrow> SetNoBlocked (life_net L) wfd False;
       ret (Some (rfd, wfd)) } }"

definition CLOSE_FD :: "'k net_env \<Rightarrow> int \<Rightarrow> ('k, int) state" where
  "CLOSE_FD N fd = (if fd \<noteq> -1 then do { _ \<leftarrow> sys_close N fd; ret (-1) } else ret fd)"

text \<open>\<open>close_fd\<close>, which is all that \<open>~PipeWrapper\<close> does.\<close>

definition close_fd :: "'k net_env \<Rightarrow> int \<times> int \<Rightarrow> ('k, int \<times> int) state" where
  "close_fd N p = do {
     r \<leftarrow> CLOSE_FD N (fst p);
     w \<leftarrow> CLOSE_FD N (snd p);
     ret (r, w) }"

text \<open>
  \<open>EventPoller()\<close>. \<open>exit_flag_\<close> has no initialiser: \<open>garbage\<close> is what is found there. A failed
  \<open>epoll_create\<close> is not an error yet (the exception is made and not thrown); when the constructor
  throws, the pipe is destroyed and the descriptor of \<open>epoll\<close> is not.
\<close>

definition EventPoller_new ::
  "'k life_env \<Rightarrow> bool \<Rightarrow> errno \<Rightarrow> ('k, exc + (poller_fds \<times> ('e, 'k) poller)) state" where
  "EventPoller_new L garbage err = do {
     p \<leftarrow> PipeWrapper_new L;
     (case p of
        None \<Rightarrow> ret (Inl StdException)
      | Some (rfd, wfd) \<Rightarrow> do {
          _ \<leftarrow> SetNoBlocked (life_net L) wfd True;
          _ \<leftarrow> SetNoBlocked (life_net L) rfd True;
          efd \<leftarrow> sys_epoll_create L 1024;
          k \<leftarrow> State_Monad.get;
          (let h = \<lparr>pipe_rfd = rfd, pipe_wfd = wfd, epoll_fd = efd\<rparr>;
               w = \<lparr>task_list = [], delay_tasks = [], event_map = Map.empty, exit_flag = garbage,
                    tasks = (\<lambda>_. task_new None), next_task = 0, cerrno = err, kern = k,
                    started = [], trace = []\<rparr>;
               (r, w1) = AddEvent (kernel_of L h) rfd PE_READ (Some PipeCB) w
           in do {
             _ \<leftarrow> State_Monad.set (kern w1);
             if r = -1
             then do { _ \<leftarrow> close_fd (life_net L) (rfd, wfd); ret (Inl StdException) }
             else ret (Inr (h, w1)) }) }) }"

text \<open>
  \<open>~EventPoller\<close>: \<open>Shutdown\<close>, the closing of the \<open>epoll\<close> descriptor, a last \<open>on_pipe_event\<close>, which
  runs what is queued, and the destructor of the pipe. An exception that leaves it ends the
  program.
\<close>

definition EventPoller_delete ::
  "'k life_env \<Rightarrow> poller_fds \<Rightarrow> ('e, 'k) poller \<Rightarrow> ('e, 'k, unit) outcome" where
  "EventPoller_delete L h w =
     Shutdown (kernel_of L h) w \<bind>
       (\<lambda>w1.
          let (efd, k) = run_state (CLOSE_FD (life_net L) (epoll_fd h)) (kern w1)
          in on_pipe_event (kernel_of L (h\<lparr>epoll_fd := efd\<rparr>)) (w1\<lparr>kern := k\<rparr>) \<bind>
               (\<lambda>(r, w2). case r of
                  Inl x \<Rightarrow> Some (Inl x, w2)
                | Inr _ \<Rightarrow> Some (Inr (),
                    w2\<lparr>kern := snd (run_state (close_fd (life_net L) (pipe_rfd h, pipe_wfd h)) (kern w2))\<rparr>)))"

section \<open>The system\<close>

text \<open>
  \<open>opens\<close> are the open descriptors, \<open>nonblock\<close> those in non-blocking mode, \<open>watched e\<close> what the
  \<open>epoll\<close> instance \<open>e\<close> watches, \<open>full a\<close> whether the pipe with the read end \<open>a\<close> is full. New
  descriptors were not open; a new pipe is empty and a new \<open>epoll\<close> instance watches nothing;
  \<open>epoll_ctl\<close> fails on the descriptor -1.
\<close>

definition new_laws ::
  "'k life_env \<Rightarrow> ('k \<Rightarrow> int set) \<Rightarrow> ('k \<Rightarrow> int set) \<Rightarrow> (int \<Rightarrow> 'k \<Rightarrow> int set) \<Rightarrow> (int \<Rightarrow> 'k \<Rightarrow> bool) \<Rightarrow> bool"
  where
  "new_laws L opens nonblock watched full \<longleftrightarrow>
     (\<forall>k r a b k'. run_state (sys_pipe L) k = ((r, a, b), k') \<longrightarrow>
        (r = -1 \<and> opens k' = opens k) \<or>
        (r = 0 \<and> 0 \<le> a \<and> 0 \<le> b \<and> a \<noteq> b \<and> a \<notin> opens k \<and> b \<notin> opens k \<and>
         opens k' = insert a (insert b (opens k)) \<and> \<not> full a k')) \<and>
     (\<forall>n k e k'. run_state (sys_epoll_create L n) k = (e, k') \<longrightarrow>
        nonblock k' = nonblock k \<and> (\<forall>a. full a k' \<longrightarrow> full a k) \<and>
        ((e = -1 \<and> opens k' = opens k) \<or>
         (0 \<le> e \<and> e \<notin> opens k \<and> opens k' = insert e (opens k) \<and> watched e k' = {}))) \<and>
     (\<forall>h fd m k r x k'. sys_ctl (kernel_of L h) CTL_ADD fd m k = ((r, x), k') \<longrightarrow>
        opens k' = opens k \<and> nonblock k' = nonblock k \<and> (\<forall>a. full a k' \<longrightarrow> full a k) \<and>
        (epoll_fd h = -1 \<longrightarrow> r = -1)) \<and>
     (\<forall>h. epoll_fd h \<noteq> -1 \<longrightarrow>
        ctl_law (kernel_of L h) (watched (epoll_fd h)) \<and> watch_frame (kernel_of L h) (watched (epoll_fd h)))"

definition mode_laws ::
  "'k net_env \<Rightarrow> ('k \<Rightarrow> int set) \<Rightarrow> ('k \<Rightarrow> int set) \<Rightarrow> (int \<Rightarrow> 'k \<Rightarrow> bool) \<Rightarrow> bool" where
  "mode_laws N opens nonblock full \<longleftrightarrow>
     (\<forall>fd b k r k'. run_state (sys_ioctl_nbio N fd b) k = (r, k') \<longrightarrow>
        opens k' = opens k \<and> (\<forall>a. full a k' \<longrightarrow> full a k) \<and>
        (fd \<in> opens k \<longrightarrow> nonblock k' = (if b then insert fd (nonblock k) else nonblock k - {fd}))) \<and>
     (\<forall>fd k r k'. run_state (sys_close N fd) k = (r, k') \<longrightarrow> opens k' = opens k - {fd})"

definition calls_keep_open :: "'k kernel \<Rightarrow> ('k \<Rightarrow> int set) \<Rightarrow> bool" where
  "calls_keep_open K opens \<longleftrightarrow>
     (\<forall>k x k'. sys_write K k = (x, k') \<longrightarrow> opens k' = opens k) \<and>
     (\<forall>n k x k'. sys_read K n k = (x, k') \<longrightarrow> opens k' = opens k)"

section \<open>The new poller\<close>

lemma close_fd_opens:
  assumes "mode_laws N opens nonblock full" and "a \<noteq> -1" and "b \<noteq> -1"
  shows "opens (snd (run_state (close_fd N (a, b)) k)) = opens k - {a, b}"
proof -
  obtain r1 k1 where 1: "run_state (sys_close N a) k = (r1, k1)" by fastforce
  obtain r2 k2 where 2: "run_state (sys_close N b) k1 = (r2, k2)" by fastforce
  have "opens k1 = opens k - {a}" "opens k2 = opens k1 - {b}"
    using assms(1) 1 2 unfolding mode_laws_def by blast+
  with 1 2 assms(2,3) show ?thesis by (auto simp: close_fd_def CLOSE_FD_def)
qed

text \<open>What is between the pipe and the registration: the modes and the \<open>epoll\<close> instance.\<close>

lemma modes_set:
  assumes new: "new_laws L opens nonblock watched full" and mode: "mode_laws (life_net L) opens nonblock full"
    and p: "run_state (sys_pipe L) k = ((0, a, b), k0)" and "a \<noteq> -1"
    and n1: "run_state (SetNoBlocked (life_net L) a True) k0 = (r1, k1)"
    and n2: "run_state (SetNoBlocked (life_net L) b False) k1 = (r2, k2)"
    and n3: "run_state (SetNoBlocked (life_net L) b True) k2 = (r3, k3)"
    and n4: "run_state (SetNoBlocked (life_net L) a True) k3 = (r4, k4)"
  shows "0 \<le> a \<and> 0 \<le> b \<and> a \<noteq> b \<and> a \<notin> opens k \<and> b \<notin> opens k \<and>
    opens k4 = insert a (insert b (opens k)) \<and> \<not> full a k4 \<and> {a, b} \<subseteq> nonblock k4"
proof -
  have p': "0 \<le> a \<and> 0 \<le> b \<and> a \<noteq> b \<and> a \<notin> opens k \<and> b \<notin> opens k \<and>
      opens k0 = insert a (insert b (opens k)) \<and> \<not> full a k0"
    using new p unfolding new_laws_def by (metis zero_neq_neg_one)
  have step: "opens k'' = opens k' \<and> (full a k'' \<longrightarrow> full a k') \<and>
      (fd \<in> opens k' \<longrightarrow> nonblock k'' = (if c then insert fd (nonblock k') else nonblock k' - {fd}))"
    if "run_state (SetNoBlocked (life_net L) fd c) k' = (r, k'')" for fd c k' r k''
    using mode that unfolding mode_laws_def SetNoBlocked_def by blast
  note s = step [OF n1] step [OF n2] step [OF n3] step [OF n4]
  show ?thesis using p' s by simp
qed

text \<open>A poller as the constructor leaves it, in a system where \<open>old\<close> was open before.\<close>

definition fresh_poller ::
  "'k life_env \<Rightarrow> ('k \<Rightarrow> int set) \<Rightarrow> ('k \<Rightarrow> int set) \<Rightarrow> (int \<Rightarrow> 'k \<Rightarrow> int set) \<Rightarrow> (int \<Rightarrow> 'k \<Rightarrow> bool) \<Rightarrow>
   int set \<Rightarrow> poller_fds \<Rightarrow> ('e, 'k) poller \<Rightarrow> bool" where
  "fresh_poller L opens nonblock watched full old h w \<longleftrightarrow>
     distinct [pipe_rfd h, pipe_wfd h, epoll_fd h] \<and>
     {pipe_rfd h, pipe_wfd h, epoll_fd h} \<subseteq> {0..} - old \<and>
     opens (kern w) = {pipe_rfd h, pipe_wfd h, epoll_fd h} \<union> old \<and>
     {pipe_rfd h, pipe_wfd h} \<subseteq> nonblock (kern w) \<and>
     task_list w = [] \<and> delay_tasks w = [] \<and> \<not> full (pipe_rfd h) (kern w) \<and>
     safe (pipe_rfd h) w \<and> registered (kernel_of L h) (watched (epoll_fd h)) w"

lemma AddEvent_pipe:
  assumes new: "new_laws L opens nonblock watched full"
    and a: "AddEvent (kernel_of L h) fd m (Some cb) w = (r, w')"
  shows "opens (kern w') = opens (kern w) \<and> nonblock (kern w') = nonblock (kern w) \<and>
    (full x (kern w') \<longrightarrow> full x (kern w)) \<and> (epoll_fd h = -1 \<longrightarrow> r = -1)"
proof -
  obtain q w1 where s: "sys (sys_ctl (kernel_of L h) CTL_ADD fd (TO_EPOLL m)) w = (q, w1)" by fastforce
  then obtain e where "sys_ctl (kernel_of L h) CTL_ADD fd (TO_EPOLL m) (kern w) = ((q, e), kern w1)"
    by (rule ctl_watched)
  then have "opens (kern w1) = opens (kern w) \<and> nonblock (kern w1) = nonblock (kern w) \<and>
      (full x (kern w1) \<longrightarrow> full x (kern w)) \<and> (epoll_fd h = -1 \<longrightarrow> q = -1)"
    using new unfolding new_laws_def by blast
  moreover have "kern w' = kern w1 \<and> r = q"
    using a s by (auto simp: AddEvent_def split: if_splits)
  ultimately show ?thesis by simp
qed

lemma EventPoller_new_ok:
  assumes new: "new_laws L opens nonblock watched full" and mode: "mode_laws (life_net L) opens nonblock full"
    and run: "run_state (EventPoller_new L garbage err) k = (x, k')"
  shows "(x = Inl StdException \<and>
      (opens k' = opens k \<or> (\<exists>e. 0 \<le> e \<and> e \<notin> opens k \<and> opens k' = insert e (opens k)))) \<or>
    (\<exists>h w. x = Inr (h, w) \<and> kern w = k' \<and> fresh_poller L opens nonblock watched full (opens k) h w)"
proof -
  obtain r a b k0 where p: "run_state (sys_pipe L) k = ((r, a, b), k0)" by (metis prod.exhaust)
  show ?thesis
  proof (cases "r = -1")
    case True
    then have "opens k0 = opens k" using new p unfolding new_laws_def by (metis zero_neq_neg_one)
    with True p run show ?thesis by (simp add: EventPoller_new_def PipeWrapper_new_def)
  next
    case False
    then have "r = 0" "a \<noteq> -1" using new p unfolding new_laws_def by fastforce+
    note p = p [unfolded \<open>r = 0\<close>]
    let ?N = "life_net L"
    obtain r1 k1 where n1: "run_state (SetNoBlocked ?N a True) k0 = (r1, k1)" by fastforce
    obtain r2 k2 where n2: "run_state (SetNoBlocked ?N b False) k1 = (r2, k2)" by fastforce
    obtain r3 k3 where n3: "run_state (SetNoBlocked ?N b True) k2 = (r3, k3)" by fastforce
    obtain r4 k4 where n4: "run_state (SetNoBlocked ?N a True) k3 = (r4, k4)" by fastforce
    note m = modes_set [OF new mode p \<open>a \<noteq> -1\<close> n1 n2 n3 n4]
    obtain e k5 where n5: "run_state (sys_epoll_create L 1024) k4 = (e, k5)" by fastforce
    have e: "nonblock k5 = nonblock k4" "full a k5 \<longrightarrow> full a k4"
      "(e = -1 \<and> opens k5 = opens k4) \<or>
       (0 \<le> e \<and> e \<notin> opens k4 \<and> opens k5 = insert e (opens k4) \<and> watched e k5 = {})"
      using new n5 unfolding new_laws_def by blast+
    define h where "h = \<lparr>pipe_rfd = a, pipe_wfd = b, epoll_fd = e\<rparr>"
    define w :: "('b, 'a) poller" where "w = \<lparr>task_list = [], delay_tasks = [], event_map = Map.empty, exit_flag = garbage,
      tasks = (\<lambda>_. task_new None), next_task = 0, cerrno = err, kern = k5, started = [], trace = []\<rparr>"
    obtain q w1 where add: "AddEvent (kernel_of L h) a PE_READ (Some PipeCB) w = (q, w1)" by fastforce
    note A = AddEvent_pipe [OF new add, of a]
    have kw: "kern w = k5" by (simp add: w_def)
    have res: "(x, k') = (if q = -1
        then (Inl StdException, snd (run_state (close_fd ?N (a, b)) (kern w1)))
        else (Inr (h, w1), kern w1))"
      using run p n1 n2 n3 n4 n5 add [unfolded h_def w_def]
      by (simp add: EventPoller_new_def PipeWrapper_new_def h_def Let_def State_Monad.set_def split_beta
        split: if_splits)
    show ?thesis
    proof (cases "q = -1")
      case True
      have "opens k' = opens (kern w1) - {a, b}"
        using res True close_fd_opens [OF mode, of a b "kern w1"] m by simp
      then have "opens k' = opens k5 - {a, b}" using A kw by simp
      then have "opens k' = opens k \<or> (0 \<le> e \<and> e \<notin> opens k \<and> opens k' = insert e (opens k))"
        using e(3) m by auto
      with res True show ?thesis by auto
    next
      case False
      then have e0: "epoll_fd h \<noteq> -1" "e \<noteq> -1" using A by (auto simp: h_def)
      then have c: "ctl_law (kernel_of L h) (watched e)" "watch_frame (kernel_of L h) (watched e)"
        using new [unfolded new_laws_def, THEN conjunct2, THEN conjunct2, THEN conjunct2, rule_format, OF e0(1)]
        by (simp_all add: h_def)
      have "registered (kernel_of L h) (watched e) w"
        using c e(3) e0 by (auto simp: registered_def w_def)
      from AddEvent_registered [OF this add] have reg: "registered (kernel_of L h) (watched e) w1" .
      obtain z w2 where s: "sys (sys_ctl (kernel_of L h) CTL_ADD a (TO_EPOLL PE_READ)) w = (z, w2)" by fastforce
      then obtain y where "sys_ctl (kernel_of L h) CTL_ADD a (TO_EPOLL PE_READ) (kern w) = ((z, y), kern w2)"
        by (rule ctl_watched)
      with c(1) have "z = 0 \<or> z = -1" unfolding ctl_law_def by blast
      moreover have "z = q" using s add by (auto simp: AddEvent_def split: if_splits)
      ultimately have "z = 0" using False by simp
      moreover from sys_upd [OF s] obtain k6 e6 where "w2 = w\<lparr>kern := k6, cerrno := e6\<rparr>" by blast
      ultimately have w1: "w1 = w\<lparr>kern := k6, cerrno := e6, event_map := [a \<mapsto> PipeCB]\<rparr>"
        using add s by (simp add: AddEvent_def w_def)
      have "safe a w1" by (simp add: safe_def fns_ok_def w1 w_def task_new_def)
      then have "fresh_poller L opens nonblock watched full (opens k) h w1"
        using A kw m e e0 reg by (auto simp: fresh_poller_def h_def w1 w_def)
      with res False show ?thesis by auto
    qed
  qed
qed

text \<open>\<open>ok\<close> describes the states from which no call that makes a poller fails.\<close>

definition poller_calls_succeed :: "'k life_env \<Rightarrow> ('k \<Rightarrow> bool) \<Rightarrow> bool" where
  "poller_calls_succeed L ok \<longleftrightarrow>
     triple ok (sys_pipe L) (\<lambda>x k. fst x \<noteq> -1 \<and> ok k) \<and>
     (\<forall>fd b. triple ok (sys_ioctl_nbio (life_net L) fd b) (\<lambda>_. ok)) \<and>
     (\<forall>n. triple ok (sys_epoll_create L n) (\<lambda>e k. e \<noteq> -1 \<and> ok k)) \<and>
     (\<forall>h fd m k. epoll_fd h \<noteq> -1 \<and> ok k \<longrightarrow> fst (fst (sys_ctl (kernel_of L h) CTL_ADD fd m k)) \<noteq> -1)"

lemma AddEvent_succeeds:
  assumes "poller_calls_succeed L ok" and "epoll_fd h \<noteq> -1" and "ok (kern w)"
  shows "fst (AddEvent (kernel_of L h) fd m (Some cb) w) \<noteq> -1"
  using assms by (auto simp: poller_calls_succeed_def AddEvent_def sys_def split_beta)

lemma EventPoller_new_succeeds:
  assumes ok: "poller_calls_succeed L ok"
  shows "triple ok (EventPoller_new L garbage err) (\<lambda>x _. x \<noteq> Inl StdException)"
proof -
  note calls = ok [unfolded poller_calls_succeed_def]
  have mode: "triple ok (SetNoBlocked (life_net L) fd b) (\<lambda>_. ok)" for fd b
    using calls by (simp add: SetNoBlocked_def)
  have pipe: "triple ok (PipeWrapper_new L) (\<lambda>p k. p \<noteq> None \<and> ok k)"
    unfolding PipeWrapper_new_def
    by (rule triple_bind [where R = "\<lambda>x k. fst x \<noteq> -1 \<and> ok k"])
      (use calls in \<open>auto intro!: triple_pure triple_then mode triple_ret\<close>)
  show ?thesis
    unfolding EventPoller_new_def
    apply (rule triple_bind [OF pipe])
    apply (rule triple_pure)
    apply (elim not_None_eq [THEN iffD1, THEN exE])
    apply (clarsimp simp only: option.case prod.case)
    apply (rule triple_then [OF mode], rule triple_then [OF mode])
    apply (rule triple_bind [where R = "\<lambda>e k. e \<noteq> -1 \<and> ok k"])
    using calls apply blast
    apply (auto simp: triple_def Let_def split_beta AddEvent_succeeds [OF ok])
    done
qed

section \<open>The old poller\<close>

lemma async_opens:
  assumes "calls_keep_open K opens" and "async K f first w = Some (i, w')"
  shows "opens (kern w') = opens (kern w)"
  by (rule async_frame [OF _ assms(2)]) (use assms(1) in \<open>auto simp: calls_keep_open_def\<close>)

lemma queue_all_opens:
  assumes "calls_keep_open K opens" and "iter_opt (queue_one K) cs w = Some w'"
  shows "opens (kern w') = opens (kern w)"
  using assms(2)
proof (induction cs arbitrary: w)
  case (Cons c cs)
  then obtain w1 where w1: "queue_one K c w = Some w1" "iter_opt (queue_one K) cs w1 = Some w'"
    by auto
  from w1(1) obtain i where "async K (Some (User (Emit (snd c) (Return 0)))) (fst c) w = Some (i, w1)"
    by (cases "fst c") (auto simp: queue_one_def queue_by_def Async_def AsyncFirst_def)
  from async_opens [OF assms(1) this] Cons.IH [OF w1(2)] show ?case by simp
qed simp

lemma drain_opens:
  assumes "calls_keep_open K opens" and "drain K w = Some w'"
  shows "opens (kern w') = opens (kern w)"
proof (rule drain_inv [where I = "\<lambda>v. opens (kern v) = opens (kern w)", OF assms(2) refl])
  fix v r v' assume *: "opens (kern v) = opens (kern w)" "sys (sys_read K 1024) v = (r, v')"
  from sys_kern [OF *(2)] assms(1) *(1) show "opens (kern v') = opens (kern w)"
    unfolding calls_keep_open_def by metis
qed

text \<open>The tasks that \<open>Shutdown\<close> and the users have queued, when the destructor runs them.\<close>

lemma run_exit_emits:
  assumes "tasks w i = task_new (Some ThrowExit)"
    and "list_all2 (\<lambda>j e. tasks w j = emit_task e) is es"
  shows "run_task_list K (i # is) w =
    Some (Inr (), w\<lparr>exit_flag := True, started := started w @ i # is, trace := trace w @ es\<rparr>)"
proof -
  have "(tasks w)(i := tasks w i) = tasks w" by simp
  then have "call_task K i w = Some (Inl ExitException, w\<lparr>started := started w @ [i]\<rparr>)"
    using assms(1) by (simp add: call_task_def task_call_def task_new_def task_lock_def use_count_def
      call_body_def run_closure_def put_task_def task_unlock_def)
  then show ?thesis
    using run_emits [of "w\<lparr>started := started w @ [i], exit_flag := True\<rparr>" "is" es K] assms(2) by simp
qed

lemma delete_runs:
  assumes live: "pipe_live (kernel_of L h) \<mu> \<nu>" "pipe_live (kernel_of L (h\<lparr>epoll_fd := -1\<rparr>)) \<mu>' \<nu>'"
    and keep: "\<And>h. calls_keep_open (kernel_of L h) opens"
    and mode: "mode_laws (life_net L) opens nonblock full"
    and fds: "pipe_rfd h \<noteq> -1" "pipe_wfd h \<noteq> -1" "epoll_fd h \<noteq> -1"
    and q: "queued w es"
  shows "\<exists>w'. EventPoller_delete L h w = Some (Inr (), w') \<and> trace w' = trace w @ es \<and>
    exit_flag w' \<and> task_list w' = [] \<and>
    opens (kern w') = opens (kern w) - {pipe_rfd h, pipe_wfd h, epoll_fd h}"
proof -
  let ?K = "kernel_of L h" and ?K' = "kernel_of L (h\<lparr>epoll_fd := -1\<rparr>)"
  obtain i w1 where a: "async ?K (Some ThrowExit) True w = Some (i, w1)"
    using async_returns [OF live(1)] by blast
  then obtain k e where w1: "i = next_task w" "w1 = w\<lparr>next_task := Suc i,
      tasks := (tasks w)(i := task_new (Some ThrowExit)), task_list := i # task_list w, kern := k, cerrno := e\<rparr>"
    by (auto dest!: async_upd elim!: same_but_kernE)
  have ok: "opens k = opens (kern w)" using async_opens [OF keep a] w1 by simp
  obtain r k1 where c: "run_state (sys_close (life_net L) (epoll_fd h)) k = (r, k1)" by fastforce
  have k1: "opens k1 = opens (kern w) - {epoll_fd h}"
    using mode c ok unfolding mode_laws_def by blast
  obtain w2 where d: "drain ?K' (w1\<lparr>kern := k1\<rparr>) = Some w2" using drain_returns [OF live(2)] by blast
  then obtain k2 e2 where w2: "w2 = w1\<lparr>kern := k2, cerrno := e2\<rparr>"
    by (auto dest!: drain_upd elim!: same_but_kernE)
  have k2: "opens k2 = opens k1" using drain_opens [OF keep d] w2 by simp
  let ?w = "w2\<lparr>task_list := []\<rparr>"
  have "list_all2 (\<lambda>j e. tasks ?w j = emit_task e) (task_list w) es"
    using q unfolding queued_def waiting_def list_all2_map2
    by (rule list_all2_mono) (use w1 w2 in auto)
  moreover have "tasks ?w i = task_new (Some ThrowExit)" using w1 w2 by simp
  ultimately have "on_pipe_event ?K' (w1\<lparr>kern := k1\<rparr>) = Some (Inr (),
      ?w\<lparr>exit_flag := True, started := started w @ i # task_list w, trace := trace w @ es\<rparr>)"
    using d w1 w2 run_exit_emits [of ?w i "task_list w" es ?K'] by (simp add: on_pipe_event_def)
  moreover have "run_state (CLOSE_FD (life_net L) (epoll_fd h)) (kern w1) = (-1, k1)"
    using c fds w1 by (simp add: CLOSE_FD_def)
  moreover have "opens (snd (run_state (close_fd (life_net L) (pipe_rfd h, pipe_wfd h)) k2)) =
      opens (kern w) - {pipe_rfd h, pipe_wfd h, epoll_fd h}"
    using close_fd_opens [OF mode fds(1,2), of k2] k1 k2 by auto
  ultimately show ?thesis
    using a w2 w1 by (simp add: EventPoller_delete_def Shutdown_def)
qed

section \<open>Properties\<close>

lemma steps_any:
  "poller_steps K C R w w' \<Longrightarrow> poller_steps K (\<lambda>_. True) (\<lambda>_. True) w w'"
  by (induction rule: poller_steps.induct) (auto intro: poller_steps.intros)

text \<open>
  Property C23. A poller that the constructor returns is ready: its three descriptors are new and open,
  both ends of the pipe are non-blocking, the pipe is registered, and from there on, whatever the
  users and the loop do (as long as users leave the pipe's descriptor alone), no queued task is
  left without a wake-up and the table agrees with what the kernel watches. When the constructor
  throws, the pipe is closed again - but the descriptor of \<open>epoll\<close> may be left open. It does not
  throw when none of its system calls fails.
\<close>

theorem new_poller_ready:
  assumes "new_laws L opens nonblock watched full" and "mode_laws (life_net L) opens nonblock full"
    and "\<And>h. pipe_laws (kernel_of L h) (pipe_rfd h) (full (pipe_rfd h)) (armed (pipe_rfd h))"
    and "run_state (EventPoller_new L garbage err) k = (x, k')"
  shows "((x = Inl StdException \<and>
      (opens k' = opens k \<or> (\<exists>e. 0 \<le> e \<and> e \<notin> opens k \<and> opens k' = insert e (opens k)))) \<or>
    (\<exists>h w. x = Inr (h, w) \<and> kern w = k' \<and>
       distinct [pipe_rfd h, pipe_wfd h, epoll_fd h] \<and>
       {pipe_rfd h, pipe_wfd h, epoll_fd h} \<inter> opens k = {} \<and>
       opens k' = {pipe_rfd h, pipe_wfd h, epoll_fd h} \<union> opens k \<and>
       {pipe_rfd h, pipe_wfd h} \<subseteq> nonblock k' \<and> event_map w (pipe_rfd h) = Some PipeCB \<and>
       (\<forall>w'. poller_steps (kernel_of L h) (\<lambda>fd. fd \<noteq> pipe_rfd h) (\<lambda>_. True) w w' \<longrightarrow>
          (task_list w' \<noteq> [] \<longrightarrow> armed (pipe_rfd h) (kern w')) \<and>
          dom (event_map w') = watched (epoll_fd h) (kern w')))) \<and>
    (\<forall>ok. poller_calls_succeed L ok \<and> ok k \<longrightarrow> x \<noteq> Inl StdException)"
proof (rule conjI)
  show "\<forall>ok. poller_calls_succeed L ok \<and> ok k \<longrightarrow> x \<noteq> Inl StdException"
    using tripleD [OF EventPoller_new_succeeds _ assms(4)] by blast
next
  from EventPoller_new_ok [OF assms(1,2,4)] consider
    (throws) "x = Inl StdException"
      "opens k' = opens k \<or> (\<exists>e. 0 \<le> e \<and> e \<notin> opens k \<and> opens k' = insert e (opens k))"
  | (ready) h w where "x = Inr (h, w)" "kern w = k'" "fresh_poller L opens nonblock watched full (opens k) h w"
    by blast
  then show "(x = Inl StdException \<and>
      (opens k' = opens k \<or> (\<exists>e. 0 \<le> e \<and> e \<notin> opens k \<and> opens k' = insert e (opens k)))) \<or>
    (\<exists>h w. x = Inr (h, w) \<and> kern w = k' \<and>
       distinct [pipe_rfd h, pipe_wfd h, epoll_fd h] \<and>
       {pipe_rfd h, pipe_wfd h, epoll_fd h} \<inter> opens k = {} \<and>
       opens k' = {pipe_rfd h, pipe_wfd h, epoll_fd h} \<union> opens k \<and>
       {pipe_rfd h, pipe_wfd h} \<subseteq> nonblock k' \<and> event_map w (pipe_rfd h) = Some PipeCB \<and>
       (\<forall>w'. poller_steps (kernel_of L h) (\<lambda>fd. fd \<noteq> pipe_rfd h) (\<lambda>_. True) w w' \<longrightarrow>
          (task_list w' \<noteq> [] \<longrightarrow> armed (pipe_rfd h) (kern w')) \<and>
          dom (event_map w') = watched (epoll_fd h) (kern w')))" (is ?goal)
  proof cases
    case throws
    then show ?goal by simp
  next
    case ready
    note f = ready(3) [unfolded fresh_poller_def]
    have awake: "awake (kernel_of L h) (pipe_rfd h) (full (pipe_rfd h)) (armed (pipe_rfd h)) w"
      using f assms(3) by (simp add: awake_def wake_def)
    have "(task_list w' \<noteq> [] \<longrightarrow> armed (pipe_rfd h) (kern w')) \<and>
        dom (event_map w') = watched (epoll_fd h) (kern w')"
      if "poller_steps (kernel_of L h) (\<lambda>fd. fd \<noteq> pipe_rfd h) (\<lambda>_. True) w w'" for w'
      using steps_awake [OF that awake] registered.steps [OF steps_any [OF that]] f
      by (auto simp: awake_def wake_def registered_def)
    with ready f show ?goal by (auto simp: safe_def)
  qed
qed


text \<open>
  A system to apply them to: descriptors are numbered upwards, and there is one pipe and one
  instance of \<open>epoll\<close>.
\<close>

record life_demo =
  d_open :: "int set"
  d_nonblock :: "int set"
  d_watched :: "int set"
  d_next :: int
  d_bytes :: nat
  d_armed :: bool

definition demo_calls :: "poller_fds \<Rightarrow> life_demo kernel" where
  "demo_calls h = \<lparr>
     sys_write = (\<lambda>k. if d_bytes k < 65536
       then ((1, 0), k\<lparr>d_bytes := d_bytes k + 1, d_armed := True\<rparr>) else ((-1, EAGAIN), k)),
     sys_read = (\<lambda>n k. if d_bytes k = 0 then ((-1, EAGAIN), k)
       else ((int (min n (d_bytes k)), 0), k\<lparr>d_bytes := min (d_bytes k) 65536 - min n (d_bytes k)\<rparr>)),
     sys_ctl = (\<lambda>c fd m k.
       if epoll_fd h = -1 then ((-1, 9), k)
       else (case c of
           CTL_ADD \<Rightarrow> if fd \<in> d_watched k then ((-1, 17), k)
                      else ((0, 0), k\<lparr>d_watched := insert fd (d_watched k)\<rparr>)
         | CTL_DEL \<Rightarrow> if fd \<in> d_watched k then ((0, 0), k\<lparr>d_watched := d_watched k - {fd}\<rparr>)
                      else ((-1, 2), k)
         | CTL_MOD \<Rightarrow> ((0, 0), k))),
     sys_wait = (\<lambda>d n k. if d_armed k then (((1, 0), [(pipe_rfd h, 1)]), k\<lparr>d_armed := False\<rparr>)
                         else (((0, 0), []), k)),
     sys_now = (\<lambda>k. (0, k)),
     sys_input = (\<lambda>k. ((0, 0), k))\<rparr>"

definition life_net_demo :: "life_demo net_env" where
  "life_net_demo = idle_net\<lparr>
     sys_ioctl_nbio := (\<lambda>fd b. State (\<lambda>k. (0, k\<lparr>d_nonblock :=
       (if b then insert fd (d_nonblock k) else d_nonblock k - {fd})\<rparr>))),
     sys_close := (\<lambda>fd. State (\<lambda>k. (0, k\<lparr>d_open := d_open k - {fd}\<rparr>)))\<rparr>"

definition demo_life :: "life_demo life_env" where
  "demo_life = \<lparr>
     life_net = life_net_demo,
     sys_pipe = State (\<lambda>k. let n = d_next k in
       if 0 \<le> n \<and> n \<notin> d_open k \<and> n + 1 \<notin> d_open k
       then ((0, n, n + 1), k\<lparr>d_open := insert n (insert (n + 1) (d_open k)), d_next := n + 2, d_bytes := 0\<rparr>)
       else ((-1, 0, 0), k)),
     sys_epoll_create = (\<lambda>m. State (\<lambda>k. let n = d_next k in
       if 0 \<le> n \<and> n \<notin> d_open k
       then (n, k\<lparr>d_open := insert n (d_open k), d_next := n + 1, d_watched := {}\<rparr>) else (-1, k))),
     kernel_of = demo_calls\<rparr>"

definition demo_boot :: life_demo where
  "demo_boot = \<lparr>d_open = {0, 1, 2}, d_nonblock = {}, d_watched = {}, d_next = 3, d_bytes = 0, d_armed = False\<rparr>"

abbreviation "demo_full \<equiv> \<lambda>(_ :: int) k. 65536 \<le> d_bytes k"

lemma demo_new_laws: "new_laws demo_life d_open d_nonblock (\<lambda>_. d_watched) demo_full"
  by (auto simp: new_laws_def demo_life_def demo_calls_def ctl_law_def watch_frame_def Let_def
      split: if_splits)

lemma demo_mode_laws: "mode_laws (life_net demo_life) d_open d_nonblock demo_full"
  by (auto simp: mode_laws_def demo_life_def life_net_demo_def)

lemma demo_pipe_laws: "pipe_laws (kernel_of demo_life h) (pipe_rfd h) (demo_full (pipe_rfd h)) d_armed"
  by (auto simp: pipe_laws_def write_law_def read_law_def quiet_law_def wait_law_def quiet_def
      demo_life_def demo_calls_def split: if_splits ctl_op.splits)

lemma demo_poller_calls: "poller_calls_succeed demo_life
    (\<lambda>k. 0 \<le> d_next k \<and> d_open k \<subseteq> {..<d_next k} \<and> d_watched k = {})"
  by (auto simp: poller_calls_succeed_def triple_def demo_life_def life_net_demo_def demo_calls_def Let_def)

theorem new_poller_ready_witness:
  "\<exists>h (w :: (string, life_demo) poller).
     fst (run_state (EventPoller_new demo_life True 0) demo_boot) = Inr (h, w) \<and>
     distinct [pipe_rfd h, pipe_wfd h, epoll_fd h] \<and> event_map w (pipe_rfd h) = Some PipeCB"
proof -
  obtain x :: "exc + poller_fds \<times> (string, life_demo) poller" and k'
    where r: "run_state (EventPoller_new demo_life True 0) demo_boot = (x, k')" by fastforce
  note ready = new_poller_ready [OF demo_new_laws demo_mode_laws demo_pipe_laws r]
  have "x \<noteq> Inl StdException"
    using ready [THEN conjunct2, rule_format, OF conjI [OF demo_poller_calls]] by (simp add: demo_boot_def)
  with ready [THEN conjunct1] r show ?thesis by auto
qed

text \<open>The poller that this constructor makes, when it has been used and its lists are empty.\<close>

definition demo_fds :: poller_fds where
  "demo_fds = \<lparr>pipe_rfd = 3, pipe_wfd = 4, epoll_fd = 5\<rparr>"

definition demo_old :: "(string, life_demo) poller" where
  "demo_old = \<lparr>task_list = [], delay_tasks = [], event_map = [3 \<mapsto> PipeCB], exit_flag = False,
     tasks = (\<lambda>_. task_new None), next_task = 0, cerrno = 0,
     kern = \<lparr>d_open = {0, 1, 2, 3, 4, 5}, d_nonblock = {3, 4}, d_watched = {3}, d_next = 6, d_bytes = 0,
             d_armed = False\<rparr>,
     started = [], trace = []\<rparr>"

lemma demo_life_live: "pipe_live (kernel_of demo_life h) (\<lambda>_. 0) d_bytes"
  by (auto simp: pipe_live_def demo_life_def demo_calls_def get_uv_error_def uv_translate_posix_error_def
      split: if_splits)

lemma demo_keep_open: "calls_keep_open (kernel_of demo_life h) d_open"
  by (auto simp: calls_keep_open_def demo_life_def demo_calls_def split: if_splits)


end
