(* ===== verification/SocketDgram.thy ===== *)
theory SocketDgram
  imports Socket
begin

text \<open>
  \<^verbatim>\<open>net/socket.cpp\<close> with a descriptor for datagrams: flushing keeps datagrams apart, in order and
  whole; and the types of the packets. \<open>send_l\<close> casts the first packet of a batch to
  \<open>BufferSock\<close> when the descriptor is a UDP one, without a check, so every packet in the lists must
  have been made for a descriptor of that type.
\<close>

section \<open>Flushing datagrams\<close>

definition dgrams_left :: "buffer_list \<Rightarrow> (byte list option \<times> block) list" where
  "dgrams_left bl = (if 0 < bl_remain_size bl then map dgram_of (bl_pkts bl) else [])"

definition dgram_batch :: "buffer_list \<Rightarrow> bool" where
  "dgram_batch bl \<longleftrightarrow> (\<exists>ps. udp_inv ps bl) \<and> 0 < bl_remain_size bl"

definition dgram_ok ::
  "'k sock_env \<Rightarrow> sock_fd \<Rightarrow> ('k \<Rightarrow> (byte list option \<times> block) list) \<Rightarrow> ('k \<Rightarrow> nat) \<Rightarrow> bool" where
  "dgram_ok E fd sent \<mu> \<longleftrightarrow>
     kernel_ok (env_sendmsg E) (raw_fd fd) sent dgram_valid dgram_deliver \<and>
     eintr_bounded (env_sendmsg E) (raw_fd fd) \<mu> \<and> fd_type fd = SOCK_UDP \<and> env_ok E sent"

lemma bl_inv_remain:
  assumes "bl_inv ps bl"
  shows "0 \<le> bl_remain_size bl" "bl_remain_size bl = 0 \<longleftrightarrow> todo bl = []"
proof -
  have r: "bl_remain_size bl = iov_total (todo bl)" "list_all iov_ok (todo bl)"
    using assms by (simp_all add: bl_inv_def)
  then show "0 \<le> bl_remain_size bl" using iov_total_nonneg by simp
  show "bl_remain_size bl = 0 \<longleftrightarrow> todo bl = []"
    using r iov_total_pos [of "todo bl"] by fastforce
qed

lemma udp_left:
  assumes "udp_inv ps bl"
  shows "dgrams_left bl = map dgram_of (rest ps bl)"
proof -
  have b: "bl_inv ps bl" "todo bl = map iov_of (rest ps bl)" using assms by (auto simp: udp_inv_def)
  show ?thesis
  proof (cases "0 < bl_remain_size bl")
    case True
    then show ?thesis using b(1) by (simp add: dgrams_left_def bl_inv_def rest_def)
  next
    case False
    then have "bl_remain_size bl = 0" using bl_inv_remain(1) [OF b(1)] by simp
    then have "rest ps bl = []" using bl_inv_remain(2) [OF b(1)] b(2) by simp
    with False show ?thesis by (simp add: dgrams_left_def)
  qed
qed

lemma bl_send_left:
  assumes "kernel_ok sm fd sent dgram_valid dgram_deliver" and "eintr_bounded sm fd \<mu>"
    and "dgram_batch bl"
  shows "\<exists>n bl' e' k'. bl_send sm fd flags True bl e k = Some (n, bl', e', k') \<and>
    sent k' @ dgrams_left bl' = sent k @ dgrams_left bl \<and>
    (if n > 0 \<and> bl_empty bl' then dgrams_left bl' = [] else dgram_batch bl' \<and> refused sm fd k')"
proof -
  obtain ps where inv: "udp_inv ps bl" and pos: "0 < bl_remain_size bl"
    using assms(3) by (auto simp: dgram_batch_def)
  from send_loop_dgram [OF assms(1,2) inv, of flags e k] obtain bl' e' k' where
    s: "send_loop sm fd flags True bl e k = Some (bl', e', k')" "udp_inv ps bl'"
      "bl_remain_size bl' \<le> bl_remain_size bl"
      "sent k' @ map dgram_of (rest ps bl') = sent k @ map dgram_of (rest ps bl)"
    by blast
  let ?n = "if bl_remain_size bl - bl_remain_size bl' > 0 then bl_remain_size bl - bl_remain_size bl' else -1"
  have b: "bl_inv ps bl'" using s(2) by (simp add: udp_inv_def)
  have e: "bl_empty bl' \<longleftrightarrow> bl_remain_size bl' = 0"
    using bl_empty_pending [OF b] pending_length [OF b] by auto
  have "if ?n > 0 \<and> bl_empty bl' then dgrams_left bl' = [] else dgram_batch bl' \<and> refused sm fd k'"
    using e s(2) pos bl_inv_remain(1) [OF b] send_loop_end [OF s(1)] by (auto simp: dgram_batch_def dgrams_left_def)
  moreover have "bl_send sm fd flags True bl e k = Some (?n, bl', e', k')"
    using s(1) by (simp add: bl_send_def Let_def)
  ultimately show ?thesis
    using s(4) udp_left [OF inv] udp_left [OF s(2)] by metis
qed

lemma dgram_batch_new:
  assumes "batch_ok ps" and "list_all is_sock ps" and "ps \<noteq> []"
  shows "dgram_batch (bl_new ps) \<and> dgrams_left (bl_new ps) = map dgram_of ps"
proof -
  have u: "udp_inv ps (bl_new ps)" by (rule bl_new_udp_inv [OF assms(1,2)])
  then have b: "bl_inv ps (bl_new ps)" by (simp add: udp_inv_def)
  have "todo (bl_new ps) \<noteq> []" using assms(3) by (simp add: todo_def bl_new_def)
  then have "0 < bl_remain_size (bl_new ps)" using bl_inv_remain [OF b] by simp
  with u show ?thesis by (auto simp: dgram_batch_def dgrams_left_def) (simp_all add: bl_new_def)
qed

interpretation dgrams: flushing E fd sent "\<lambda>bl. dgram_ok E fd sent \<mu> \<and> dgram_batch bl" dgrams_left
    "\<lambda>ps. dgram_ok E fd sent \<mu> \<and> batch_ok ps \<and> list_all is_sock ps" "map dgram_of"
  for E :: "'k sock_env" and fd sent \<mu>
proof unfold_locales
  fix bl flags e and k :: 'k
  assume *: "dgram_ok E fd sent \<mu> \<and> dgram_batch bl"
  then have ok: "kernel_ok (env_sendmsg E) (raw_fd fd) sent dgram_valid dgram_deliver"
    "eintr_bounded (env_sendmsg E) (raw_fd fd) \<mu>" "fd_type fd = SOCK_UDP" by (auto simp: dgram_ok_def)
  from bl_send_left [OF ok(1,2) conjunct2 [OF *], of flags e k] obtain n bl' e' k' where
    s: "bl_send (env_sendmsg E) (raw_fd fd) flags True bl e k = Some (n, bl', e', k')"
      "sent k' @ dgrams_left bl' = sent k @ dgrams_left bl"
      "if n > 0 \<and> bl_empty bl' then dgrams_left bl' = [] else dgram_batch bl' \<and> refused (env_sendmsg E) (raw_fd fd) k'"
    by blast
  have "if n > 0 \<and> bl_empty bl' then dgrams_left bl' = []
      else (dgram_ok E fd sent \<mu> \<and> dgram_batch bl') \<and> refused (env_sendmsg E) (raw_fd fd) k'"
    using s(3) conjunct1 [OF *] by (simp split: if_splits)
  then show "\<exists>n bl' e' k'. bl_send (env_sendmsg E) (raw_fd fd) flags (fd_type fd = SOCK_UDP) bl e k =
      Some (n, bl', e', k') \<and> sent k' @ dgrams_left bl' = sent k @ dgrams_left bl \<and>
      (if n > 0 \<and> bl_empty bl' then dgrams_left bl' = []
       else (dgram_ok E fd sent \<mu> \<and> dgram_batch bl') \<and> refused (env_sendmsg E) (raw_fd fd) k')"
    using s(1,2) ok(3) by (intro exI [of _ n] exI [of _ bl'] exI [of _ e'] exI [of _ k']) (simp del: if_split)
qed (auto simp: dgram_batch_new dgram_ok_def)

text \<open>What a UDP socket still has to send.\<close>

definition unsent_dgrams :: "'k socket \<Rightarrow> (byte list option \<times> block) list" where
  "unsent_dgrams sk = to_send dgrams_left (map dgram_of) sk"

definition dgrams_good :: "'k socket \<Rightarrow> bool" where
  "dgrams_good sk \<longleftrightarrow> list_all dgram_batch (send_buf_sending sk) \<and>
     batch_ok (send_buf_waiting sk) \<and> list_all is_sock (send_buf_waiting sk)"

lemma dgrams_lists:
  "dgram_ok E fd sent \<mu> \<Longrightarrow>
   lists_good (\<lambda>bl. dgram_ok E fd sent \<mu> \<and> dgram_batch bl)
     (\<lambda>ps. dgram_ok E fd sent \<mu> \<and> batch_ok ps \<and> list_all is_sock ps) sk = dgrams_good sk"
  by (simp add: lists_good_def dgrams_good_def)

section \<open>The types of the packets\<close>

definition fits :: "sock_type \<Rightarrow> packet \<Rightarrow> bool" where
  "fits t p \<longleftrightarrow> is_sock p = (t = SOCK_UDP)"

definition batch_fits :: "sock_type \<Rightarrow> buffer_list \<Rightarrow> bool" where
  "batch_fits t bl \<longleftrightarrow> list_all (fits t) (bl_pkts bl)"

text \<open>A socket whose lists hold packets of one type, and whose descriptor, if any, is of that type.\<close>

definition typed :: "sock_type \<Rightarrow> 'k socket \<Rightarrow> bool" where
  "typed t sk \<longleftrightarrow> list_all (fits t) (send_buf_waiting sk) \<and> list_all (batch_fits t) (send_buf_sending sk) \<and>
     pred_option (\<lambda>fd. fd_type fd = t) (sockfd sk)"

text \<open>The user's flush callback does not put a descriptor of another type into the socket.\<close>

definition flushed_typed :: "'k sock_env \<Rightarrow> sock_type \<Rightarrow> bool" where
  "flushed_typed E t \<longleftrightarrow> (\<forall>c sk. typed t sk \<longrightarrow> typed t (snd (env_flushed E c sk)))"

fun op_fits :: "sock_type \<Rightarrow> sock_op \<Rightarrow> bool" where
  "op_fits t (OpSend p) = fits t p"
| "op_fits t (OpAttach fd) = (fd_type fd = t)"
| "op_fits t _ = True"

lemma send_l_pkts:
  "send_l sm fd flags udp bl e k = Some (n, bl', e', k') \<Longrightarrow> set (bl_pkts bl') \<subseteq> set (bl_pkts bl)"
  by (auto simp: send_l_def reoffset_def Let_def bind_eq_Some_conv split: if_splits prod.splits
      dest: in_set_dropD)

lemma send_loop_pkts:
  assumes "send_loop sm fd flags udp bl e k = Some y"
  shows "set (bl_pkts (fst y)) \<subseteq> set (bl_pkts bl)"
proof (rule send_loop.raw_induct [where P = "\<lambda>sm fd flags udp bl e k y. set (bl_pkts (fst y)) \<subseteq> set (bl_pkts bl)",
    OF _ assms])
  fix self sm fd flags udp bl e k y
  assume IH: "\<And>sm fd flags udp bl e k y. self sm fd flags udp bl e k = Some y \<Longrightarrow>
      set (bl_pkts (fst y)) \<subseteq> set (bl_pkts bl)"
    and body: "(if bl_remain_size bl = 0 then Some (bl, e, k)
     else Option.bind (send_l sm fd flags udp bl e k) (\<lambda>r.
        if fst r \<noteq> -1
        then self sm fd flags udp (fst (snd r)) (fst (snd (snd r))) (snd (snd (snd r)))
        else Some (snd r))) = Some y"
  show "set (bl_pkts (fst y)) \<subseteq> set (bl_pkts bl)"
  proof (cases "bl_remain_size bl = 0")
    case False
    with body obtain r where l: "send_l sm fd flags udp bl e k = Some r"
      and r: "(if fst r \<noteq> -1 then self sm fd flags udp (fst (snd r)) (fst (snd (snd r))) (snd (snd (snd r)))
        else Some (snd r)) = Some y"
      by (cases "send_l sm fd flags udp bl e k") auto
    obtain n bl' e' k' where "r = (n, bl', e', k')" by (cases r)
    with l have "set (bl_pkts (fst (snd r))) \<subseteq> set (bl_pkts bl)" by (auto dest: send_l_pkts)
    with r IH show ?thesis by (fastforce split: if_splits)
  qed (use body in auto)
qed

lemma bl_send_fits:
  assumes "bl_send sm fd flags udp bl e k = Some (n, bl', e', k')" and "batch_fits t bl"
  shows "batch_fits t bl'"
proof -
  from assms(1) have "send_loop sm fd flags udp bl e k = Some (bl', e', k')"
    by (auto simp: bl_send_def bind_eq_Some_conv Let_def)
  from send_loop_pkts [OF this] assms(2) show ?thesis by (auto simp: batch_fits_def list_all_iff)
qed

lemma send_batches_fits:
  "send_batches E fd tmp sk = Some (r, tmp', sk') \<Longrightarrow> list_all (batch_fits t) tmp \<Longrightarrow>
   list_all (batch_fits t) tmp' \<and> sockfd sk' = sockfd sk"
proof (induction tmp arbitrary: sk)
  case (Cons pkt tmp)
  then obtain n pkt' e k where b:
    "bl_send (env_sendmsg E) (raw_fd fd) (socket_flags sk) (fd_type fd = SOCK_UDP) pkt (err_no sk) (kern_st sk) =
       Some (n, pkt', e, k)" by auto
  from bl_send_fits [OF b] Cons.prems(2) have "batch_fits t pkt'" by simp
  with b Cons.IH [of "sk\<lparr>err_no := e, kern_st := k\<rparr>"] Cons.prems show ?case
    by (auto simp: Let_def split: if_splits)
qed simp

lemma on_error_typed: "typed t sk \<Longrightarrow> typed t (snd (on_error E fd sk))"
  by (auto simp: on_error_def get_socket_error_def emit_error_def Close_def typed_def Let_def
      split: prod.splits option.splits)

lemma typed_upd [simp]: "typed t (sk\<lparr>sending := b\<rparr>) = typed t sk" "typed t (sk\<lparr>kern_st := k\<rparr>) = typed t sk"
  by (simp_all add: typed_def)

lemma on_flushed_typed: "flushed_typed E t \<Longrightarrow> typed t sk \<Longrightarrow> typed t (on_flushed E sk)"
proof (cases "flushed_cb sk")
  case (Some c)
  assume a: "flushed_typed E t" "typed t sk"
  obtain f sk1 where c: "env_flushed E c sk = (f, sk1)" by fastforce
  have "typed t sk1" using a c unfolding flushed_typed_def by (metis snd_conv)
  with Some c show ?thesis by (simp add: on_flushed_def typed_def)
qed (simp add: on_flushed_def)

interpretation typed: flush_keeps E fd "\<lambda>sk. flushed_typed E t \<and> typed t sk"
    "\<lambda>tmp sk. flushed_typed E t \<and> list_all (batch_fits t) tmp \<and> typed t sk"
  for E :: "'k sock_env" and fd t
proof unfold_locales
  fix sk :: "'k socket"
  assume "flushed_typed E t \<and> typed t sk"
  then show "flushed_typed E t \<and> typed t (on_flushed E (stop_writeable_event E fd sk))"
    using on_flushed_typed [of E t "stop_writeable_event E fd sk"]
    by (simp add: typed_def stop_writeable_event_def)
next
  fix tmp r tmp' and sk sk' :: "'k socket"
  assume "flushed_typed E t \<and> list_all (batch_fits t) tmp \<and> typed t sk"
    and s: "send_batches E fd tmp sk = Some (r, tmp', sk')"
  then show "flushed_typed E t \<and> list_all (batch_fits t) tmp' \<and> typed t sk'"
    using send_batches_fits [OF s, of t] send_batches_sending [OF s] by (simp add: typed_def)
qed (auto simp: on_error_typed, auto simp: typed_def batch_fits_def bl_new_def)

lemma exec_sock_op_typed:
  assumes "flushed_typed E t" and "typed t sk" and "op_fits t op" and "exec_sock_op E op sk = Some sk'"
  shows "typed t sk'"
proof (cases op)
  case OpWriteable
  show ?thesis
  proof (cases "sockfd sk")
    case (Some fd)
    show ?thesis
    proof (cases "send_buf_sending sk = [] \<and> send_buf_waiting sk = []")
      case True
      with assms OpWriteable Some show ?thesis
        by (auto simp: on_writeable_def stop_writeable_event_def typed_def)
    next
      case False
      with assms OpWriteable Some obtain b where "flush_data E fd sk = Some (b, sk')"
        by (auto simp: on_writeable_def)
      from typed.flush [OF this, of t] assms(1,2) show ?thesis by simp
    qed
  qed (use assms OpWriteable in simp)
next
  case OpError
  with assms show ?thesis by (auto simp: on_error_typed split: option.splits)
qed (use assms in \<open>auto simp: typed_def send_task_def start_writeable_event_def Let_def Close_def
  split: option.splits\<close>)

lemma sock_ops_typed:
  "flushed_typed E t \<Longrightarrow> list_all (op_fits t) ops \<Longrightarrow> typed t sk \<Longrightarrow>
   iter_opt (exec_sock_op E) ops sk = Some sk' \<Longrightarrow> typed t sk'"
  by (induction ops arbitrary: sk) (auto dest: exec_sock_op_typed)

lemma sock_send_fits:
  "sock_send b addr len sk = Inr (r, Some p) \<Longrightarrow> sockfd sk = Some fd \<Longrightarrow> fits (fd_type fd) p"
  by (auto simp: sock_send_def fits_def split: if_splits) (auto simp: map_sum_def split: sum.splits)

lemma Send_fits:
  assumes "Send buf n addr len sk = Inr (r, Some p)" and "pred_option (\<lambda>fd. fd_type fd = t) (sockfd sk)"
  shows "fits t p"
proof -
  from assms(1) obtain b where b: "sock_send b addr len sk = Inr (r, Some p)"
    by (auto simp: Send_def Let_def split: option.splits if_splits sum.splits)
  then obtain fd where "sockfd sk = Some fd"
    by (auto simp: sock_send_def split: if_splits option.splits)
  with sock_send_fits [OF b this] assms(2) show ?thesis by simp
qed

lemma mk_msg_typed:
  assumes "batch_fits t bl" and "bl_pkts bl \<noteq> []"
  shows "mk_msg flags (t = SOCK_UDP) bl \<noteq> None"
proof (cases "bl_pkts bl")
  case (Cons p ps)
  with assms(1) have "is_sock p = (t = SOCK_UDP)" by (simp add: batch_fits_def fits_def)
  with Cons show ?thesis by (cases p) (auto simp: mk_msg_def)
qed (use assms in simp)

section \<open>Properties\<close>

text \<open>
  Property C7. \<open>flush_data\<close> on a UDP socket returns and keeps the datagrams: each packet goes out as one
  datagram of its own, whole and to its own address, once and in the order in which the packets
  were queued, over all rounds and batches; what has been sent followed by what is left stays the
  same. Only after a fatal error, when the socket has been closed, are datagrams in hand dropped;
  otherwise it goes on until everything is sent or the last \<open>sendmsg\<close> has failed, unless the poller
  has ended.
\<close>

theorem flush_keeps_datagrams:
  assumes "kernel_ok (env_sendmsg E) (raw_fd fd) sent dgram_valid dgram_deliver"
    and "eintr_bounded (env_sendmsg E) (raw_fd fd) \<mu>" and "fd_type fd = SOCK_UDP"
    and "env_ok E sent" and "dgrams_good sk"
  shows "\<exists>b sk' lost. flush_data E fd sk = Some (b, sk') \<and>
    sent (kern_st sk') @ lost @ unsent_dgrams sk' = sent (kern_st sk) @ unsent_dgrams sk \<and>
    (lost = [] \<or> \<not> b \<and> sockfd sk' = None) \<and> dgrams_good sk' \<and>
    (if b then unsent_dgrams sk' = [] \<or> refused (env_sendmsg E) (raw_fd fd) (kern_st sk')
     else env_closed E (kern_st sk') \<or> sockfd sk' = None)"
proof -
  have ok: "dgram_ok E fd sent \<mu>" using assms by (simp add: dgram_ok_def)
  from dgrams.flush_left [where sk = sk and E = E and fd = fd and sent = sent and \<mu> = \<mu>]
  show ?thesis
    unfolding dgrams_lists [OF ok] flush_result_def unsent_dgrams_def using assms(5) by blast
qed

text \<open>
  Property C13. The packets have the type their consumer takes them for: as long as the socket's
  descriptors are of one type, over any sequence of sends, events, errors, closes and
  reconnections, every packet in the lists was made for that type, so the unchecked cast in
  \<open>send_l\<close> is right for every batch; and what \<open>Send\<close> makes on such a socket fits again.
\<close>

theorem packets_fit_descriptor:
  assumes "flushed_typed E t" and "list_all (op_fits t) ops" and "typed t sk"
    and "iter_opt (exec_sock_op E) ops sk = Some sk'"
  shows "typed t sk' \<and>
    (\<forall>bl \<in> set (send_buf_sending sk'). bl_pkts bl \<noteq> [] \<longrightarrow> mk_msg flags (t = SOCK_UDP) bl \<noteq> None) \<and>
    (\<forall>buf n addr len r p. Send buf n addr len sk' = Inr (r, Some p) \<longrightarrow> fits t p)"
proof -
  have t: "typed t sk'" by (rule sock_ops_typed [OF assms])
  then have "\<forall>bl \<in> set (send_buf_sending sk'). batch_fits t bl" "pred_option (\<lambda>fd. fd_type fd = t) (sockfd sk')"
    by (simp_all add: typed_def list_all_iff)
  with t mk_msg_typed Send_fits show ?thesis by blast
qed

text \<open>
  When the type changes the cast is wrong: \<open>Close\<close> keeps what waits, so that a packet that
  was queued on a connection is taken for a \<open>BufferSock\<close> when the same socket then listens for
  datagrams and is flushed (in the model, \<open>flush_data\<close> has no result).
\<close>

theorem stale_packet_miscast:
  assumes "send_buf_sending sk = []" and "send_buf_waiting sk = Raw b # ps"
    and "batch_ok (send_buf_waiting sk)" and "fd_type fd = SOCK_UDP" and "\<not> env_closed E (kern_st sk)"
  shows "flush_data E fd ((Close sk)\<lparr>sockfd := Some fd\<rparr>) = None"
proof -
  let ?bl = "bl_new (send_buf_waiting sk)"
  let ?sk = "((Close sk)\<lparr>sockfd := Some fd, send_buf_waiting := []\<rparr>)"
  have "pending ?bl \<noteq> []" using batch_good_new [OF assms(3)] assms(2) by (simp add: batch_good_def)
  then have "bl_remain_size ?bl \<noteq> 0" using pending_length [OF bl_new_inv(1) [OF assms(3)]] by auto
  moreover have "mk_msg flags True ?bl = None" for flags by (simp add: mk_msg_def bl_new_def assms(2))
  ultimately have "bl_send sm fd' flags True ?bl e k = None" for sm fd' flags e and k :: 'a
    by (simp add: bl_send_def, subst send_loop.simps) (simp add: send_l_def)
  then have "send_batches E fd [?bl] ?sk = None" using assms(4) by simp
  with assms(1,2,5) show ?thesis
    by (subst flush_data.simps) (simp add: Close_def del: send_batches.simps)
qed

definition demo_dgram_fd :: sock_fd where
  "demo_dgram_fd = \<lparr>raw_fd = 3, fd_type = SOCK_UDP, fd_connected = False\<rparr>"

definition demo_dgram_env :: "(answer list \<times> (byte list option \<times> block) list) sock_env" where
  "demo_dgram_env = \<lparr>env_sendmsg = script_dgram, env_so_error = (\<lambda>fd k. ((0, 0, 0), k)),
     env_closed = (\<lambda>_. False), env_modify = (\<lambda>fd m k. k), env_flushed = (\<lambda>c sk. (False, sk)),
     env_strerror = (\<lambda>_. ''error'')\<rparr>"

definition demo_dgram_sock :: "(answer list \<times> (byte list option \<times> block) list) socket" where
  "demo_dgram_sock = \<lparr>sockfd = Some demo_dgram_fd, timer = False, connecting = False, send_buf_sending = [],
     send_buf_waiting = [demo_packet 7 1, demo_packet 9 2], sending = True, enable_recv = True,
     flushed_cb = Some 0, socket_flags = 0, reported = [], err_no = 0,
     kern_st = ([Room 1, Err EINTR, Room 2], [])\<rparr>"

lemma demo_dgram_ok:
  "kernel_ok (env_sendmsg demo_dgram_env) (raw_fd demo_dgram_fd) snd dgram_valid dgram_deliver"
  "eintr_bounded (env_sendmsg demo_dgram_env) (raw_fd demo_dgram_fd) (\<lambda>k. length (fst k))"
  "fd_type demo_dgram_fd = SOCK_UDP" "env_ok demo_dgram_env snd"
  using script_dgram_ok by (simp_all add: demo_dgram_env_def demo_dgram_fd_def env_ok_def)

theorem flush_keeps_datagrams_witness:
  "\<exists>b sk' lost. flush_data demo_dgram_env demo_dgram_fd demo_dgram_sock = Some (b, sk') \<and>
     snd (kern_st sk') @ lost @ unsent_dgrams sk' =
       [(Some [1], [Some 7, Some 0]), (Some [2], [Some 9, Some 0])]"
proof -
  have "dgrams_good demo_dgram_sock"
    using demo_batch [of 7 1 9 2] by (simp add: dgrams_good_def demo_dgram_sock_def demo_packet_def)
  moreover have "snd (kern_st demo_dgram_sock) @ unsent_dgrams demo_dgram_sock =
      [(Some [1], [Some 7, Some 0]), (Some [2], [Some 9, Some 0])]"
    by (simp add: demo_dgram_sock_def unsent_dgrams_def to_send_def dgram_of_def payload_def demo_packet_def
        sock_block_def sock_size_def block_of_def)
  ultimately show ?thesis using flush_keeps_datagrams [OF demo_dgram_ok] by metis
qed

theorem packets_fit_descriptor_witness:
  "typed SOCK_UDP ((Close demo_dgram_sock)\<lparr>sockfd := Some demo_dgram_fd\<rparr>)"
proof -
  have "typed SOCK_UDP demo_dgram_sock"
    by (simp add: typed_def demo_dgram_sock_def fits_def demo_packet_def demo_dgram_fd_def)
  from packets_fit_descriptor [OF _ _ this, where E = demo_dgram_env and ops = "[OpAttach demo_dgram_fd]"]
  show ?thesis by (simp add: flushed_typed_def demo_dgram_env_def demo_dgram_fd_def)
qed

theorem stale_packet_miscast_witness:
  "flush_data demo_dgram_env demo_dgram_fd
     ((Close (demo_dgram_sock\<lparr>send_buf_waiting := [Raw \<lparr>raw_data = Some [Some 5, Some 0], raw_capacity = 2,
        raw_size = 1\<rparr>]\<rparr>))\<lparr>sockfd := Some demo_dgram_fd\<rparr>) = None"
  by (rule stale_packet_miscast)
    (simp_all add: demo_dgram_sock_def demo_dgram_fd_def demo_dgram_env_def batch_ok_def raw_ok_def
      raw_alloc_def block_of_def)

end
