(* ===== verification/SocketRead.thy ===== *)
theory SocketRead
  imports Socket
begin

text \<open>
  \<^verbatim>\<open>net/socket.cpp\<close>: the receiving half of a socket, \<open>on_read\<close>. It reads into a buffer that is
  allocated once, sets a terminating zero behind the bytes read, and hands the buffer to the
  user's callback, until the kernel has no more.
\<close>

section \<open>The loop\<close>

text \<open>
  What it uses: \<open>recvfrom\<close> with the capacity it passes (the result, the \<open>errno\<close> of a failure, the
  bytes and the address), and the user's callback, which may do anything to the socket. The address
  is whole: its length is passed again as it came from the last call, and one socket has addresses of
  one length.
\<close>

record 'k recv_env =
  rcv_recvfrom :: "int \<Rightarrow> int \<Rightarrow> 'k \<Rightarrow> ((int \<times> errno) \<times> byte list \<times> byte list) \<times> 'k"
  rcv_read_cb :: "raw_buf \<Rightarrow> byte list \<Rightarrow> 'k socket \<Rightarrow> 'k socket"

text \<open>One \<open>recvfrom\<close>, over the bytes and the address it wrote and the socket.\<close>

definition recv_call ::
  "'k recv_env \<Rightarrow> sock_fd \<Rightarrow> int \<Rightarrow> byte list \<times> byte list \<times> 'k socket \<Rightarrow>
   int \<times> byte list \<times> byte list \<times> 'k socket" where
  "recv_call R fd cap w =
     (case w of (d, a, sk) \<Rightarrow>
        case rcv_recvfrom R (raw_fd fd) cap (kern_st sk) of (((n, e), d', a'), k) \<Rightarrow>
          (n, d', a', sk\<lparr>kern_st := k, err_no := (if n = -1 then e else err_no sk)\<rparr>))"

text \<open>\<open>data[nread] = 0\<close> and \<open>SetSize(nread)\<close>, after \<open>recvfrom\<close> has written its bytes.\<close>

definition fill :: "byte list \<Rightarrow> int \<Rightarrow> raw_buf \<Rightarrow> buf_error + raw_buf" where
  "fill d n b =
     (let blk = block_of b
      in if nat n \<ge> length blk \<or> length d > length blk then Inl OutOfBounds
         else SetSize (word_of_int n)
           (b\<lparr>raw_data := Some ((map Some d @ drop (length d) blk)[nat n := Some 0])\<rparr>))"

abbreviation eof_error :: sock_exception where
  "eof_error \<equiv> \<lparr>ex_code = ERR_EOF, ex_msg = ''read eof''\<rparr>"

partial_function (option) read_loop ::
  "'k sock_env \<Rightarrow> 'k recv_env \<Rightarrow> bool \<Rightarrow> sock_fd \<Rightarrow> int \<Rightarrow> int \<Rightarrow> raw_buf \<Rightarrow> 'k socket \<Rightarrow>
   (buf_error + (int \<times> raw_buf \<times> 'k socket)) option" where
  "read_loop E R is_udp fd cap ret b sk =
     (if \<not> enable_recv sk then Some (Inr (0, b, sk))
      else
        retry_eintr (recv_call R fd cap) (\<lambda>w. err_no (snd (snd w))) ([], [], sk) \<bind>
          (\<lambda>(nread, d, a, sk1).
             if nread = 0
             then Some (Inr (ret, b, if is_udp then sk1 else snd (emit_error eof_error sk1)))
             else if nread = -1
             then Some (Inr (ret, b,
               if get_uv_error (err_no sk1) \<noteq> EAGAIN then snd (on_error E fd sk1) else sk1))
             else (case fill d nread b of
                     Inl x \<Rightarrow> Some (Inl x)
                   | Inr b1 \<Rightarrow> read_loop E R is_udp fd cap (ret + nread) b1 (rcv_read_cb R b1 a sk1))))"

text \<open>The capacity is \<open>buffer->Capacity() - 1\<close>, an unsigned difference that becomes an \<open>int\<close>.\<close>

definition on_read ::
  "'k sock_env \<Rightarrow> 'k recv_env \<Rightarrow> bool \<Rightarrow> sock_fd \<Rightarrow> raw_buf \<Rightarrow> 'k socket \<Rightarrow>
   (buf_error + (int \<times> raw_buf \<times> 'k socket)) option" where
  "on_read E R is_udp fd b sk =
     read_loop E R is_udp fd (int32 (uint (raw_capacity b - 1))) 0 b sk"

text \<open>The buffer \<open>attach_event\<close> makes when the socket has none yet.\<close>

definition read_buf_new :: "bool \<Rightarrow> raw_buf" where
  "read_buf_new is_udp = raw_new (if is_udp then 65535 else 128 * 1024)"

section \<open>What it relies on\<close>

text \<open>
  \<open>incoming\<close> are the bytes the peer sent that have not been read, \<open>got\<close> those the user has been
  handed. A \<open>recvfrom\<close> that returns a count takes that many of the first, at most the capacity;
  \<open>EAGAIN\<close> says that there are none; \<open>\<rho>\<close> bounds the interruptions and the data. The callback adds the buffer's bytes to the second
  and reads nothing itself.
\<close>

definition recv_law ::
  "'k recv_env \<Rightarrow> sock_fd \<Rightarrow> ('k \<Rightarrow> byte list) \<Rightarrow> ('k \<Rightarrow> block) \<Rightarrow> ('k \<Rightarrow> nat) \<Rightarrow> bool" where
  "recv_law R fd incoming got \<rho> \<longleftrightarrow>
     (\<forall>cap k n e d a k'. rcv_recvfrom R (raw_fd fd) cap k = (((n, e), d, a), k') \<longrightarrow>
        got k' = got k \<and>
        ((n = -1 \<and> incoming k' = incoming k \<and> (e = EINTR \<longrightarrow> \<rho> k' < \<rho> k) \<and>
            (get_uv_error e = EAGAIN \<longrightarrow> incoming k = [])) \<or>
         (n = 0 \<and> incoming k' = incoming k) \<or>
         (0 < n \<and> n \<le> cap \<and> length d = nat n \<and> incoming k = d @ incoming k' \<and> \<rho> k' < \<rho> k)))"

definition read_cb_law ::
  "'k recv_env \<Rightarrow> ('k \<Rightarrow> byte list) \<Rightarrow> ('k \<Rightarrow> block) \<Rightarrow> ('k \<Rightarrow> nat) \<Rightarrow> bool" where
  "read_cb_law R incoming got \<rho> \<longleftrightarrow>
     (\<forall>b a sk s. raw_to_string b = Inr s \<longrightarrow>
        (let k = kern_st sk; k' = kern_st (rcv_read_cb R b a sk)
         in got k' = got k @ s \<and> incoming k' = incoming k \<and> \<rho> k' \<le> \<rho> k))"

definition so_error_frame :: "'k sock_env \<Rightarrow> ('k \<Rightarrow> byte list) \<Rightarrow> ('k \<Rightarrow> block) \<Rightarrow> bool" where
  "so_error_frame E incoming got \<longleftrightarrow>
     (\<forall>fd k. incoming (snd (env_so_error E fd k)) = incoming k \<and> got (snd (env_so_error E fd k)) = got k)"

section \<open>Bounds\<close>

lemma fill_ok:
  assumes "raw_ok b" and "length d = nat n" and "0 < n" and "nat n < unat (raw_capacity b)"
  shows "\<exists>b'. fill d n b = Inr b' \<and> raw_ok b' \<and> raw_capacity b' = raw_capacity b \<and>
    raw_to_string b' = Inr (map Some d)"
proof -
  have len: "length (block_of b) = unat (raw_capacity b)"
    using assms(1) by (simp add: raw_ok_def raw_alloc_def)
  obtain m where m: "n = int m" using assms(3) by (metis int_nat_eq less_le)
  have u: "unat (word_of_int n :: u32) = m"
    using assms(4) unat32_lt [of "raw_capacity b"] m
    by (simp add: unat_of_nat take_bit_nat_eq_self)
  define blk where "blk = (map Some d @ drop (length d) (block_of b))[m := Some 0]"
  have blk: "length blk = unat (raw_capacity b)" "take m blk = map Some d"
    using assms(2,4) len m by (simp_all add: blk_def take_update_cancel)
  let ?b = "b\<lparr>raw_data := Some blk, raw_size := word_of_int n\<rparr>"
  have le: "(word_of_int n :: u32) \<le> raw_capacity b"
    using assms(4) m u by (simp add: word_le_nat_alt)
  have "fill d n b = Inr ?b"
    using assms(2,4) len m le by (simp add: fill_def SetSize_def blk_def Let_def not_less)
  moreover have "raw_ok ?b" using blk(1) le by (simp add: raw_ok_def raw_alloc_def block_of_def)
  moreover have "raw_to_string ?b = Inr (map Some d)"
    using blk assms(4) m u by (simp add: raw_to_string_def block_of_def)
  ultimately show ?thesis by (intro exI [of _ ?b]) simp
qed

lemma recv_retry:
  assumes law: "recv_law R fd incoming got \<rho>"
  shows "\<exists>n d a k e. retry_eintr (recv_call R fd cap) (\<lambda>w. err_no (snd (snd w))) (d0, a0, sk) =
      Some (n, d, a, sk\<lparr>kern_st := k, err_no := e\<rparr>) \<and> got k = got (kern_st sk) \<and>
    ((n = -1 \<and> incoming k = incoming (kern_st sk) \<and> (get_uv_error e = EAGAIN \<longrightarrow> incoming k = [])) \<or> (n = 0 \<and> incoming k = incoming (kern_st sk)) \<or>
     (0 < n \<and> n \<le> cap \<and> length d = nat n \<and> incoming (kern_st sk) = d @ incoming k \<and> \<rho> k < \<rho> (kern_st sk)))"
proof (induction "\<rho> (kern_st sk)" arbitrary: sk d0 a0 rule: less_induct)
  case less
  obtain n e d a k where r: "rcv_recvfrom R (raw_fd fd) cap (kern_st sk) = (((n, e), d, a), k)"
    by (metis surj_pair)
  with law have g: "got k = got (kern_st sk)" unfolding recv_law_def by blast
  from r law have c: "(n = -1 \<and> incoming k = incoming (kern_st sk) \<and> (e = EINTR \<longrightarrow> \<rho> k < \<rho> (kern_st sk)) \<and>
        (get_uv_error e = EAGAIN \<longrightarrow> incoming (kern_st sk) = [])) \<or>
      (n = 0 \<and> incoming k = incoming (kern_st sk)) \<or>
      (0 < n \<and> n \<le> cap \<and> length d = nat n \<and> incoming (kern_st sk) = d @ incoming k \<and> \<rho> k < \<rho> (kern_st sk))"
    unfolding recv_law_def by blast
  let ?e = "if n = -1 then e else err_no sk"
  let ?sk = "sk\<lparr>kern_st := k, err_no := ?e\<rparr>"
  have call: "recv_call R fd cap (d0, a0, sk) = (n, d, a, ?sk)" using r by (simp add: recv_call_def)
  show ?case
  proof (cases "n = -1 \<and> e = EINTR")
    case True
    with c have lt: "\<rho> k < \<rho> (kern_st sk)" "incoming k = incoming (kern_st sk)" by auto
    from less [of ?sk d a] lt(1) obtain n' d' a' k' e' where
      i: "retry_eintr (recv_call R fd cap) (\<lambda>w. err_no (snd (snd w))) (d, a, ?sk) =
          Some (n', d', a', ?sk\<lparr>kern_st := k', err_no := e'\<rparr>)" "got k' = got k"
        "(n' = -1 \<and> incoming k' = incoming k \<and> (get_uv_error e' = EAGAIN \<longrightarrow> incoming k' = [])) \<or> (n' = 0 \<and> incoming k' = incoming k) \<or>
         (0 < n' \<and> n' \<le> cap \<and> length d' = nat n' \<and> incoming k = d' @ incoming k' \<and> \<rho> k' < \<rho> k)"
      by (auto simp del: get_uv_error_EAGAIN)
    have "retry_eintr (recv_call R fd cap) (\<lambda>w. err_no (snd (snd w))) (d0, a0, sk) =
        Some (n', d', a', sk\<lparr>kern_st := k', err_no := e'\<rparr>)"
      using call True i(1) by (subst retry_eintr.simps) simp
    moreover have "(n' = -1 \<and> incoming k' = incoming (kern_st sk) \<and> (get_uv_error e' = EAGAIN \<longrightarrow> incoming k' = [])) \<or> (n' = 0 \<and> incoming k' = incoming (kern_st sk)) \<or>
        (0 < n' \<and> n' \<le> cap \<and> length d' = nat n' \<and> incoming (kern_st sk) = d' @ incoming k' \<and> \<rho> k' < \<rho> (kern_st sk))"
      using i(3) lt by (auto simp del: get_uv_error_EAGAIN)
    ultimately show ?thesis using i(2) g by metis
  next
    case False
    then have "retry_eintr (recv_call R fd cap) (\<lambda>w. err_no (snd (snd w))) (d0, a0, sk) = Some (n, d, a, ?sk)"
      using call by (subst retry_eintr.simps) auto
    moreover have "(n = -1 \<and> incoming k = incoming (kern_st sk) \<and> (get_uv_error ?e = EAGAIN \<longrightarrow> incoming k = [])) \<or>
        (n = 0 \<and> incoming k = incoming (kern_st sk)) \<or>
        (0 < n \<and> n \<le> cap \<and> length d = nat n \<and> incoming (kern_st sk) = d @ incoming k \<and> \<rho> k < \<rho> (kern_st sk))"
      using c by auto
    ultimately show ?thesis using g by blast
  qed
qed

text \<open>How the reading of a connection ends: nothing is left, reading is switched off, or it is closed.\<close>

definition read_out :: "bool \<Rightarrow> ('k \<Rightarrow> byte list) \<Rightarrow> 'k socket \<Rightarrow> bool" where
  "read_out is_udp incoming sk \<longleftrightarrow> is_udp \<or> incoming (kern_st sk) = [] \<or> \<not> enable_recv sk \<or> sockfd sk = None"

lemma read_loop_ok:
  assumes law: "recv_law R fd incoming got \<rho>" and cb: "read_cb_law R incoming got \<rho>"
    and frame: "so_error_frame E incoming got"
    and cap: "nat cap < unat (raw_capacity b)"
  shows "raw_ok b \<Longrightarrow> \<exists>ret' b' sk'. read_loop E R is_udp fd cap ret b sk = Some (Inr (ret', b', sk')) \<and>
    raw_ok b' \<and> raw_capacity b' = raw_capacity b \<and>
    got (kern_st sk') @ map Some (incoming (kern_st sk')) = got (kern_st sk) @ map Some (incoming (kern_st sk)) \<and>
    read_out is_udp incoming sk'"
  using cap
proof (induction "\<rho> (kern_st sk)" arbitrary: sk b ret rule: less_induct)
  case less
  show ?case
  proof (cases "enable_recv sk")
    case False
    with less.prems show ?thesis by (subst read_loop.simps) (simp add: read_out_def)
  next
    case True
    obtain n d a k e where r: "retry_eintr (recv_call R fd cap) (\<lambda>w. err_no (snd (snd w))) ([], [], sk) =
        Some (n, d, a, sk\<lparr>kern_st := k, err_no := e\<rparr>)"
      and g: "got k = got (kern_st sk)" and c: "(n = -1 \<and> incoming k = incoming (kern_st sk) \<and> (get_uv_error e = EAGAIN \<longrightarrow> incoming k = [])) \<or>
        (n = 0 \<and> incoming k = incoming (kern_st sk)) \<or>
        (0 < n \<and> n \<le> cap \<and> length d = nat n \<and> incoming (kern_st sk) = d @ incoming k \<and> \<rho> k < \<rho> (kern_st sk))"
      using recv_retry [OF law] by blast
    let ?sk = "sk\<lparr>kern_st := k, err_no := e\<rparr>"
    have emit: "kern_st (snd (emit_error err s)) = kern_st s" for err and s :: "'a socket"
      by (auto simp: emit_error_def Close_def split: option.splits)
    show ?thesis
    proof (cases "0 < n")
      case False
      have "incoming k = incoming (kern_st sk)" "n = 0 \<or> n = -1" using c False by auto
      moreover have "got (kern_st (snd (on_error E fd ?sk))) = got k \<and>
          incoming (kern_st (snd (on_error E fd ?sk))) = incoming k"
      proof -
        obtain r e' v k' where s: "env_so_error E (raw_fd fd) k = ((r, e', v), k')" by (metis surj_pair)
        obtain x y where x: "get_socket_error E True fd ?sk = (x, ?sk\<lparr>kern_st := k', err_no := y\<rparr>)"
          using s by (simp add: get_socket_error_def Let_def)
        have "incoming k' = incoming k \<and> got k' = got k"
          using frame s unfolding so_error_frame_def by (metis snd_conv)
        with x emit show ?thesis by (simp add: on_error_def)
      qed
      moreover have "n = -1 \<Longrightarrow> get_uv_error e = EAGAIN \<Longrightarrow> read_out is_udp incoming ?sk"
        using c by (auto simp: read_out_def)
      moreover have "n = 0 \<Longrightarrow> read_out is_udp incoming (if is_udp then ?sk else snd (emit_error eof_error ?sk))"
        "read_out is_udp incoming (snd (on_error E fd ?sk))"
        by (auto simp: read_out_def emit_error_lists on_error_lists)
      ultimately show ?thesis
        using True less.prems r emit [of eof_error ?sk] g by (subst read_loop.simps) (auto simp del: get_uv_error_EAGAIN)
    next
      case n: True
      then have c': "n \<le> cap" "length d = nat n" "incoming (kern_st sk) = d @ incoming k" "\<rho> k < \<rho> (kern_st sk)"
        using c by auto
      obtain b1 where b1: "fill d n b = Inr b1" "raw_ok b1" "raw_capacity b1 = raw_capacity b"
        "raw_to_string b1 = Inr (map Some d)"
      proof -
        have "nat n < unat (raw_capacity b)" using c'(1) less.prems(2) n by linarith
        from fill_ok [OF less.prems(1) c'(2) n this] show ?thesis using that by blast
      qed
      define sk2 where "sk2 = rcv_read_cb R b1 a ?sk"
      have "got (kern_st sk2) = got (kern_st ?sk) @ map Some d \<and> incoming (kern_st sk2) = incoming (kern_st ?sk) \<and>
          \<rho> (kern_st sk2) \<le> \<rho> (kern_st ?sk)"
        using cb b1(4) unfolding read_cb_law_def sk2_def Let_def by blast
      then have sk2: "got (kern_st sk2) = got (kern_st sk) @ map Some d" "incoming (kern_st sk2) = incoming k"
        "\<rho> (kern_st sk2) \<le> \<rho> k" using g by simp_all
      have step: "read_loop E R is_udp fd cap ret b sk = read_loop E R is_udp fd cap (ret + n) b1 sk2"
        using True r b1(1) n by (subst read_loop.simps) (simp add: sk2_def)
      have "\<exists>ret' b' sk'. read_loop E R is_udp fd cap (ret + n) b1 sk2 = Some (Inr (ret', b', sk')) \<and>
          raw_ok b' \<and> raw_capacity b' = raw_capacity b1 \<and>
          got (kern_st sk') @ map Some (incoming (kern_st sk')) = got (kern_st sk2) @ map Some (incoming (kern_st sk2)) \<and>
          read_out is_udp incoming sk'"
        by (rule less.hyps) (use sk2(3) c'(4) b1 less.prems in auto)
      with step b1(3) sk2 c'(3) show ?thesis by auto
    qed
  qed
qed

lemma on_read_ok:
  assumes "recv_law R fd incoming got \<rho>" and "read_cb_law R incoming got \<rho>"
    and "so_error_frame E incoming got" and "raw_ok b" and "raw_capacity b \<noteq> 0"
  shows "\<exists>ret b' sk'. on_read E R is_udp fd b sk = Some (Inr (ret, b', sk')) \<and> raw_ok b' \<and>
    raw_capacity b' = raw_capacity b \<and>
    got (kern_st sk') @ map Some (incoming (kern_st sk')) = got (kern_st sk) @ map Some (incoming (kern_st sk)) \<and>
    read_out is_udp incoming sk'"
proof -
  have u: "unat (raw_capacity b - 1) < unat (raw_capacity b)"
    using assms(5) by (simp add: unat_minus_one unat_gt_0)
  have "nat (int32 (uint (raw_capacity b - 1))) < unat (raw_capacity b)"
  proof (cases "unat (raw_capacity b - 1) < 2 ^ 31")
    case True
    then have "int32 (uint (raw_capacity b - 1)) = int (unat (raw_capacity b - 1))"
      using int32_of_nat [of "unat (raw_capacity b - 1)"] by simp
    with u show ?thesis by simp
  next
    case False
    define x where "x = int32 (uint (raw_capacity b - 1))"
    have "x < 2 ^ 31" using int32_range by (simp add: x_def)
    then have "nat x < 2 ^ 31" by (cases "0 \<le> x") (simp_all add: nat_less_iff)
    with False u show ?thesis unfolding x_def by (meson not_less order.strict_trans order.strict_trans2)
  qed
  from read_loop_ok [OF assms(1-3) this assms(4)] show ?thesis by (simp add: on_read_def)
qed

section \<open>Properties\<close>

text \<open>
  Property C4. \<open>on_read\<close> is memory safe and loses nothing: with a buffer of any capacity above 0 it
  returns, the terminating zero and the size stay inside the block (no bound is violated and
  \<open>SetSize\<close> does not throw), and the bytes handed to the user, in pieces of at most the capacity
  less one, followed by what is still unread, are what was there before - whatever the callback
  does to the socket. On a connection it stops only when nothing is left to read, when an error, the
  end of the file or the callback has closed the socket, or when receiving is switched off.
\<close>

theorem on_read_exact:
  assumes "recv_law R fd incoming got \<rho>" and "read_cb_law R incoming got \<rho>"
    and "so_error_frame E incoming got" and "raw_ok b" and "raw_capacity b \<noteq> 0"
  shows "\<exists>ret b' sk'. on_read E R is_udp fd b sk = Some (Inr (ret, b', sk')) \<and> raw_ok b' \<and>
    raw_capacity b' = raw_capacity b \<and>
    got (kern_st sk') @ map Some (incoming (kern_st sk')) = got (kern_st sk) @ map Some (incoming (kern_st sk)) \<and>
    (is_udp \<or> incoming (kern_st sk') = [] \<or> \<not> enable_recv sk' \<or> sockfd sk' = None)"
  using on_read_ok [OF assms] unfolding read_out_def .

definition demo_recv :: "(byte list \<times> block) recv_env" where
  "demo_recv = \<lparr>rcv_recvfrom = (\<lambda>fd cap (inp, log).
       if inp = [] then (((-1, EAGAIN), [], []), (inp, log))
       else if cap \<le> 0 then (((0, 0), [], []), (inp, log))
       else let m = min (nat cap) (length inp) in (((int m, 0), take m inp, []), (drop m inp, log))),
     rcv_read_cb = (\<lambda>b a sk. case raw_to_string b of Inl _ \<Rightarrow> sk
       | Inr s \<Rightarrow> sk\<lparr>kern_st := (fst (kern_st sk), snd (kern_st sk) @ s)\<rparr>)\<rparr>"

definition demo_recv_env :: "(byte list \<times> block) sock_env" where
  "demo_recv_env = \<lparr>env_sendmsg = (\<lambda>k fd msg. ((-1, EAGAIN), k)), env_so_error = (\<lambda>fd k. ((0, 0, 0), k)),
     env_closed = (\<lambda>_. False), env_modify = (\<lambda>fd m k. k), env_flushed = (\<lambda>c sk. (False, sk)),
     env_strerror = (\<lambda>_. ''error'')\<rparr>"

definition demo_recv_sock :: "(byte list \<times> block) socket" where
  "demo_recv_sock = \<lparr>sockfd = Some demo_fd, timer = False, connecting = False, send_buf_sending = [],
     send_buf_waiting = [], sending = True, enable_recv = True, flushed_cb = None, socket_flags = 0,
     reported = [], err_no = 0, kern_st = ([1, 2, 3], [])\<rparr>"

lemma demo_recv_laws:
  "recv_law demo_recv fd fst snd (\<lambda>k. length (fst k))" "read_cb_law demo_recv fst snd (\<lambda>k. length (fst k))"
  "so_error_frame demo_recv_env fst snd"
  by (auto simp: recv_law_def read_cb_law_def so_error_frame_def demo_recv_def demo_recv_env_def Let_def
      split: if_splits)

lemma on_read_exact_witness:
  "\<exists>ret b' sk'. on_read demo_recv_env demo_recv False demo_fd (raw_new 3) demo_recv_sock =
     Some (Inr (ret, b', sk')) \<and> snd (kern_st sk') @ map Some (fst (kern_st sk')) = [Some 1, Some 2, Some 3]"
proof -
  have "raw_capacity (raw_new 3) \<noteq> 0" by (simp add: raw_new_def SetCapacity_def)
  from on_read_exact [OF demo_recv_laws raw_new_ok this, where fd = demo_fd and is_udp = False and sk = demo_recv_sock] show ?thesis
    by (auto simp: demo_recv_sock_def)
qed

end
