(* ===== verification/SocketEvents.thy ===== *)
theory SocketEvents
  imports SocketRead SocketUtilsProps
begin

text \<open>
  \<^verbatim>\<open>net/socket.cpp\<close>: the two callbacks that a socket registers with the poller - that of
  \<open>attach_event\<close>, which reads, writes and reports errors, and \<open>on_accept\<close> of a listening socket -
  and the setters and getters of a socket.
\<close>

section \<open>The callback of attach\_event\<close>

text \<open>
  \<open>alive\<close>: the weak references to the socket and to the descriptor object could be locked. After a
  read that has closed the socket nothing else is done.
\<close>

definition attach_cb ::
  "'k sock_env \<Rightarrow> 'k recv_env \<Rightarrow> bool \<Rightarrow> bool \<Rightarrow> sock_fd \<Rightarrow> u32 \<Rightarrow> raw_buf \<Rightarrow> 'k socket \<Rightarrow>
   (buf_error + (raw_buf \<times> 'k socket)) option" where
  "attach_cb E R is_udp alive fd event b sk =
     (if \<not> alive then Some (Inr (b, sk))
      else
        (if has event PE_READ then on_read E R is_udp fd b sk else Some (Inr (0, b, sk))) \<bind>
          (\<lambda>r. case r of
             Inl x \<Rightarrow> Some (Inl x)
           | Inr (_, b1, sk1) \<Rightarrow>
               (if sockfd sk1 \<noteq> None \<and> has event PE_WRITE then on_writeable E fd sk1 else Some sk1) \<bind>
                 (\<lambda>sk2. Some (Inr (b1,
                    if sockfd sk2 \<noteq> None \<and> has event PE_ERROR then snd (on_error E fd sk2) else sk2)))))"

text \<open>
  \<open>attach_event\<close> itself: the read buffer is made once, whatever the type of a later descriptor, and
  the callback is registered with \<open>add\<close>, the poller's \<open>AddEvent\<close>.
\<close>

definition attach_event ::
  "(int \<Rightarrow> u32 \<Rightarrow> 'k \<Rightarrow> int \<times> 'k) \<Rightarrow> sock_fd \<Rightarrow> bool \<Rightarrow> raw_buf option \<Rightarrow> 'k socket \<Rightarrow>
   bool \<times> raw_buf option \<times> 'k socket" where
  "attach_event add fd is_udp buf sk =
     (let buf' = (case buf of Some b \<Rightarrow> Some b | None \<Rightarrow> Some (read_buf_new is_udp));
          (r, k) = add (raw_fd fd) (PE_READ OR PE_WRITE OR PE_ERROR) (kern_st sk)
      in (r \<noteq> -1, buf', sk\<lparr>kern_st := k\<rparr>))"

section \<open>Setters and getters\<close>

definition SetOnFlushed :: "nat option \<Rightarrow> 'k socket \<Rightarrow> 'k socket" where
  "SetOnFlushed cb sk = sk\<lparr>flushed_cb := cb\<rparr>"

definition SetOnRead ::
  "(raw_buf \<Rightarrow> byte list \<Rightarrow> 'k socket \<Rightarrow> 'k socket) option \<Rightarrow> 'k recv_env \<Rightarrow> 'k recv_env" where
  "SetOnRead cb R = R\<lparr>rcv_read_cb := (case cb of Some f \<Rightarrow> f | None \<Rightarrow> (\<lambda>b a sk. sk))\<rparr>"

definition IsConnected :: "'k socket \<Rightarrow> bool" where
  "IsConnected sk = (case sockfd sk of None \<Rightarrow> False | Some fd \<Rightarrow> fd_connected fd)"

definition sock_local_ip :: "'k net_env \<Rightarrow> 'k socket \<Rightarrow> ('k, string) state" where
  "sock_local_ip N sk = (case sockfd sk of None \<Rightarrow> ret '''' | Some fd \<Rightarrow> GetLocalIP N (raw_fd fd))"

definition sock_peer_ip :: "'k net_env \<Rightarrow> 'k socket \<Rightarrow> ('k, string) state" where
  "sock_peer_ip N sk = (case sockfd sk of None \<Rightarrow> ret '''' | Some fd \<Rightarrow> GetPeerIP N (raw_fd fd))"

definition sock_local_port :: "'k net_env \<Rightarrow> 'k socket \<Rightarrow> ('k, u16) state" where
  "sock_local_port N sk = (case sockfd sk of None \<Rightarrow> ret 0 | Some fd \<Rightarrow> GetLocalPort N (raw_fd fd))"

definition sock_peer_port :: "'k net_env \<Rightarrow> 'k socket \<Rightarrow> ('k, u16) state" where
  "sock_peer_port N sk = (case sockfd sk of None \<Rightarrow> ret 0 | Some fd \<Rightarrow> GetPeerPort N (raw_fd fd))"

section \<open>Accepting connections\<close>

text \<open>
  What a listening socket uses: \<open>accept\<close> (the descriptor, or -1 and an \<open>errno\<close>), the setters of
  \<open>SocketUtils\<close>, the user's callback - which is given the descriptor of the new socket and may do
  anything to the listening one - and the registration of the new socket.
\<close>

record 'k accept_env =
  acc_accept :: "int \<Rightarrow> 'k \<Rightarrow> (int \<times> errno) \<times> 'k"
  acc_net :: "'k net_env"
  acc_cb :: "int \<Rightarrow> 'k socket \<Rightarrow> 'k socket"
  acc_attach :: "int \<Rightarrow> 'k \<Rightarrow> int \<times> 'k"

definition SetOnAccept :: "(int \<Rightarrow> 'k socket \<Rightarrow> 'k socket) option \<Rightarrow> 'k accept_env \<Rightarrow> 'k accept_env" where
  "SetOnAccept cb A = A\<lparr>acc_cb := (case cb of Some f \<Rightarrow> f | None \<Rightarrow> (\<lambda>fd sk. sk))\<rparr>"

definition accept_call :: "'k accept_env \<Rightarrow> sock_fd \<Rightarrow> 'k socket \<Rightarrow> int \<times> 'k socket" where
  "accept_call A fd sk =
     (case acc_accept A (raw_fd fd) (kern_st sk) of ((n, e), k) \<Rightarrow>
        (n, sk\<lparr>kern_st := k, err_no := (if n = -1 then e else err_no sk)\<rparr>))"

definition prepare_peer :: "'k net_env \<Rightarrow> int \<Rightarrow> ('k, unit) state" where
  "prepare_peer N fd = do {
     _ \<leftarrow> SetNoBlocked N fd True;
     _ \<leftarrow> SetNoDelay N fd True;
     _ \<leftarrow> SetRecvBuf N fd (256 * 1024);
     _ \<leftarrow> SetSendBuf N fd (256 * 1024);
     _ \<leftarrow> SetCloseWait N fd 0;
     _ \<leftarrow> SetCloExec N fd True;
     ret () }"

text \<open>
  One accepted connection. The new socket is closed with an error when it cannot be registered; the
  list says which descriptors were accepted, and whether they were registered.
\<close>

definition accept_one ::
  "'k accept_env \<Rightarrow> int \<Rightarrow> 'k socket \<times> (int \<times> bool) list \<Rightarrow> 'k socket \<times> (int \<times> bool) list" where
  "accept_one A n s =
     (let sk1 = (fst s)\<lparr>kern_st := snd (run_state (prepare_peer (acc_net A) n) (kern_st (fst s)))\<rparr>;
          sk2 = acc_cb A n sk1;
          (r, k) = acc_attach A n (kern_st sk2)
      in (sk2\<lparr>kern_st := k\<rparr>, snd s @ [(n, r \<noteq> -1)]))"

partial_function (option) on_accept ::
  "'k sock_env \<Rightarrow> 'k accept_env \<Rightarrow> sock_fd \<Rightarrow> u32 \<Rightarrow> 'k socket \<times> (int \<times> bool) list \<Rightarrow>
   (int \<times> 'k socket \<times> (int \<times> bool) list) option" where
  "on_accept E A fd event s =
     (if has event PE_READ then
        retry_eintr (accept_call A fd) err_no (fst s) \<bind>
          (\<lambda>(n, sk1).
             if n = -1 then
               (if get_uv_error (err_no sk1) = EAGAIN then Some (0, sk1, snd s)
                else Some (-1, snd (on_error E fd sk1), snd s))
             else
               (let s2 = accept_one A n (sk1, snd s)
                in if has event PE_ERROR then Some (-1, snd (on_error E fd (fst s2)), snd s2)
                   else on_accept E A fd event s2))
      else if has event PE_ERROR then Some (-1, snd (on_error E fd (fst s)), snd s)
      else on_accept E A fd event s)"

section \<open>Reading, as the socket sees it\<close>

text \<open>
  A predicate on the socket that no \<open>recvfrom\<close> can break and that the user's callback keeps holds
  until the loop ends, with a last error or without.
\<close>

lemma recv_retry_keeps:
  assumes "retry_eintr (recv_call R fd cap) f (d, a, sk) = Some (n, d', a', sk')" and "P sk"
    and sys: "\<And>sk c x d a k e. P sk \<Longrightarrow> rcv_recvfrom R (raw_fd fd) c (kern_st sk) = ((x, d, a), k) \<Longrightarrow>
      P (sk\<lparr>kern_st := k, err_no := e\<rparr>)"
  shows "P sk'"
proof -
  have start: "P (snd (snd (d, a, sk)))" using assms(2) by simp
  have step: "P (snd (snd w'))" if "P (snd (snd w))" "recv_call R fd cap w = (r, w')" for w r w'
    using that sys by (fastforce simp: recv_call_def split: prod.splits)
  from retry_eintr_result [where I = "\<lambda>w. P (snd (snd w))", OF assms(1) start] step
  show ?thesis by fastforce
qed

lemma read_loop_keeps:
  assumes "read_loop E R is_udp fd cap nr b sk = Some (Inr y)" and "P sk"
    and sys: "\<And>sk c x d a k e. P sk \<Longrightarrow> rcv_recvfrom R (raw_fd fd) c (kern_st sk) = ((x, d, a), k) \<Longrightarrow>
      P (sk\<lparr>kern_st := k, err_no := e\<rparr>)"
    and cb: "\<And>b a sk. P sk \<Longrightarrow> P (rcv_read_cb R b a sk)"
  shows "\<exists>sk1. P sk1 \<and> snd (snd y) \<in> {sk1, snd (emit_error eof_error sk1), snd (on_error E fd sk1)}"
proof -
  let ?fin = "\<lambda>y. \<exists>sk1. P sk1 \<and> snd (snd y) \<in> {sk1, snd (emit_error eof_error sk1), snd (on_error E fd sk1)}"
  have "R = R \<and> E = E \<and> fd = fd \<longrightarrow> P sk \<longrightarrow> (\<forall>y'. (Inr y :: buf_error + _) = Inr y' \<longrightarrow> ?fin y')"
  proof (rule read_loop.raw_induct [where P = "\<lambda>E' R' is_udp fd' cap nr b sk z.
      R' = R \<and> E' = E \<and> fd' = fd \<longrightarrow> P sk \<longrightarrow> (\<forall>y'. z = Inr y' \<longrightarrow> ?fin y')", OF _ assms(1)], intro impI allI)
    fix self E' R' is_udp fd' cap nr b sk z y'
    assume IH: "\<And>E' R' is_udp fd' cap nr b sk z. self E' R' is_udp fd' cap nr b sk = Some z \<Longrightarrow>
        R' = R \<and> E' = E \<and> fd' = fd \<longrightarrow> P sk \<longrightarrow> (\<forall>y'. z = Inr y' \<longrightarrow> ?fin y')"
      and body: "(if \<not> enable_recv sk then Some (Inr (0, b, sk))
      else
        retry_eintr (recv_call R' fd' cap) (\<lambda>w. err_no (snd (snd w))) ([], [], sk) \<bind>
          (\<lambda>(nread, d, a, sk1).
             if nread = 0
             then Some (Inr (nr, b, if is_udp then sk1 else snd (emit_error eof_error sk1)))
             else if nread = -1
             then Some (Inr (nr, b,
               if get_uv_error (err_no sk1) \<noteq> EAGAIN then snd (on_error E' fd' sk1) else sk1))
             else (case fill d nread b of
                     Inl x \<Rightarrow> Some (Inl x)
                   | Inr b1 \<Rightarrow> self E' R' is_udp fd' cap (nr + nread) b1 (rcv_read_cb R' b1 a sk1)))) = Some z"
      and eq: "R' = R \<and> E' = E \<and> fd' = fd" and P: "P sk" and z: "z = Inr y'"
    show "?fin y'"
    proof (cases "enable_recv sk")
      case False
      with body z P show ?thesis by auto
    next
      case True
      with body eq z obtain n d a sk1 where
        r: "retry_eintr (recv_call R fd cap) (\<lambda>w. err_no (snd (snd w))) ([], [], sk) = Some (n, d, a, sk1)"
        and c: "(if n = 0
             then Some (Inr (nr, b, if is_udp then sk1 else snd (emit_error eof_error sk1)))
             else if n = -1
             then Some (Inr (nr, b,
               if get_uv_error (err_no sk1) \<noteq> EAGAIN then snd (on_error E fd sk1) else sk1))
             else (case fill d n b of
                     Inl x \<Rightarrow> Some (Inl x)
                   | Inr b1 \<Rightarrow> self E R is_udp fd cap (nr + n) b1 (rcv_read_cb R b1 a sk1))) = Some (Inr y')"
        by (auto split: prod.splits)
      have P1: "P sk1" using recv_retry_keeps [where P = P, OF r P] sys by blast
      show ?thesis
      proof (cases "n = 0 \<or> n = -1")
        case True
        with c P1 show ?thesis by (auto split: if_splits)
      next
        case False
        with c IH [of E R is_udp fd cap _ _ _ "Inr y'"] cb [OF P1] show ?thesis
          by (auto split: sum.splits)
      qed
    qed
  qed
  with assms(2) show ?thesis by blast
qed

section \<open>Errors are reported once\<close>

text \<open>
  The user's callbacks may close the socket, but they do not open it again before they return, and
  they cannot reach the lists of packets or the queue of errors.
\<close>

definition cb_keeps :: "'k sock_env \<Rightarrow> 'k recv_env \<Rightarrow> bool" where
  "cb_keeps E R \<longleftrightarrow>
     (\<forall>c sk. reported (snd (env_flushed E c sk)) = reported sk \<and>
        sockfd (snd (env_flushed E c sk)) \<in> {sockfd sk, None}) \<and>
     (\<forall>b a sk. reported (rcv_read_cb R b a sk) = reported sk \<and>
        sockfd (rcv_read_cb R b a sk) \<in> {sockfd sk, None} \<and>
        send_buf_sending (rcv_read_cb R b a sk) = send_buf_sending sk \<and>
        send_buf_waiting (rcv_read_cb R b a sk) = send_buf_waiting sk)"

text \<open>Nothing has been reported beyond \<open>errs\<close>, or one error, and the socket is closed.\<close>

definition one_report :: "sock_exception list \<Rightarrow> 'k socket \<Rightarrow> bool" where
  "one_report errs sk \<longleftrightarrow>
     reported sk = errs \<or> (\<exists>err. reported sk = errs @ [err]) \<and> sockfd sk = None"

lemma emit_error_report: "one_report errs sk \<Longrightarrow> one_report errs (snd (emit_error err sk))"
  by (cases "sockfd sk") (auto simp: one_report_def emit_error_def Close_def)

lemma on_error_report: "one_report errs sk \<Longrightarrow> one_report errs (snd (on_error E fd sk))"
proof -
  assume o: "one_report errs sk"
  obtain err sk1 where g: "get_socket_error E True fd sk = (err, sk1)" by fastforce
  then have "reported sk1 = reported sk" "sockfd sk1 = sockfd sk"
    by (auto simp: get_socket_error_def Let_def split: prod.splits)
  with o have "one_report errs sk1" by (simp add: one_report_def)
  with g show ?thesis by (simp add: on_error_def emit_error_report)
qed

lemma send_batches_report:
  "send_batches E fd tmp sk = Some (r, tmp', sk') \<Longrightarrow> reported sk' = reported sk \<and> sockfd sk' = sockfd sk"
proof (induction tmp arbitrary: sk)
  case (Cons pkt tmp)
  then obtain n pkt' e k where
    "bl_send (env_sendmsg E) (raw_fd fd) (socket_flags sk) (fd_type fd = SOCK_UDP) pkt (err_no sk) (kern_st sk) =
       Some (n, pkt', e, k)" by auto
  with Cons.IH [of "sk\<lparr>err_no := e, kern_st := k\<rparr>"] Cons.prems show ?case
    by (auto simp: Let_def split: if_splits)
qed simp

lemma on_flushed_report:
  assumes "cb_keeps E R" and "one_report errs sk"
  shows "one_report errs (on_flushed E sk)"
proof (cases "flushed_cb sk")
  case (Some c)
  obtain f sk1 where c: "env_flushed E c sk = (f, sk1)" by fastforce
  have "reported sk1 = reported sk" "sockfd sk1 \<in> {sockfd sk, None}"
    using assms(1) c unfolding cb_keeps_def by (metis snd_conv)+
  with assms(2) Some c show ?thesis by (auto simp: on_flushed_def one_report_def)
qed (use assms in \<open>simp add: on_flushed_def\<close>)

interpretation reports: flush_keeps E fd "\<lambda>sk. cb_keeps E R \<and> one_report errs sk"
    "\<lambda>tmp sk. cb_keeps E R \<and> one_report errs sk" for E :: "'k sock_env" and fd R errs
proof unfold_locales
  fix sk :: "'k socket"
  assume "cb_keeps E R \<and> one_report errs sk"
  then show "cb_keeps E R \<and> one_report errs (on_flushed E (stop_writeable_event E fd sk))"
    using on_flushed_report [of E R errs "stop_writeable_event E fd sk"]
    by (simp add: one_report_def stop_writeable_event_def)
next
  fix tmp r tmp' and sk sk' :: "'k socket"
  assume "cb_keeps E R \<and> one_report errs sk" and "send_batches E fd tmp sk = Some (r, tmp', sk')"
  then show "cb_keeps E R \<and> one_report errs sk'"
    using send_batches_report by (fastforce simp: one_report_def)
qed (auto simp: on_error_report, auto simp: one_report_def)

lemmas lists_error = emit_error_lists [THEN conjunct1] emit_error_lists [THEN conjunct2, THEN conjunct1]
  on_error_lists [THEN conjunct1] on_error_lists [THEN conjunct2, THEN conjunct1]

text \<open>A read reports at most one error, after which the socket is closed, and keeps the lists.\<close>

lemma on_read_report:
  assumes "on_read E R is_udp fd b sk = Some (Inr (nr, b', sk'))" and "cb_keeps E R"
  shows "one_report (reported sk) sk' \<and> (sock_good sk \<longrightarrow> sock_good sk')"
proof -
  let ?P = "\<lambda>v. reported v = reported sk \<and> send_buf_sending v = send_buf_sending sk \<and>
    send_buf_waiting v = send_buf_waiting sk"
  have "\<exists>sk1. ?P sk1 \<and> snd (snd (nr, b', sk')) \<in>
      {sk1, snd (emit_error eof_error sk1), snd (on_error E fd sk1)}"
    by (rule read_loop_keeps [OF assms(1) [unfolded on_read_def], where P = ?P])
      (use assms(2) in \<open>auto simp: cb_keeps_def\<close>)
  then obtain sk1 where s: "?P sk1" "sk' \<in> {sk1, snd (emit_error eof_error sk1), snd (on_error E fd sk1)}"
    by auto
  then have "one_report (reported sk) sk1" by (simp add: one_report_def)
  with s(2) have "one_report (reported sk) sk'"
    using emit_error_report [of "reported sk" sk1 eof_error] on_error_report [of "reported sk" sk1 E fd]
    by blast
  moreover have "send_buf_sending sk' = send_buf_sending sk \<and> send_buf_waiting sk' = send_buf_waiting sk"
    using s by (auto simp: lists_error)
  ultimately show ?thesis by (simp add: sock_good_def)
qed

text \<open>How the sending ends: nothing is left, the system takes no more, the poller has ended, or it is closed.\<close>

definition sent_out :: "'k sock_env \<Rightarrow> sock_fd \<Rightarrow> 'k socket \<Rightarrow> bool" where
  "sent_out E fd sk \<longleftrightarrow> unsent sk = [] \<or> refused (env_sendmsg E) (raw_fd fd) (kern_st sk) \<or>
     env_closed E (kern_st sk) \<or> sockfd sk = None"

lemma on_writeable_report:
  assumes "stream_ok E fd wire \<mu>" and "cb_keeps E R" and "sock_good sk"
  shows "\<exists>sk'. on_writeable E fd sk = Some sk' \<and> sock_good sk' \<and>
    (one_report errs sk \<longrightarrow> one_report errs sk') \<and> sent_out E fd sk'"
proof (cases "send_buf_sending sk = [] \<and> send_buf_waiting sk = []")
  case True
  with assms(3) show ?thesis
    by (simp add: on_writeable_def stop_writeable_event_def sock_good_def one_report_def sent_out_def unsent_def)
next
  case False
  from assms(1) have l: "kernel_ok (env_sendmsg E) (raw_fd fd) wire stream_valid stream_deliver"
    "eintr_bounded (env_sendmsg E) (raw_fd fd) \<mu>" "fd_type fd = SOCK_TCP" "env_ok E wire"
    by (simp_all add: stream_ok_def)
  from flush_stream [OF l assms(3)] obtain b sk' where f: "flush_data E fd sk = Some (b, sk')"
    "flush_result E fd wire unsent sock_good sk b sk'" by blast
  from f(2) have g: "sock_good sk'" "sent_out E fd sk'" by (auto simp: flush_result_def sent_out_def split: if_splits)
  from reports.flush [OF f(1), of R errs] assms(2) have "one_report errs sk \<longrightarrow> one_report errs sk'" by simp
  with False f(1) g show ?thesis by (auto simp: on_writeable_def)
qed

section \<open>Accepting\<close>

text \<open>
  \<open>backlog\<close> are the descriptors of the connections that wait, or arrive while the loop runs.
  \<open>accept\<close> takes the first of them; it says \<open>EAGAIN\<close> only when there is none, and \<open>\<rho>\<close> bounds the
  interruptions. No other call takes from the backlog.
\<close>

definition accept_law ::
  "'k sock_env \<Rightarrow> 'k accept_env \<Rightarrow> sock_fd \<Rightarrow> ('k \<Rightarrow> int list) \<Rightarrow> ('k \<Rightarrow> nat) \<Rightarrow> bool" where
  "accept_law E A fd backlog \<rho> \<longleftrightarrow>
     (\<forall>k n e k'. acc_accept A (raw_fd fd) k = ((n, e), k') \<longrightarrow>
        (n \<noteq> -1 \<and> backlog k = n # backlog k') \<or>
        (n = -1 \<and> backlog k' = backlog k \<and> (e = EINTR \<longrightarrow> \<rho> k' < \<rho> k) \<and>
         (get_uv_error e = EAGAIN \<longrightarrow> backlog k = []))) \<and>
     (\<forall>n k. backlog (snd (run_state (prepare_peer (acc_net A) n) k)) = backlog k) \<and>
     (\<forall>n sk. backlog (kern_st (acc_cb A n sk)) = backlog (kern_st sk)) \<and>
     (\<forall>n k r k'. acc_attach A n k = (r, k') \<longrightarrow> backlog k' = backlog k) \<and>
     (\<forall>a k x k'. env_so_error E a k = (x, k') \<longrightarrow> backlog k' = backlog k)"

lemma accept_retry:
  assumes law: "accept_law E A fd backlog \<rho>"
  shows "\<exists>n sk'. retry_eintr (accept_call A fd) err_no sk = Some (n, sk') \<and>
    ((n \<noteq> -1 \<and> backlog (kern_st sk) = n # backlog (kern_st sk')) \<or>
     (n = -1 \<and> backlog (kern_st sk') = backlog (kern_st sk) \<and>
      (get_uv_error (err_no sk') = EAGAIN \<longrightarrow> backlog (kern_st sk) = [])))"
proof (induction "\<rho> (kern_st sk)" arbitrary: sk rule: less_induct)
  case less
  obtain n e k where a: "acc_accept A (raw_fd fd) (kern_st sk) = ((n, e), k)" by (metis surj_pair)
  from a law have c: "(n \<noteq> -1 \<and> backlog (kern_st sk) = n # backlog k) \<or>
      (n = -1 \<and> backlog k = backlog (kern_st sk) \<and> (e = EINTR \<longrightarrow> \<rho> k < \<rho> (kern_st sk)) \<and>
       (get_uv_error e = EAGAIN \<longrightarrow> backlog (kern_st sk) = []))"
    unfolding accept_law_def by blast
  let ?sk = "sk\<lparr>kern_st := k, err_no := (if n = -1 then e else err_no sk)\<rparr>"
  have call: "accept_call A fd sk = (n, ?sk)" using a by (simp add: accept_call_def)
  show ?case
  proof (cases "n = -1 \<and> get_uv_error e = EINTR")
    case True
    then have "e = EINTR" by (auto simp: get_uv_error_def uv_translate_posix_error_def split: if_splits)
    with c True have lt: "\<rho> (kern_st ?sk) < \<rho> (kern_st sk)" "backlog k = backlog (kern_st sk)" by auto
    have "retry_eintr (accept_call A fd) err_no sk = retry_eintr (accept_call A fd) err_no ?sk"
      using call True by (subst retry_eintr.simps) simp
    with less [OF lt(1)] lt(2) show ?thesis by simp
  next
    case False
    then have "retry_eintr (accept_call A fd) err_no sk = Some (n, ?sk)"
      using call by (subst retry_eintr.simps) auto
    with c show ?thesis by (intro exI [of _ n] exI [of _ ?sk]) auto
  qed
qed

lemma on_error_backlog:
  assumes "accept_law E A fd backlog \<rho>"
  shows "backlog (kern_st (snd (on_error E fd sk))) = backlog (kern_st sk) \<and> sockfd (snd (on_error E fd sk)) = None"
proof -
  obtain x k where x: "env_so_error E (raw_fd fd) (kern_st sk) = (x, k)" by fastforce
  then have "backlog k = backlog (kern_st sk)" using assms unfolding accept_law_def by blast
  with x show ?thesis using on_error_lists [of E fd sk] by simp
qed

lemma accept_one_fields:
  assumes "accept_law E A fd backlog \<rho>"
  shows "backlog (kern_st (fst (accept_one A n s))) = backlog (kern_st (fst s)) \<and>
    (\<exists>ok. snd (accept_one A n s) = snd s @ [(n, ok)])"
proof -
  define sk2 where "sk2 = acc_cb A n ((fst s)\<lparr>kern_st :=
      snd (run_state (prepare_peer (acc_net A) n) (kern_st (fst s)))\<rparr>)"
  obtain r k where a: "acc_attach A n (kern_st sk2) = (r, k)" by fastforce
  have "backlog k = backlog (kern_st sk2)" "backlog (kern_st sk2) = backlog (kern_st (fst s))"
    using assms a unfolding accept_law_def sk2_def by auto
  with a show ?thesis by (simp add: accept_one_def Let_def sk2_def)
qed

lemma on_accept_all:
  assumes law: "accept_law E A fd backlog \<rho>" and ev: "has event PE_READ" "\<not> has event PE_ERROR"
  shows "\<exists>r sk' peers. on_accept E A fd event (sk, ps) = Some (r, sk', ps @ peers) \<and>
    backlog (kern_st sk) = map fst peers @ backlog (kern_st sk') \<and>
    ((r = 0 \<and> backlog (kern_st sk') = []) \<or> (r = -1 \<and> sockfd sk' = None))"
proof (induction "length (backlog (kern_st sk))" arbitrary: sk ps rule: less_induct)
  case less
  from accept_retry [OF law, of sk] obtain n sk1 where
    a: "retry_eintr (accept_call A fd) err_no sk = Some (n, sk1)" and
    c: "(n \<noteq> -1 \<and> backlog (kern_st sk) = n # backlog (kern_st sk1)) \<or>
     (n = -1 \<and> backlog (kern_st sk1) = backlog (kern_st sk) \<and>
      (get_uv_error (err_no sk1) = EAGAIN \<longrightarrow> backlog (kern_st sk) = []))"
    by blast
  show ?case
  proof (cases "n = -1")
    case True
    with a c ev on_error_backlog [OF law, of sk1] show ?thesis
      by (subst on_accept.simps) (intro exI [of _ "if get_uv_error (err_no sk1) = EAGAIN then 0 else -1"]
        exI [of _ "if get_uv_error (err_no sk1) = EAGAIN then sk1 else snd (on_error E fd sk1)"]
        exI [of _ "[]"], auto)
  next
    case False
    then have b: "backlog (kern_st sk) = n # backlog (kern_st sk1)" using c by auto
    from accept_one_fields [OF law, of n "(sk1, ps)"] obtain sk2 ok where
      o: "accept_one A n (sk1, ps) = (sk2, ps @ [(n, ok)])" "backlog (kern_st sk2) = backlog (kern_st sk1)"
      by (cases "accept_one A n (sk1, ps)") auto
    have step: "on_accept E A fd event (sk, ps) = on_accept E A fd event (sk2, ps @ [(n, ok)])"
      using a False ev o(1) by (subst on_accept.simps) (simp add: Let_def)
    have "length (backlog (kern_st sk2)) < length (backlog (kern_st sk))" using b o(2) by simp
    from less [OF this, of "ps @ [(n, ok)]"] obtain r sk' peers where
      i: "on_accept E A fd event (sk2, ps @ [(n, ok)]) = Some (r, sk', (ps @ [(n, ok)]) @ peers)"
        "backlog (kern_st sk2) = map fst peers @ backlog (kern_st sk')"
        "(r = 0 \<and> backlog (kern_st sk') = []) \<or> (r = -1 \<and> sockfd sk' = None)"
      by blast
    with step b o(2) show ?thesis
      by (intro exI [of _ r] exI [of _ sk'] exI [of _ "(n, ok) # peers"]) simp
  qed
qed

section \<open>An event as a whole\<close>

text \<open>The three parts of an event: reading, writing, and the error.\<close>

lemma attach_cb_parts:
  assumes "attach_cb E R is_udp True fd event b sk = Some (Inr (b', sk'))"
  obtains nr sk1 sk2 where
    "(if has event PE_READ then on_read E R is_udp fd b sk else Some (Inr (0, b, sk))) = Some (Inr (nr, b', sk1))"
    "(if sockfd sk1 \<noteq> None \<and> has event PE_WRITE then on_writeable E fd sk1 else Some sk1) = Some sk2"
    "sk' = (if sockfd sk2 \<noteq> None \<and> has event PE_ERROR then snd (on_error E fd sk2) else sk2)"
proof -
  obtain y where y: "(if has event PE_READ then on_read E R is_udp fd b sk else Some (Inr (0, b, sk))) = Some y"
    and c: "(case y of Inl x \<Rightarrow> Some (Inl x)
       | Inr (_, b1, sk1) \<Rightarrow>
           (if sockfd sk1 \<noteq> None \<and> has event PE_WRITE then on_writeable E fd sk1 else Some sk1) \<bind>
             (\<lambda>sk2. Some (Inr (b1,
                if sockfd sk2 \<noteq> None \<and> has event PE_ERROR then snd (on_error E fd sk2) else sk2)))) =
       Some (Inr (b', sk'))"
    using assms [unfolded attach_cb_def not_True_eq_False if_False bind_eq_Some_conv] by blast
  from c obtain nr sk1 sk2 where "y = Inr (nr, b', sk1)"
    "(if sockfd sk1 \<noteq> None \<and> has event PE_WRITE then on_writeable E fd sk1 else Some sk1) = Some sk2"
    "sk' = (if sockfd sk2 \<noteq> None \<and> has event PE_ERROR then snd (on_error E fd sk2) else sk2)"
    by (cases y) (auto simp: bind_eq_Some_conv)
  with y that show ?thesis by blast
qed

lemma attach_cb_done:
  assumes "recv_law R fd incoming got \<rho>" and "read_cb_law R incoming got \<rho>" and "so_error_frame E incoming got"
    and "stream_ok E fd wire \<mu>" and "cb_keeps E R"
    and "raw_ok b" and "raw_capacity b \<noteq> 0" and "sock_good sk"
  shows "\<exists>b' sk'. attach_cb E R False True fd event b sk = Some (Inr (b', sk')) \<and>
    raw_ok b' \<and> raw_capacity b' = raw_capacity b \<and> sock_good sk' \<and> one_report (reported sk) sk' \<and>
    (has event PE_READ \<and> \<not> has event PE_WRITE \<longrightarrow> read_out False incoming sk') \<and>
    (has event PE_WRITE \<longrightarrow> sent_out E fd sk') \<and> (has event PE_ERROR \<longrightarrow> sockfd sk' = None)"
proof -
  have "\<exists>nr b1 sk1. (if has event PE_READ then on_read E R False fd b sk else Some (Inr (0, b, sk))) =
        Some (Inr (nr, b1, sk1)) \<and>
      raw_ok b1 \<and> raw_capacity b1 = raw_capacity b \<and> sock_good sk1 \<and> one_report (reported sk) sk1 \<and>
      (has event PE_READ \<longrightarrow> read_out False incoming sk1)"
  proof (cases "has event PE_READ")
    case True
    from on_read_ok [OF assms(1-3,6,7), of False sk] obtain nr b1 sk1 where
      r: "on_read E R False fd b sk = Some (Inr (nr, b1, sk1))" "raw_ok b1" "raw_capacity b1 = raw_capacity b"
        "read_out False incoming sk1"
      by blast
    with on_read_report [OF r(1) assms(5)] assms(8) True show ?thesis by auto
  next
    case False
    with assms(6-8) show ?thesis by (simp add: one_report_def)
  qed
  then obtain nr b1 sk1 where 1: "(if has event PE_READ then on_read E R False fd b sk else Some (Inr (0, b, sk))) =
      Some (Inr (nr, b1, sk1))" "raw_ok b1" "raw_capacity b1 = raw_capacity b" "sock_good sk1"
      "one_report (reported sk) sk1" "has event PE_READ \<longrightarrow> read_out False incoming sk1" by blast
  obtain sk2 where 2: "(if sockfd sk1 \<noteq> None \<and> has event PE_WRITE then on_writeable E fd sk1 else Some sk1) = Some sk2"
    "sock_good sk2" "one_report (reported sk) sk2"
    "sockfd sk1 \<noteq> None \<and> has event PE_WRITE \<longrightarrow> sent_out E fd sk2" "sockfd sk1 \<noteq> None \<and> has event PE_WRITE \<or> sk2 = sk1"
    using on_writeable_report [OF assms(4,5) 1(4), of "reported sk"] 1(4,5) by (cases "sockfd sk1 \<noteq> None \<and> has event PE_WRITE") auto
  define sk3 where "sk3 = (if sockfd sk2 \<noteq> None \<and> has event PE_ERROR then snd (on_error E fd sk2) else sk2)"
  have "sock_good sk3" "one_report (reported sk) sk3"
    using 2 on_error_report [of "reported sk" sk2 E fd] by (simp_all add: sk3_def sock_good_def lists_error)
  moreover have "attach_cb E R False True fd event b sk = Some (Inr (b1, sk3))"
    by (simp only: attach_cb_def 1(1) 2(1) sk3_def Option.bind.simps sum.case prod.case not_True_eq_False if_False)
  moreover have "has event PE_ERROR \<longrightarrow> sockfd sk3 = None" by (simp add: sk3_def on_error_lists)
  moreover have end_of: "sk3 = sk2 \<or> sockfd sk3 = None" by (simp add: sk3_def on_error_lists)
  moreover have "has event PE_WRITE \<longrightarrow> sent_out E fd sk3" using 2(4,5) end_of by (auto simp: sent_out_def)
  moreover have "has event PE_READ \<and> \<not> has event PE_WRITE \<longrightarrow> read_out False incoming sk3"
    using 1(6) 2(5) end_of by (auto simp: read_out_def)
  ultimately show ?thesis using 1(2,3)
    by (intro exI [of _ b1] exI [of _ sk3]) auto
qed

section \<open>Properties\<close>



type_synonym demo_peer = "(byte list \<times> block) \<times> answer list \<times> block"

definition demo_event_env :: "demo_peer sock_env" where
  "demo_event_env = \<lparr>
     env_sendmsg = (\<lambda>k fd msg. (fst (script_stream (snd k) fd msg), fst k, snd (script_stream (snd k) fd msg))),
     env_so_error = (\<lambda>fd k. ((0, 0, 0), k)),
     env_closed = (\<lambda>_. False), env_modify = (\<lambda>fd m k. k), env_flushed = (\<lambda>c sk. (False, sk)),
     env_strerror = (\<lambda>_. ''error'')\<rparr>"

definition demo_event_recv :: "demo_peer recv_env" where
  "demo_event_recv = \<lparr>rcv_recvfrom = (\<lambda>fd cap ((inp, log), out).
       if inp = [] then (((-1, EAGAIN), [], []), ((inp, log), out))
       else if cap \<le> 0 then (((0, 0), [], []), ((inp, log), out))
       else let m = min (nat cap) (length inp) in (((int m, 0), take m inp, []), ((drop m inp, log), out))),
     rcv_read_cb = (\<lambda>b a sk. case raw_to_string b of Inl _ \<Rightarrow> sk
       | Inr s \<Rightarrow> sk\<lparr>kern_st := ((fst (fst (kern_st sk)), snd (fst (kern_st sk)) @ s), snd (kern_st sk))\<rparr>)\<rparr>"

definition demo_event_sock :: "demo_peer socket" where
  "demo_event_sock = \<lparr>sockfd = Some demo_fd, timer = False, connecting = False, send_buf_sending = [],
     send_buf_waiting = [demo_packet 7 1, demo_packet 9 2], sending = True, enable_recv = True,
     flushed_cb = Some 0, socket_flags = 0, reported = [], err_no = 0,
     kern_st = (([1, 2, 3], []), [Room 1, Err EINTR, Room 2], [])\<rparr>"

lemma demo_event_laws:
  "recv_law demo_event_recv fd (fst \<circ> fst) (snd \<circ> fst) (\<lambda>k. length (fst (fst k)))"
  "read_cb_law demo_event_recv (fst \<circ> fst) (snd \<circ> fst) (\<lambda>k. length (fst (fst k)))"
  "so_error_frame demo_event_env (fst \<circ> fst) (snd \<circ> fst)" "cb_keeps demo_event_env demo_event_recv"
  by (auto simp: recv_law_def read_cb_law_def so_error_frame_def cb_keeps_def demo_event_recv_def
      demo_event_env_def Let_def split: if_splits sum.splits)

lemma demo_event_stream:
  "stream_ok demo_event_env demo_fd (snd \<circ> snd) (\<lambda>k. length (fst (snd k)))"
  using script_stream_ok [of 3]
  by (auto simp: stream_ok_def kernel_ok_def eintr_bounded_def env_ok_def demo_event_env_def demo_fd_def Let_def)


text \<open>
  A backlog of connections and then an error; the user's callback closes the listening socket at
  once.
\<close>

definition demo_accept :: "int list accept_env" where
  "demo_accept = \<lparr>acc_accept = (\<lambda>fd k. case k of [] \<Rightarrow> ((-1, EAGAIN), []) | n # ns \<Rightarrow>
       if n = -1 then ((-1, 103), k) else ((n, 0), ns)),
     acc_net = idle_net, acc_cb = (\<lambda>n sk. Close sk), acc_attach = (\<lambda>n k. (0, k))\<rparr>"

definition demo_listen_env :: "int list sock_env" where
  "demo_listen_env = \<lparr>env_sendmsg = (\<lambda>k fd msg. ((-1, EAGAIN), k)), env_so_error = (\<lambda>fd k. ((0, 0, 0), k)),
     env_closed = (\<lambda>_. False), env_modify = (\<lambda>fd m k. k), env_flushed = (\<lambda>c sk. (False, sk)),
     env_strerror = (\<lambda>_. ''error'')\<rparr>"

definition demo_listen :: "int list socket" where
  "demo_listen = \<lparr>sockfd = Some demo_fd, timer = False, connecting = False, send_buf_sending = [],
     send_buf_waiting = [], sending = True, enable_recv = True, flushed_cb = None, socket_flags = 0,
     reported = [], err_no = 0, kern_st = [7, 8, 9]\<rparr>"

lemma demo_accept_law: "accept_law demo_listen_env demo_accept demo_fd id (\<lambda>_. 0)"
  by (auto simp: accept_law_def demo_accept_def demo_listen_env_def prepare_peer_def SetNoBlocked_def
      SetNoDelay_def SetRecvBuf_def SetSendBuf_def SetCloseWait_def SetCloExec_def idle_net_def Close_def
      get_uv_error_def uv_translate_posix_error_def split: list.splits if_splits)


end
