(* ===== verification/SocketDgramRead.thy ===== *)
theory SocketDgramRead
  imports SocketEvents
begin

text \<open>
  \<^verbatim>\<open>net/socket.cpp\<close>: \<open>on_read\<close> on a UDP socket. Each \<open>recvfrom\<close> takes one datagram whole, cut to the
  capacity that is passed; a datagram without data ends the loop as an end of file would end that
  of a connection.
\<close>

section \<open>What it relies on\<close>

text \<open>
  \<open>queue\<close> are the datagrams that wait, with the addresses they come from, \<open>got\<close> those the user has
  been handed. \<open>EAGAIN\<close> says that none waits; \<open>\<rho>\<close> bounds the interruptions.
\<close>

type_synonym dgram = "byte list \<times> byte list"

definition dgram_recv_law ::
  "'k sock_env \<Rightarrow> 'k recv_env \<Rightarrow> sock_fd \<Rightarrow> ('k \<Rightarrow> dgram list) \<Rightarrow> ('k \<Rightarrow> (byte list \<times> block) list) \<Rightarrow>
   ('k \<Rightarrow> nat) \<Rightarrow> bool" where
  "dgram_recv_law E R fd queue got \<rho> \<longleftrightarrow>
     (\<forall>cap k n e d a k'. rcv_recvfrom R (raw_fd fd) cap k = (((n, e), d, a), k') \<longrightarrow>
        got k' = got k \<and>
        ((n = -1 \<and> queue k' = queue k \<and> (e = EINTR \<longrightarrow> \<rho> k' < \<rho> k) \<and> (get_uv_error e = EAGAIN \<longrightarrow> queue k = [])) \<or>
         (\<exists>m. queue k = (a, m) # queue k' \<and> d = take (nat cap) m \<and> n = int (length d)))) \<and>
     (\<forall>b a sk s. raw_to_string b = Inr s \<longrightarrow>
        got (kern_st (rcv_read_cb R b a sk)) = got (kern_st sk) @ [(a, s)] \<and>
        queue (kern_st (rcv_read_cb R b a sk)) = queue (kern_st sk)) \<and>
     (\<forall>h k. queue (snd (env_so_error E h k)) = queue k \<and> got (snd (env_so_error E h k)) = got k)"

lemma recv_retry_dgram:
  assumes law: "dgram_recv_law E R fd queue got \<rho>"
  shows "\<exists>n d a k e. retry_eintr (recv_call R fd cap) (\<lambda>w. err_no (snd (snd w))) (d0, a0, sk) =
      Some (n, d, a, sk\<lparr>kern_st := k, err_no := e\<rparr>) \<and> got k = got (kern_st sk) \<and>
    ((n = -1 \<and> queue k = queue (kern_st sk) \<and> (get_uv_error e = EAGAIN \<longrightarrow> queue k = [])) \<or>
     (\<exists>m. queue (kern_st sk) = (a, m) # queue k \<and> d = take (nat cap) m \<and> n = int (length d)))"
proof (induction "\<rho> (kern_st sk)" arbitrary: sk d0 a0 rule: less_induct)
  case less
  obtain n e d a k where r: "rcv_recvfrom R (raw_fd fd) cap (kern_st sk) = (((n, e), d, a), k)"
    by (metis surj_pair)
  with law have g: "got k = got (kern_st sk)" unfolding dgram_recv_law_def by blast
  from r law have c: "(n = -1 \<and> queue k = queue (kern_st sk) \<and> (e = EINTR \<longrightarrow> \<rho> k < \<rho> (kern_st sk)) \<and>
        (get_uv_error e = EAGAIN \<longrightarrow> queue (kern_st sk) = [])) \<or>
      (\<exists>m. queue (kern_st sk) = (a, m) # queue k \<and> d = take (nat cap) m \<and> n = int (length d))"
    unfolding dgram_recv_law_def by blast
  let ?e = "if n = -1 then e else err_no sk"
  let ?sk = "sk\<lparr>kern_st := k, err_no := ?e\<rparr>"
  have call: "recv_call R fd cap (d0, a0, sk) = (n, d, a, ?sk)" using r by (simp add: recv_call_def)
  show ?case
  proof (cases "n = -1 \<and> e = EINTR")
    case True
    with c have lt: "\<rho> (kern_st ?sk) < \<rho> (kern_st sk)" "queue k = queue (kern_st sk)" by auto
    have "retry_eintr (recv_call R fd cap) (\<lambda>w. err_no (snd (snd w))) (d0, a0, sk) =
        retry_eintr (recv_call R fd cap) (\<lambda>w. err_no (snd (snd w))) (d, a, ?sk)"
      using call True by (subst retry_eintr.simps) simp
    with less [OF lt(1), of d a] lt(2) g show ?thesis by simp
  next
    case False
    then have "retry_eintr (recv_call R fd cap) (\<lambda>w. err_no (snd (snd w))) (d0, a0, sk) = Some (n, d, a, ?sk)"
      using call by (subst retry_eintr.simps) auto
    moreover have "(n = -1 \<and> queue k = queue (kern_st sk) \<and> (get_uv_error ?e = EAGAIN \<longrightarrow> queue k = [])) \<or>
       (\<exists>m. queue (kern_st sk) = (a, m) # queue k \<and> d = take (nat cap) m \<and> n = int (length d))"
      using c by auto
    ultimately show ?thesis using g by blast
  qed
qed

section \<open>The loop\<close>

text \<open>What the user sees of a datagram: its sender, and as much of it as fits into the buffer.\<close>

definition as_read :: "int \<Rightarrow> dgram \<Rightarrow> byte list \<times> block" where
  "as_read cap = (\<lambda>(a, m). (a, map Some (take (nat cap) m)))"

text \<open>How the reading ends: nothing is left, reading is switched off or an error has closed the socket,
  or a datagram without data has been met, which is taken.\<close>

definition dgrams_read ::
  "('k \<Rightarrow> dgram list) \<Rightarrow> 'k socket \<Rightarrow> dgram list \<Rightarrow> 'k socket \<Rightarrow> bool" where
  "dgrams_read queue sk ds sk' \<longleftrightarrow>
     list_all (\<lambda>(a, m). m \<noteq> []) ds \<and>
     ((queue (kern_st sk) = ds @ queue (kern_st sk') \<and>
        (queue (kern_st sk') = [] \<or> \<not> enable_recv sk' \<or> sockfd sk' = None)) \<or>
      (\<exists>a. queue (kern_st sk) = ds @ (a, []) # queue (kern_st sk')))"

lemma read_loop_dgrams:
  assumes law: "dgram_recv_law E R fd queue got \<rho>" and cap: "0 < cap"
  shows "raw_ok b \<Longrightarrow> nat cap < unat (raw_capacity b) \<Longrightarrow>
    \<exists>nr' b' sk' ds. read_loop E R True fd cap nr b sk = Some (Inr (nr', b', sk')) \<and>
      raw_ok b' \<and> raw_capacity b' = raw_capacity b \<and> dgrams_read queue sk ds sk' \<and>
      got (kern_st sk') = got (kern_st sk) @ map (as_read cap) ds"
proof (induction "length (queue (kern_st sk))" arbitrary: sk b nr rule: less_induct)
  case less
  show ?case
  proof (cases "enable_recv sk")
    case False
    with less.prems show ?thesis
      by (subst read_loop.simps) (auto simp: dgrams_read_def intro: exI [of _ "[]"])
  next
    case True
    from recv_retry_dgram [OF law, of cap "[]" "[]" sk] obtain n d a k e where
      r: "retry_eintr (recv_call R fd cap) (\<lambda>w. err_no (snd (snd w))) ([], [], sk) =
        Some (n, d, a, sk\<lparr>kern_st := k, err_no := e\<rparr>)" and g: "got k = got (kern_st sk)"
      and c: "(n = -1 \<and> queue k = queue (kern_st sk) \<and> (get_uv_error e = EAGAIN \<longrightarrow> queue k = [])) \<or>
        (\<exists>m. queue (kern_st sk) = (a, m) # queue k \<and> d = take (nat cap) m \<and> n = int (length d))"
      by blast
    let ?sk = "sk\<lparr>kern_st := k, err_no := e\<rparr>"
    consider (err) "n = -1" | (empty) m where "queue (kern_st sk) = (a, m) # queue k" "d = take (nat cap) m" "n = 0"
      "d = []"
      | (data) m where "queue (kern_st sk) = (a, m) # queue k" "d = take (nat cap) m" "0 < n" "n = int (length d)"
      using c by fastforce
    then show ?thesis
    proof cases
      case err
      then have q: "queue k = queue (kern_st sk)" "get_uv_error e = EAGAIN \<longrightarrow> queue k = []" using c by auto
      define sk' where "sk' = (if get_uv_error e \<noteq> EAGAIN then snd (on_error E fd ?sk) else ?sk)"
      have "queue (snd (env_so_error E (raw_fd fd) k)) = queue k" "got (snd (env_so_error E (raw_fd fd) k)) = got k"
        using law unfolding dgram_recv_law_def by blast+
      with q g have f: "queue (kern_st sk') = queue (kern_st sk)" "got (kern_st sk') = got (kern_st sk)"
        "queue (kern_st sk') = [] \<or> sockfd sk' = None"
        by (auto simp: sk'_def on_error_lists simp del: get_uv_error_EAGAIN)
      have "read_loop E R True fd cap nr b sk = Some (Inr (nr, b, sk'))"
        using True r err by (subst read_loop.simps) (simp add: sk'_def del: get_uv_error_EAGAIN)
      moreover have "dgrams_read queue sk [] sk'" using f by (auto simp: dgrams_read_def)
      ultimately show ?thesis using less.prems f(2) by (intro exI [of _ nr] exI [of _ b] exI [of _ sk'] exI [of _ "[]"]) simp
    next
      case (empty m)
      then have "m = []" using cap by simp
      then have "dgrams_read queue sk [] ?sk" using empty(1) by (simp add: dgrams_read_def)
      moreover have "read_loop E R True fd cap nr b sk = Some (Inr (nr, b, ?sk))"
        using True r empty(3) by (subst read_loop.simps) simp
      ultimately show ?thesis using less.prems g by (intro exI [of _ nr] exI [of _ b] exI [of _ ?sk] exI [of _ "[]"]) simp
    next
      case (data m)
      have len: "length d = nat n" "nat n < unat (raw_capacity b)" using data less.prems(2) by simp_all
      from fill_ok [OF less.prems(1) len(1) data(3) len(2)] obtain b1 where
        b1: "fill d n b = Inr b1" "raw_ok b1" "raw_capacity b1 = raw_capacity b" "raw_to_string b1 = Inr (map Some d)"
        by blast
      define sk2 where "sk2 = rcv_read_cb R b1 a ?sk"
      have "got (kern_st sk2) = got (kern_st ?sk) @ [(a, map Some d)] \<and> queue (kern_st sk2) = queue (kern_st ?sk)"
        using law b1(4) unfolding dgram_recv_law_def sk2_def by blast
      then have s2: "got (kern_st sk2) = got (kern_st sk) @ map (as_read cap) [(a, m)]"
        "queue (kern_st sk) = (a, m) # queue (kern_st sk2)"
        using g data(1,2) by (simp_all add: as_read_def)
      have "n \<noteq> 0 \<and> n \<noteq> -1" using data(3) by simp
      then have step: "read_loop E R True fd cap nr b sk = read_loop E R True fd cap (nr + n) b1 sk2"
        using True r b1(1) by (subst read_loop.simps) (simp add: sk2_def)
      have "length (queue (kern_st sk2)) < length (queue (kern_st sk))" using s2(2) by simp
      from less.hyps [OF this b1(2), of "nr + n"] less.prems(2) b1(3) obtain nr' b' sk' ds where
        i: "read_loop E R True fd cap (nr + n) b1 sk2 = Some (Inr (nr', b', sk'))"
          "raw_ok b'" "raw_capacity b' = raw_capacity b1" "dgrams_read queue sk2 ds sk'"
          "got (kern_st sk') = got (kern_st sk2) @ map (as_read cap) ds" by auto
      have "m \<noteq> []" using data(2-4) by auto
      then have "dgrams_read queue sk ((a, m) # ds) sk'" using i(4) s2(2) by (auto simp: dgrams_read_def)
      with step i b1(3) s2(1) show ?thesis
        by (intro exI [of _ nr'] exI [of _ b'] exI [of _ sk'] exI [of _ "(a, m) # ds"]) simp
    qed
  qed
qed

section \<open>Properties\<close>


text \<open>Two datagrams, one without data, and another one: the last is not read.\<close>

type_synonym demo_dgrams = "dgram list \<times> (byte list \<times> block) list"

definition demo_dgram_recv :: "demo_dgrams recv_env" where
  "demo_dgram_recv = \<lparr>rcv_recvfrom = (\<lambda>fd cap (q, log). case q of [] \<Rightarrow> (((-1, EAGAIN), [], []), ([], log))
       | (a, m) # q' \<Rightarrow> (((int (length (take (nat cap) m)), 0), take (nat cap) m, a), (q', log))),
     rcv_read_cb = (\<lambda>b a sk. case raw_to_string b of Inl _ \<Rightarrow> sk
       | Inr s \<Rightarrow> sk\<lparr>kern_st := (fst (kern_st sk), snd (kern_st sk) @ [(a, s)])\<rparr>)\<rparr>"

definition demo_dgram_env :: "demo_dgrams sock_env" where
  "demo_dgram_env = \<lparr>env_sendmsg = (\<lambda>k fd msg. ((-1, EAGAIN), k)), env_so_error = (\<lambda>fd k. ((0, 0, 0), k)),
     env_closed = (\<lambda>_. False), env_modify = (\<lambda>fd m k. k), env_flushed = (\<lambda>c sk. (False, sk)),
     env_strerror = (\<lambda>_. ''error'')\<rparr>"

definition demo_dgram_sock :: "demo_dgrams socket" where
  "demo_dgram_sock = \<lparr>sockfd = Some demo_fd, timer = False, connecting = False, send_buf_sending = [],
     send_buf_waiting = [], sending = True, enable_recv = True, flushed_cb = None, socket_flags = 0,
     reported = [], err_no = 0, kern_st = ([([9], [1]), ([9], [2, 3]), ([8], []), ([7], [4])], [])\<rparr>"

lemma demo_dgram_law: "dgram_recv_law demo_dgram_env demo_dgram_recv fd fst snd (\<lambda>_. 0)"
  by (auto simp: dgram_recv_law_def demo_dgram_recv_def demo_dgram_env_def split: list.splits sum.splits)


end
