(* ===== verification/SocketLink.thy ===== *)
theory SocketLink
  imports SocketEvents "HOL-Library.Sublist"
begin

text \<open>
  Two sockets of \<^verbatim>\<open>net/socket.cpp\<close> that are connected to each other: what is given to \<open>Send\<close> on one
  side, through the task that it queues with \<open>AsyncFirst\<close>, the batches, \<open>sendmsg\<close>, the network,
  \<open>recvfrom\<close> and the read buffer, is what the user's read callback is given on the other side.
\<close>

section \<open>Frames\<close>

text \<open>What no \<open>sendmsg\<close> changes, sending does not change, and what no \<open>recvfrom\<close> changes, reading does not.\<close>

lemma sendmsg_retry_frame:
  assumes "sendmsg_retry sm fd msg e k = Some (n, e', k')" and "Q k"
    and sm: "\<And>k. Q k \<Longrightarrow> Q (snd (sm k fd msg))"
  shows "Q k'"
proof -
  have "sm = sm \<and> fd = fd \<and> msg = msg \<longrightarrow> Q k \<longrightarrow> Q (snd (snd (n, e', k')))"
  proof (rule sendmsg_retry.raw_induct [where P = "\<lambda>sm' fd' msg' e k y.
      sm' = sm \<and> fd' = fd \<and> msg' = msg \<longrightarrow> Q k \<longrightarrow> Q (snd (snd y))", OF _ assms(1)], intro impI)
    fix self sm' fd' msg' e k y
    assume IH: "\<And>sm' fd' msg' e k y. self sm' fd' msg' e k = Some y \<Longrightarrow>
        sm' = sm \<and> fd' = fd \<and> msg' = msg \<longrightarrow> Q k \<longrightarrow> Q (snd (snd y))"
      and body: "(let (n, err) = fst (sm' k fd' msg'); k' = snd (sm' k fd' msg'); e' = (if n = -1 then err else e)
        in if n = -1 \<and> get_uv_error e' = EINTR then self sm' fd' msg' e' k' else Some (n, e', k')) = Some y"
      and eq: "sm' = sm \<and> fd' = fd \<and> msg' = msg" and Q: "Q k"
    have "Q (snd (sm k fd msg))" using sm Q by blast
    with body eq IH [of sm fd msg _ "snd (sm k fd msg)" y] show "Q (snd (snd y))"
      by (auto simp: Let_def split: prod.splits if_splits)
  qed
  with assms(2) show ?thesis by simp
qed

lemma send_loop_frame:
  assumes "send_loop sm fd flags udp bl e k = Some y" and "Q k"
    and sm: "\<And>k msg. Q k \<Longrightarrow> Q (snd (sm k fd msg))"
  shows "Q (snd (snd y))"
proof -
  have "sm = sm \<and> fd = fd \<longrightarrow> Q k \<longrightarrow> Q (snd (snd y))"
  proof (rule send_loop.raw_induct [where P = "\<lambda>sm' fd' flags udp bl e k y.
      sm' = sm \<and> fd' = fd \<longrightarrow> Q k \<longrightarrow> Q (snd (snd y))", OF _ assms(1)], intro impI)
    fix self sm' fd' flags udp bl e k y
    assume IH: "\<And>sm' fd' flags udp bl e k y. self sm' fd' flags udp bl e k = Some y \<Longrightarrow>
        sm' = sm \<and> fd' = fd \<longrightarrow> Q k \<longrightarrow> Q (snd (snd y))"
      and body: "(if bl_remain_size bl = 0 then Some (bl, e, k)
       else Option.bind (send_l sm' fd' flags udp bl e k) (\<lambda>r.
        if fst r \<noteq> -1
        then self sm' fd' flags udp (fst (snd r)) (fst (snd (snd r))) (snd (snd (snd r)))
        else Some (snd r))) = Some y"
      and eq: "sm' = sm \<and> fd' = fd" and Q: "Q k"
    show "Q (snd (snd y))"
    proof (cases "bl_remain_size bl = 0")
      case True
      with body Q show ?thesis by auto
    next
      case False
      with body eq obtain r where r: "send_l sm fd flags udp bl e k = Some r"
        and c: "(if fst r \<noteq> -1
          then self sm fd flags udp (fst (snd r)) (fst (snd (snd r))) (snd (snd (snd r)))
          else Some (snd r)) = Some y" by auto
      have "Q (snd (snd (snd r)))"
        using r sendmsg_retry_frame [of sm fd _ e k _ _ _ Q] Q sm by (auto simp: send_l_def)
      with c IH [of sm fd flags udp _ _ _ y] show ?thesis by (auto split: if_splits)
    qed
  qed
  with assms(2) show ?thesis by simp
qed

lemma send_batches_frame:
  assumes "\<And>k msg. Q k \<Longrightarrow> Q (snd (env_sendmsg E k (raw_fd fd) msg))"
  shows "send_batches E fd tmp sk = Some (r, tmp', sk') \<Longrightarrow> Q (kern_st sk) \<Longrightarrow> Q (kern_st sk')"
proof (induction tmp arbitrary: sk)
  case (Cons pkt tmp)
  then obtain n pkt' e k where
    b: "bl_send (env_sendmsg E) (raw_fd fd) (socket_flags sk) (fd_type fd = SOCK_UDP) pkt (err_no sk) (kern_st sk) =
       Some (n, pkt', e, k)" by auto
  then have "Q k"
    using send_loop_frame [of "env_sendmsg E" "raw_fd fd" _ _ pkt "err_no sk" "kern_st sk" _ Q] assms Cons.prems(2)
    by (fastforce simp: bl_send_def Let_def)
  with b Cons.IH [of "sk\<lparr>err_no := e, kern_st := k\<rparr>"] Cons.prems show ?case
    by (auto simp: Let_def split: if_splits)
qed auto

text \<open>
  What sending leaves alone: the bytes that wait to be read, those the user has been given, and
  whether the socket receives; the socket may be closed on the way.
\<close>

definition same_input :: "('k \<Rightarrow> byte list) \<Rightarrow> ('k \<Rightarrow> block) \<Rightarrow> 'k socket \<Rightarrow> 'k socket \<Rightarrow> bool" where
  "same_input incoming got sk0 sk \<longleftrightarrow>
     incoming (kern_st sk) = incoming (kern_st sk0) \<and> got (kern_st sk) = got (kern_st sk0) \<and>
     sockfd sk \<in> {sockfd sk0, None} \<and> enable_recv sk = enable_recv sk0"

definition out_frame :: "'k sock_env \<Rightarrow> sock_fd \<Rightarrow> ('k \<Rightarrow> byte list) \<Rightarrow> ('k \<Rightarrow> block) \<Rightarrow> bool" where
  "out_frame E fd incoming got \<longleftrightarrow>
     (\<forall>k msg. incoming (snd (env_sendmsg E k (raw_fd fd) msg)) = incoming k \<and>
        got (snd (env_sendmsg E k (raw_fd fd) msg)) = got k) \<and>
     (\<forall>a m k. incoming (env_modify E a m k) = incoming k \<and> got (env_modify E a m k) = got k) \<and>
     (\<forall>c sk. same_input incoming got sk (snd (env_flushed E c sk))) \<and>
     so_error_frame E incoming got"

lemma same_input_trans:
  "same_input incoming got a b \<Longrightarrow> same_input incoming got b c \<Longrightarrow> same_input incoming got a c"
  by (auto simp: same_input_def)

lemma error_enable [simp]:
  "enable_recv (snd (emit_error err sk)) = enable_recv sk"
  "enable_recv (snd (on_error E fd sk)) = enable_recv sk"
proof -
  show e: "enable_recv (snd (emit_error err sk)) = enable_recv sk" for err and sk :: "'b socket"
    by (cases "sockfd sk") (simp_all add: emit_error_def Close_def)
  obtain err' e' where g: "get_socket_error E True fd sk =
      (err', sk\<lparr>kern_st := snd (env_so_error E (raw_fd fd) (kern_st sk)), err_no := e'\<rparr>)"
    by (rule get_socket_error_upd)
  show "enable_recv (snd (on_error E fd sk)) = enable_recv sk"
    unfolding on_error_def g prod.case e by simp
qed

lemma on_error_input:
  assumes "so_error_frame E incoming got" and "same_input incoming got sk0 sk"
  shows "same_input incoming got sk0 (snd (on_error E fd sk))"
  using assms by (simp add: same_input_def so_error_frame_def on_error_lists)

lemma on_flushed_input:
  assumes "out_frame E fd incoming got" and "same_input incoming got sk0 sk"
  shows "same_input incoming got sk0 (on_flushed E sk)"
proof (cases "flushed_cb sk")
  case (Some c)
  obtain f sk1 where c: "env_flushed E c sk = (f, sk1)" by fastforce
  then have "same_input incoming got sk sk1" using assms(1) unfolding out_frame_def by (metis snd_conv)
  then have "same_input incoming got sk0 sk1" by (rule same_input_trans [OF assms(2)])
  with Some c show ?thesis by (simp add: on_flushed_def same_input_def)
qed (use assms in \<open>simp add: on_flushed_def\<close>)

lemma stop_input:
  "out_frame E fd incoming got \<Longrightarrow> same_input incoming got sk0 sk \<Longrightarrow>
   same_input incoming got sk0 (stop_writeable_event E fd' sk)"
  by (simp add: out_frame_def same_input_def stop_writeable_event_def)

lemma send_batches_enable:
  "send_batches E fd tmp sk = Some (r, tmp', sk') \<Longrightarrow> enable_recv sk' = enable_recv sk"
proof (induction tmp arbitrary: sk)
  case (Cons pkt tmp)
  then obtain n pkt' e k where
    "bl_send (env_sendmsg E) (raw_fd fd) (socket_flags sk) (fd_type fd = SOCK_UDP) pkt (err_no sk) (kern_st sk) =
       Some (n, pkt', e, k)" by auto
  with Cons.IH [of "sk\<lparr>err_no := e, kern_st := k\<rparr>"] Cons.prems show ?case
    by (auto simp: Let_def split: if_splits)
qed simp

lemma send_batches_input:
  assumes "out_frame E fd incoming got" and "same_input incoming got sk0 sk"
    and "send_batches E fd tmp sk = Some (r, tmp', sk')"
  shows "same_input incoming got sk0 sk'"
proof -
  have "incoming (kern_st sk') = incoming (kern_st sk0) \<and> got (kern_st sk') = got (kern_st sk0)"
    by (rule send_batches_frame [OF _ assms(3)])
      (use assms(1,2) in \<open>auto simp: out_frame_def same_input_def\<close>)
  moreover have "sockfd sk' = sockfd sk" using send_batches_report [OF assms(3)] by simp
  moreover have "enable_recv sk' = enable_recv sk" by (rule send_batches_enable [OF assms(3)])
  ultimately show ?thesis using assms(2) by (simp add: same_input_def)
qed

interpretation inputs: flush_keeps E fd "\<lambda>sk. out_frame E fd incoming got \<and> same_input incoming got sk0 sk"
    "\<lambda>tmp sk. out_frame E fd incoming got \<and> same_input incoming got sk0 sk"
  for E :: "'k sock_env" and fd incoming got sk0
proof unfold_locales
  fix sk :: "'k socket"
  assume "out_frame E fd incoming got \<and> same_input incoming got sk0 sk"
  then show "out_frame E fd incoming got \<and>
      same_input incoming got sk0 (on_flushed E (stop_writeable_event E fd sk))"
    using on_flushed_input stop_input by blast
next
  fix tmp r tmp' and sk sk' :: "'k socket"
  assume "out_frame E fd incoming got \<and> same_input incoming got sk0 sk"
    and "send_batches E fd tmp sk = Some (r, tmp', sk')"
  then show "out_frame E fd incoming got \<and> same_input incoming got sk0 sk'"
    using send_batches_input by blast
next
  fix tmp and sk :: "'k socket"
  assume "out_frame E fd incoming got \<and> same_input incoming got sk0 sk"
  then show "out_frame E fd incoming got \<and> same_input incoming got sk0 (snd (on_error E fd sk))"
    using on_error_input by (auto simp: out_frame_def)
qed (auto simp: same_input_def)

text \<open>The bytes a kernel has taken stay taken, and a packet that waits leaves the list with all others.\<close>

definition wire_grows :: "'k sock_env \<Rightarrow> sock_fd \<Rightarrow> ('k \<Rightarrow> block) \<Rightarrow> bool" where
  "wire_grows E fd wire \<longleftrightarrow> (\<forall>k msg. prefix (wire k) (wire (snd (env_sendmsg E k (raw_fd fd) msg))))"

interpretation growth: flush_keeps E fd
    "\<lambda>sk. env_ok E wire \<and> wire_grows E fd wire \<and> prefix w (wire (kern_st sk)) \<and> send_buf_waiting sk \<in> {ws, []}"
    "\<lambda>tmp sk. env_ok E wire \<and> wire_grows E fd wire \<and> prefix w (wire (kern_st sk)) \<and> send_buf_waiting sk \<in> {ws, []}"
  for E :: "'k sock_env" and fd wire w ws
proof unfold_locales
  fix sk :: "'k socket"
  assume I: "env_ok E wire \<and> wire_grows E fd wire \<and> prefix w (wire (kern_st sk)) \<and> send_buf_waiting sk \<in> {ws, []}"
  then have "wire (kern_st (stop_writeable_event E fd sk)) = wire (kern_st sk)"
    by (simp add: stop_writeable_event_def env_ok_def)
  with I on_flushed_frame [of E wire "stop_writeable_event E fd sk"]
  show "env_ok E wire \<and> wire_grows E fd wire \<and>
      prefix w (wire (kern_st (on_flushed E (stop_writeable_event E fd sk)))) \<and>
      send_buf_waiting (on_flushed E (stop_writeable_event E fd sk)) \<in> {ws, []}"
    by (simp add: stop_writeable_event_def)
next
  fix tmp r tmp' and sk sk' :: "'k socket"
  assume I: "env_ok E wire \<and> wire_grows E fd wire \<and> prefix w (wire (kern_st sk)) \<and> send_buf_waiting sk \<in> {ws, []}"
    and s: "send_batches E fd tmp sk = Some (r, tmp', sk')"
  have "prefix w (wire (kern_st sk'))"
    by (rule send_batches_frame [OF _ s, where Q = "\<lambda>k. prefix w (wire k)"])
      (use I in \<open>auto simp: wire_grows_def intro: prefix_order.trans\<close>)
  with I send_batches_sending [OF s] show "env_ok E wire \<and> wire_grows E fd wire \<and> prefix w (wire (kern_st sk')) \<and>
      send_buf_waiting sk' \<in> {ws, []}" by simp
next
  fix tmp and sk :: "'k socket"
  assume "env_ok E wire \<and> wire_grows E fd wire \<and> prefix w (wire (kern_st sk)) \<and> send_buf_waiting sk \<in> {ws, []}"
  then show "env_ok E wire \<and> wire_grows E fd wire \<and> prefix w (wire (kern_st (snd (on_error E fd sk)))) \<and>
      send_buf_waiting (snd (on_error E fd sk)) \<in> {ws, []}"
    using on_error_frame [of E wire fd sk] by simp
qed auto

section \<open>The parts of an event\<close>

lemma write_event:
  assumes "stream_ok E fd wire \<mu>" and "out_frame E fd incoming got" and "wire_grows E fd wire" and "sock_good sk"
  shows "\<exists>sk' lost. on_writeable E fd sk = Some sk' \<and> sock_good sk' \<and> same_input incoming got sk sk' \<and>
    wire (kern_st sk') @ lost @ unsent sk' = wire (kern_st sk) @ unsent sk \<and> (lost = [] \<or> sockfd sk' = None) \<and>
    prefix (wire (kern_st sk)) (wire (kern_st sk')) \<and> send_buf_waiting sk' \<in> {send_buf_waiting sk, []}"
proof (cases "send_buf_sending sk = [] \<and> send_buf_waiting sk = []")
  case True
  have "wire (kern_st (stop_writeable_event E fd sk)) = wire (kern_st sk)"
    using assms(1) by (simp add: stream_ok_def env_ok_def stop_writeable_event_def)
  moreover have "same_input incoming got sk (stop_writeable_event E fd sk)"
    by (rule stop_input [OF assms(2)]) (simp add: same_input_def)
  moreover have "unsent (stop_writeable_event E fd sk) = unsent sk" "sock_good (stop_writeable_event E fd sk)"
    "send_buf_waiting (stop_writeable_event E fd sk) = send_buf_waiting sk"
    using assms(4) by (simp_all add: stop_writeable_event_def unsent_def sock_good_def)
  ultimately show ?thesis using True by (auto simp: on_writeable_def)
next
  case False
  from assms(1) have l: "kernel_ok (env_sendmsg E) (raw_fd fd) wire stream_valid stream_deliver"
    "eintr_bounded (env_sendmsg E) (raw_fd fd) \<mu>" "fd_type fd = SOCK_TCP" "env_ok E wire"
    by (simp_all add: stream_ok_def)
  from flush_stream [OF l assms(4)] obtain b sk' where f: "flush_data E fd sk = Some (b, sk')"
    "flush_result E fd wire unsent sock_good sk b sk'" by auto
  have "same_input incoming got sk sk'"
    using inputs.flush [OF f(1), of incoming got sk] assms(2) by (simp add: same_input_def)
  moreover have "prefix (wire (kern_st sk)) (wire (kern_st sk')) \<and> send_buf_waiting sk' \<in> {send_buf_waiting sk, []}"
    using growth.flush [OF f(1), of wire "wire (kern_st sk)" "send_buf_waiting sk"] l(4) assms(3) by simp
  moreover have "on_writeable E fd sk = Some sk'" using False f(1) by (auto simp: on_writeable_def)
  ultimately show ?thesis using f(2) by (auto simp: flush_result_def)
qed

text \<open>What reading leaves alone: what has been sent and what waits to be sent.\<close>

definition same_output :: "('k \<Rightarrow> block) \<Rightarrow> 'k socket \<Rightarrow> 'k socket \<Rightarrow> bool" where
  "same_output wire sk0 sk \<longleftrightarrow>
     wire (kern_st sk) = wire (kern_st sk0) \<and> send_buf_sending sk = send_buf_sending sk0 \<and>
     send_buf_waiting sk = send_buf_waiting sk0 \<and> sockfd sk \<in> {sockfd sk0, None} \<and>
     enable_recv sk = enable_recv sk0"

definition in_frame :: "'k recv_env \<Rightarrow> sock_fd \<Rightarrow> ('k \<Rightarrow> block) \<Rightarrow> bool" where
  "in_frame R fd wire \<longleftrightarrow>
     (\<forall>c k. wire (snd (rcv_recvfrom R (raw_fd fd) c k)) = wire k) \<and>
     (\<forall>b a sk. same_output wire sk (rcv_read_cb R b a sk))"

lemma same_output_trans: "same_output wire a b \<Longrightarrow> same_output wire b c \<Longrightarrow> same_output wire a c"
  by (auto simp: same_output_def)

lemma same_output_lists: "same_output wire sk0 sk \<Longrightarrow> unsent sk = unsent sk0 \<and> (sock_good sk0 \<longrightarrow> sock_good sk)"
  by (simp add: same_output_def unsent_def sock_good_def)

lemma on_error_output:
  assumes "env_ok E wire" and "same_output wire sk0 sk"
  shows "same_output wire sk0 (snd (on_error E fd sk))"
  using assms on_error_frame [OF assms(1), of fd sk] by (simp add: same_output_def)

lemma read_loop_output:
  assumes "read_loop E R is_udp fd cap nr b sk = Some (Inr y)" and "env_ok E wire" and "in_frame R fd wire"
  shows "same_output wire sk (snd (snd y))"
proof -
  have "\<exists>sk1. same_output wire sk sk1 \<and>
      snd (snd y) \<in> {sk1, snd (emit_error eof_error sk1), snd (on_error E fd sk1)}"
  proof (rule read_loop_keeps [OF assms(1)])
    fix sk1 c x d a k e
    assume "same_output wire sk sk1" "rcv_recvfrom R (raw_fd fd) c (kern_st sk1) = ((x, d, a), k)"
    moreover from this have "wire k = wire (kern_st sk1)"
      using assms(3) unfolding in_frame_def by (metis snd_conv)
    ultimately show "same_output wire sk (sk1\<lparr>kern_st := k, err_no := e\<rparr>)" by (simp add: same_output_def)
  next
    fix b a sk1
    assume "same_output wire sk sk1"
    then show "same_output wire sk (rcv_read_cb R b a sk1)"
      by (rule same_output_trans) (use assms(3) in \<open>simp add: in_frame_def\<close>)
  qed (simp add: same_output_def)
  then obtain sk1 where s: "same_output wire sk sk1"
    "snd (snd y) \<in> {sk1, snd (emit_error eof_error sk1), snd (on_error E fd sk1)}" by blast
  have "same_output wire sk (snd (emit_error eof_error sk1))"
    using s(1) by (simp add: same_output_def emit_error_lists)
  with s on_error_output [OF assms(2) s(1)] show ?thesis by auto
qed

text \<open>A read on a connection ends with nothing left to read, or the socket is closed.\<close>

lemma read_event:
  assumes "recv_law R fd incoming got \<rho>" and "read_cb_law R incoming got \<rho>" and "so_error_frame E incoming got"
    and "env_ok E wire" and "in_frame R fd wire"
    and "raw_ok b" and "raw_capacity b \<noteq> 0" and "enable_recv sk"
  shows "\<exists>nr b' sk'. on_read E R False fd b sk = Some (Inr (nr, b', sk')) \<and> raw_ok b' \<and>
    raw_capacity b' = raw_capacity b \<and> same_output wire sk sk' \<and>
    got (kern_st sk') @ map Some (incoming (kern_st sk')) = got (kern_st sk) @ map Some (incoming (kern_st sk)) \<and>
    (sockfd sk' = None \<or> incoming (kern_st sk') = [])"
proof -
  from on_read_ok [OF assms(1-3,6,7), of False sk] obtain nr b' sk' where
    r: "on_read E R False fd b sk = Some (Inr (nr, b', sk'))" "raw_ok b'" "raw_capacity b' = raw_capacity b"
      "got (kern_st sk') @ map Some (incoming (kern_st sk')) = got (kern_st sk) @ map Some (incoming (kern_st sk))"
      "read_out False incoming sk'"
    by blast
  have "same_output wire sk sk'"
    using read_loop_output [OF r(1) [unfolded on_read_def] assms(4,5)] by simp
  moreover from this have "sockfd sk' = None \<or> incoming (kern_st sk') = []"
    using r(5) assms(8) by (auto simp: read_out_def same_output_def)
  ultimately show ?thesis using r by blast
qed

text \<open>
  What every part of an event does to the two streams of a socket. Bytes are lost only by a send that
  fails, and then the socket is closed.
\<close>

definition carries ::
  "('k \<Rightarrow> byte list) \<Rightarrow> ('k \<Rightarrow> block) \<Rightarrow> ('k \<Rightarrow> block) \<Rightarrow> 'k socket \<Rightarrow> block \<Rightarrow> 'k socket \<Rightarrow> bool" where
  "carries incoming got wire sk lost sk' \<longleftrightarrow>
     got (kern_st sk') @ map Some (incoming (kern_st sk')) = got (kern_st sk) @ map Some (incoming (kern_st sk)) \<and>
     wire (kern_st sk') @ lost @ unsent sk' = wire (kern_st sk) @ unsent sk \<and> (lost = [] \<or> sockfd sk' = None) \<and>
     prefix (wire (kern_st sk)) (wire (kern_st sk')) \<and> send_buf_waiting sk' \<in> {send_buf_waiting sk, []} \<and>
     sockfd sk' \<in> {sockfd sk, None} \<and> enable_recv sk' = enable_recv sk \<and> (sock_good sk \<longrightarrow> sock_good sk')"

lemma carries_refl [simp]: "carries incoming got wire sk [] sk"
  by (simp add: carries_def)

lemma carries_trans:
  assumes "carries incoming got wire a l b" and "sockfd b \<noteq> None" and "carries incoming got wire b l' c"
  shows "carries incoming got wire a l' c"
proof -
  note a = assms(1) [unfolded carries_def] and c = assms(3) [unfolded carries_def]
  have l: "l = []" using a assms(2) by blast
  have "wire (kern_st c) @ l' @ unsent c = wire (kern_st a) @ unsent a" using a c l by simp
  moreover have "prefix (wire (kern_st a)) (wire (kern_st c))"
    using a c prefix_order.trans by blast
  moreover have "send_buf_waiting c \<in> {send_buf_waiting a, []}" "sockfd c \<in> {sockfd a, None}"
    using a c by (metis insert_iff singletonD)+
  ultimately show ?thesis using a c unfolding carries_def by simp
qed

lemma carries_error:
  assumes "env_ok E wire" and "so_error_frame E incoming got"
  shows "carries incoming got wire sk [] (snd (on_error E fd sk))"
proof -
  have "incoming (kern_st (snd (on_error E fd sk))) = incoming (kern_st sk)"
    "got (kern_st (snd (on_error E fd sk))) = got (kern_st sk)"
    using assms(2) by (simp_all add: on_error_lists so_error_frame_def)
  with on_error_frame [OF assms(1), of fd sk] show ?thesis
    by (simp add: carries_def unsent_def sock_good_def)
qed

definition end_law ::
  "'k sock_env \<Rightarrow> 'k recv_env \<Rightarrow> sock_fd \<Rightarrow> ('k \<Rightarrow> block) \<Rightarrow> ('k \<Rightarrow> byte list) \<Rightarrow> ('k \<Rightarrow> block) \<Rightarrow>
   ('k \<Rightarrow> nat) \<Rightarrow> ('k \<Rightarrow> nat) \<Rightarrow> bool" where
  "end_law E R fd wire incoming got \<mu> \<rho> \<longleftrightarrow>
     stream_ok E fd wire \<mu> \<and> out_frame E fd incoming got \<and> wire_grows E fd wire \<and>
     recv_law R fd incoming got \<rho> \<and> read_cb_law R incoming got \<rho> \<and>
     in_frame R fd wire"

lemma attach_cb_carries:
  assumes law: "end_law E R fd wire incoming got \<mu> \<rho>"
    and b: "raw_ok b" "raw_capacity b \<noteq> 0" and sk: "enable_recv sk" "sock_good sk"
  shows "\<exists>b' sk' lost. attach_cb E R False True fd ev b sk = Some (Inr (b', sk')) \<and> raw_ok b' \<and>
    raw_capacity b' \<noteq> 0 \<and> carries incoming got wire sk lost sk' \<and>
    (has ev PE_READ \<longrightarrow> sockfd sk' = None \<or> incoming (kern_st sk') = [])"
proof -
  have se: "so_error_frame E incoming got" and eo: "env_ok E wire"
    using law by (auto simp: end_law_def out_frame_def stream_ok_def)
  have "\<exists>nr b1 sk1. (if has ev PE_READ then on_read E R False fd b sk else Some (Inr (0, b, sk))) =
        Some (Inr (nr, b1, sk1)) \<and> raw_ok b1 \<and> raw_capacity b1 \<noteq> 0 \<and> carries incoming got wire sk [] sk1 \<and>
      (has ev PE_READ \<longrightarrow> sockfd sk1 = None \<or> incoming (kern_st sk1) = [])"
  proof (cases "has ev PE_READ")
    case True
    from read_event [of R fd incoming got \<rho> E wire b sk] law se eo b sk(1) obtain nr b1 sk1 where
      r: "on_read E R False fd b sk = Some (Inr (nr, b1, sk1))" "raw_ok b1" "raw_capacity b1 = raw_capacity b"
        "same_output wire sk sk1" "sockfd sk1 = None \<or> incoming (kern_st sk1) = []"
        "got (kern_st sk1) @ map Some (incoming (kern_st sk1)) = got (kern_st sk) @ map Some (incoming (kern_st sk))"
      unfolding end_law_def by blast
    then have "carries incoming got wire sk [] sk1"
      using same_output_lists [OF r(4)] by (auto simp: carries_def same_output_def)
    with r True b show ?thesis by auto
  qed (use b in auto)
  then obtain nr b1 sk1 where 1:
    "(if has ev PE_READ then on_read E R False fd b sk else Some (Inr (0, b, sk))) = Some (Inr (nr, b1, sk1))"
    "raw_ok b1" "raw_capacity b1 \<noteq> 0" "carries incoming got wire sk [] sk1"
    "has ev PE_READ \<longrightarrow> sockfd sk1 = None \<or> incoming (kern_st sk1) = []" by blast
  have "\<exists>sk2 lost. (if sockfd sk1 \<noteq> None \<and> has ev PE_WRITE then on_writeable E fd sk1 else Some sk1) = Some sk2 \<and>
      carries incoming got wire sk lost sk2 \<and> (has ev PE_READ \<longrightarrow> sockfd sk2 = None \<or> incoming (kern_st sk2) = [])"
  proof (cases "sockfd sk1 \<noteq> None \<and> has ev PE_WRITE")
    case True
    have "sock_good sk1" using 1(4) sk(2) by (simp add: carries_def)
    with write_event [of E fd wire \<mu> incoming got sk1] law obtain sk2 lost where
      w: "on_writeable E fd sk1 = Some sk2" "sock_good sk2" "same_input incoming got sk1 sk2"
        "wire (kern_st sk2) @ lost @ unsent sk2 = wire (kern_st sk1) @ unsent sk1" "lost = [] \<or> sockfd sk2 = None"
        "prefix (wire (kern_st sk1)) (wire (kern_st sk2))" "send_buf_waiting sk2 \<in> {send_buf_waiting sk1, []}"
      unfolding end_law_def by blast
    then have "carries incoming got wire sk1 lost sk2" by (simp add: carries_def same_input_def)
    then have "carries incoming got wire sk lost sk2" using carries_trans [OF 1(4)] True by blast
    moreover have "incoming (kern_st sk2) = incoming (kern_st sk1)" using w(3) by (simp add: same_input_def)
    ultimately show ?thesis using True w(1) 1(5) by auto
  qed (use 1 in auto)
  then obtain sk2 lost where 2:
    "(if sockfd sk1 \<noteq> None \<and> has ev PE_WRITE then on_writeable E fd sk1 else Some sk1) = Some sk2"
    "carries incoming got wire sk lost sk2" "has ev PE_READ \<longrightarrow> sockfd sk2 = None \<or> incoming (kern_st sk2) = []"
    by blast
  define sk3 where "sk3 = (if sockfd sk2 \<noteq> None \<and> has ev PE_ERROR then snd (on_error E fd sk2) else sk2)"
  have "\<exists>l. carries incoming got wire sk l sk3"
  proof (cases "sockfd sk2 \<noteq> None \<and> has ev PE_ERROR")
    case True
    have "carries incoming got wire sk [] (snd (on_error E fd sk2))"
      by (rule carries_trans [OF 2(2) _ carries_error [OF eo se]]) (use True in simp)
    with True show ?thesis by (auto simp: sk3_def)
  next
    case False
    then have "sk3 = sk2" unfolding sk3_def by (rule if_not_P)
    with 2(2) show ?thesis by blast
  qed
  moreover have "has ev PE_READ \<longrightarrow> sockfd sk3 = None \<or> incoming (kern_st sk3) = []"
    using 2(3) by (auto simp: sk3_def on_error_lists)
  moreover have "attach_cb E R False True fd ev b sk = Some (Inr (b1, sk3))"
    by (simp only: attach_cb_def 1(1) 2(1) sk3_def Option.bind.simps sum.case prod.case not_True_eq_False if_False)
  ultimately show ?thesis using 1(2,3) by blast
qed

section \<open>Both ends\<close>

text \<open>
  An end of the connection: the socket and its read buffer, the packets whose tasks \<open>AsyncFirst\<close> has
  queued (the first to run first), how many of the bytes it has sent have reached the other end,
  and what it has been given so far, in the order in which the tasks have run.
\<close>

record 'k endpoint =
  ep_sock :: "'k socket"
  ep_buf :: raw_buf
  ep_tasks :: "packet list"
  ep_arrived :: nat
  ep_given :: block

text \<open>
  What the two ends use: the parameters of the two sockets, the bytes that each kernel has taken for
  the other side, and the arrival of bytes.
\<close>

record 'k link_env =
  le_sock :: "bool \<Rightarrow> 'k sock_env"
  le_recv :: "bool \<Rightarrow> 'k recv_env"
  le_fd :: "bool \<Rightarrow> sock_fd"
  le_wire :: "'k \<Rightarrow> block"
  le_arrive :: "byte list \<Rightarrow> 'k \<Rightarrow> 'k"

datatype link_event =
    LSend bool "byte list" \<comment> \<open>the user of that side calls \<open>Send\<close>\<close>
  | LRun bool              \<comment> \<open>its poller runs the tasks of its list\<close>
  | LEvent bool u32        \<comment> \<open>its poller calls the callback of the descriptor\<close>
  | LArrive bool nat       \<comment> \<open>up to so many of the bytes it has sent reach the other side\<close>
  | LClose bool            \<comment> \<open>the user of that side calls \<open>Close\<close>\<close>

definition link_send :: "byte list \<Rightarrow> 'k endpoint \<Rightarrow> 'k endpoint option" where
  "link_send bs e =
     (case Send bs (int (length bs)) None 0 (ep_sock e) of
        Inl _ \<Rightarrow> None
      | Inr (_, None) \<Rightarrow> Some e
      | Inr (_, Some p) \<Rightarrow> Some (e\<lparr>ep_tasks := p # ep_tasks e\<rparr>))"

text \<open>A task does nothing when the weak references to the socket and its descriptor cannot be locked.\<close>

definition run_send :: "'k sock_env \<Rightarrow> packet \<Rightarrow> 'k socket \<times> block \<Rightarrow> 'k socket \<times> block" where
  "run_send E p s =
     (case sockfd (fst s) of None \<Rightarrow> s | Some fd \<Rightarrow> (send_task E fd p (fst s), snd s @ payload p))"

definition link_run :: "'k sock_env \<Rightarrow> 'k endpoint \<Rightarrow> 'k endpoint" where
  "link_run E e =
     (case fold (run_send E) (ep_tasks e) (ep_sock e, ep_given e) of
        (sk, gv) \<Rightarrow> e\<lparr>ep_sock := sk, ep_given := gv, ep_tasks := []\<rparr>)"

definition link_event :: "'k sock_env \<Rightarrow> 'k recv_env \<Rightarrow> u32 \<Rightarrow> 'k endpoint \<Rightarrow> 'k endpoint option" where
  "link_event E R ev e =
     (case sockfd (ep_sock e) of
        None \<Rightarrow> Some e
      | Some fd \<Rightarrow>
          (case attach_cb E R False True fd ev (ep_buf e) (ep_sock e) of
             Some (Inr (b, sk)) \<Rightarrow> Some (e\<lparr>ep_buf := b, ep_sock := sk\<rparr>)
           | _ \<Rightarrow> None))"

definition in_flight :: "'k link_env \<Rightarrow> 'k endpoint \<Rightarrow> block" where
  "in_flight P e = drop (ep_arrived e) (le_wire P (kern_st (ep_sock e)))"

definition upd_sock :: "('k socket \<Rightarrow> 'k socket) \<Rightarrow> 'k endpoint \<Rightarrow> 'k endpoint" where
  "upd_sock f e = e\<lparr>ep_sock := f (ep_sock e)\<rparr>"

definition link_arrive :: "'k link_env \<Rightarrow> bool \<Rightarrow> nat \<Rightarrow> (bool \<Rightarrow> 'k endpoint) \<Rightarrow> bool \<Rightarrow> 'k endpoint" where
  "link_arrive P i m L =
     (let d = take m (in_flight P (L i))
      in L(i := (L i)\<lparr>ep_arrived := ep_arrived (L i) + length d\<rparr>,
           (\<not> i) := upd_sock (\<lambda>sk. sk\<lparr>kern_st := le_arrive P (map the d) (kern_st sk)\<rparr>) (L (\<not> i))))"

fun exec_link :: "'k link_env \<Rightarrow> link_event \<Rightarrow> (bool \<Rightarrow> 'k endpoint) \<Rightarrow> (bool \<Rightarrow> 'k endpoint) option" where
  "exec_link P (LSend i bs) L = map_option (\<lambda>e. L(i := e)) (link_send bs (L i))"
| "exec_link P (LRun i) L = Some (L(i := link_run (le_sock P i) (L i)))"
| "exec_link P (LEvent i ev) L =
     map_option (\<lambda>e. L(i := e)) (link_event (le_sock P i) (le_recv P i) ev (L i))"
| "exec_link P (LArrive i m) L = Some (link_arrive P i m L)"
| "exec_link P (LClose i) L = Some (L(i := upd_sock Close (L i)))"

text \<open>What the two systems and the users' callbacks are relied on for.\<close>

definition link_law ::
  "'k link_env \<Rightarrow> ('k \<Rightarrow> byte list) \<Rightarrow> ('k \<Rightarrow> block) \<Rightarrow> ('k \<Rightarrow> nat) \<Rightarrow> ('k \<Rightarrow> nat) \<Rightarrow> bool" where
  "link_law P incoming got \<mu> \<rho> \<longleftrightarrow>
     (\<forall>i. end_law (le_sock P i) (le_recv P i) (le_fd P i) (le_wire P) incoming got \<mu> \<rho>) \<and>
     (\<forall>d k. incoming (le_arrive P d k) = incoming k @ d \<and> got (le_arrive P d k) = got k \<and>
        le_wire P (le_arrive P d k) = le_wire P k)"

text \<open>A connection that has just been established.\<close>

definition fresh_end :: "'k link_env \<Rightarrow> ('k \<Rightarrow> byte list) \<Rightarrow> ('k \<Rightarrow> block) \<Rightarrow> bool \<Rightarrow> 'k endpoint \<Rightarrow> bool" where
  "fresh_end P incoming got i e \<longleftrightarrow>
     sockfd (ep_sock e) = Some (le_fd P i) \<and> enable_recv (ep_sock e) \<and>
     send_buf_sending (ep_sock e) = [] \<and> send_buf_waiting (ep_sock e) = [] \<and>
     raw_ok (ep_buf e) \<and> raw_capacity (ep_buf e) \<noteq> 0 \<and>
     ep_tasks e = [] \<and> ep_arrived e = 0 \<and> ep_given e = [] \<and>
     le_wire P (kern_st (ep_sock e)) = [] \<and> incoming (kern_st (ep_sock e)) = [] \<and> got (kern_st (ep_sock e)) = []"

section \<open>Each end keeps its stream\<close>

text \<open>The kernel of an end, and how much waits there before it becomes a batch.\<close>

abbreviation ep_kern :: "'k endpoint \<Rightarrow> 'k" where
  "ep_kern e \<equiv> kern_st (ep_sock e)"

definition load :: "'k endpoint \<Rightarrow> nat" where
  "load e = sum_list (map (\<lambda>p. unat (packet_size p)) (send_buf_waiting (ep_sock e) @ ep_tasks e))"

definition end_ok :: "'k link_env \<Rightarrow> bool \<Rightarrow> 'k endpoint \<Rightarrow> bool" where
  "end_ok P i e \<longleftrightarrow>
     sock_good (ep_sock e) \<and> raw_ok (ep_buf e) \<and> raw_capacity (ep_buf e) \<noteq> 0 \<and> enable_recv (ep_sock e) \<and>
     sockfd (ep_sock e) \<in> {Some (le_fd P i), None} \<and>
     list_all (\<lambda>p. packet_ok p \<and> 0 < packet_size p) (ep_tasks e) \<and>
     list_all (\<lambda>p. None \<notin> set (payload p)) (ep_tasks e) \<and> None \<notin> set (ep_given e) \<and>
     ep_arrived e \<le> length (le_wire P (ep_kern e))"

text \<open>What has reached an end: what its user has been handed, and what waits to be read.\<close>

definition seen :: "('k \<Rightarrow> byte list) \<Rightarrow> ('k \<Rightarrow> block) \<Rightarrow> 'k endpoint \<Rightarrow> block" where
  "seen incoming got e = got (ep_kern e) @ map Some (incoming (ep_kern e))"

text \<open>Everything that side \<open>i\<close> has been given is somewhere on its way, in order.\<close>

definition flow ::
  "'k link_env \<Rightarrow> ('k \<Rightarrow> byte list) \<Rightarrow> ('k \<Rightarrow> block) \<Rightarrow> bool \<Rightarrow> (bool \<Rightarrow> 'k endpoint) \<Rightarrow> bool" where
  "flow P incoming got i L \<longleftrightarrow>
     (\<exists>lost. seen incoming got (L (\<not> i)) @ in_flight P (L i) @ lost @ unsent (ep_sock (L i)) = ep_given (L i) \<and>
        (lost = [] \<or> sockfd (ep_sock (L i)) = None))"

definition link_inv :: "'k link_env \<Rightarrow> ('k \<Rightarrow> byte list) \<Rightarrow> ('k \<Rightarrow> block) \<Rightarrow> (bool \<Rightarrow> 'k endpoint) \<Rightarrow> bool" where
  "link_inv P incoming got L \<longleftrightarrow> (\<forall>i. end_ok P i (L i) \<and> flow P incoming got i L)"

text \<open>A change of one end that moves bytes along its stream, or adds \<open>x\<close> to what it has been given.\<close>

definition end_moves ::
  "'k link_env \<Rightarrow> ('k \<Rightarrow> byte list) \<Rightarrow> ('k \<Rightarrow> block) \<Rightarrow> 'k endpoint \<Rightarrow> block \<Rightarrow> 'k endpoint \<Rightarrow> bool" where
  "end_moves P incoming got e x e' \<longleftrightarrow>
     seen incoming got e' = seen incoming got e \<and>
     ep_arrived e' = ep_arrived e \<and> ep_given e' = ep_given e @ x \<and>
     prefix (le_wire P (ep_kern e)) (le_wire P (ep_kern e')) \<and>
     (\<exists>lost. le_wire P (ep_kern e') @ lost @ unsent (ep_sock e') = le_wire P (ep_kern e) @ unsent (ep_sock e) @ x \<and>
        (lost = [] \<or> sockfd (ep_sock e') = None)) \<and>
     (sockfd (ep_sock e) = None \<longrightarrow> sockfd (ep_sock e') = None \<and> x = [] \<and>
        le_wire P (ep_kern e') = le_wire P (ep_kern e) \<and> unsent (ep_sock e') = unsent (ep_sock e))"

lemma flow_moves:
  assumes "flow P incoming got i L" and "end_moves P incoming got (L i) x e'"
    and "ep_arrived (L i) \<le> length (le_wire P (ep_kern (L i)))"
  shows "flow P incoming got i (L(i := e'))"
proof -
  let ?w = "le_wire P (ep_kern (L i))" and ?w' = "le_wire P (ep_kern e')" and ?n = "ep_arrived (L i)"
  define A where "A = seen incoming got (L (\<not> i))"
  obtain lost0 where l0: "A @ drop ?n ?w @ lost0 @ unsent (ep_sock (L i)) = ep_given (L i)"
    "lost0 = [] \<or> sockfd (ep_sock (L i)) = None"
    using assms(1) by (auto simp: flow_def in_flight_def A_def)
  note m = assms(2) [unfolded end_moves_def]
  show ?thesis
  proof (cases "sockfd (ep_sock (L i)) = None")
    case True
    with m have "sockfd (ep_sock e') = None" "ep_given e' = ep_given (L i)" "?w' = ?w"
      "unsent (ep_sock e') = unsent (ep_sock (L i))" "ep_arrived e' = ?n" by auto
    with l0(1) show ?thesis unfolding flow_def in_flight_def A_def by auto
  next
    case False
    with l0(2) have "lost0 = []" by simp
    obtain lost where l: "?w' @ lost @ unsent (ep_sock e') = ?w @ unsent (ep_sock (L i)) @ x"
      "lost = [] \<or> sockfd (ep_sock e') = None" using m by blast
    have "?n \<le> length ?w'" using m assms(3) prefix_length_le by fastforce
    then have "drop ?n ?w' @ lost @ unsent (ep_sock e') = drop ?n (?w' @ lost @ unsent (ep_sock e'))" by simp
    also have "\<dots> = drop ?n ?w @ unsent (ep_sock (L i)) @ x" unfolding l(1) using assms(3) by simp
    finally have "A @ drop ?n ?w' @ lost @ unsent (ep_sock e') = ep_given e'"
      using l0(1) \<open>lost0 = []\<close> m by simp
    with l(2) m show ?thesis unfolding flow_def in_flight_def A_def by auto
  qed
qed

lemma link_inv_moves:
  assumes "link_inv P incoming got L" and "end_moves P incoming got (L i) x e'" and "end_ok P i e'"
  shows "link_inv P incoming got (L(i := e'))"
proof -
  have i: "end_ok P i (L i)" "flow P incoming got i L" using assms(1) by (simp_all add: link_inv_def)
  have "flow P incoming got i (L(i := e'))"
    by (rule flow_moves [OF i(2) assms(2)]) (use i(1) in \<open>simp add: end_ok_def\<close>)
  moreover have "flow P incoming got (\<not> i) (L(i := e'))"
  proof -
    have "flow P incoming got (\<not> i) L" using assms(1) by (simp add: link_inv_def)
    moreover have "seen incoming got e' = seen incoming got (L i)" using assms(2) by (simp add: end_moves_def)
    ultimately show ?thesis by (auto simp: flow_def in_flight_def)
  qed
  moreover have "end_ok P (\<not> i) ((L(i := e')) (\<not> i))" using assms(1) by (auto simp: link_inv_def)
  ultimately have "end_ok P j ((L(i := e')) j) \<and> flow P incoming got j (L(i := e'))" for j
    using assms(3) by (cases i; cases j) auto
  then show ?thesis by (simp add: link_inv_def)
qed

section \<open>Steps of the link\<close>

text \<open>The bytes that side \<open>i\<close> asks to send, and those that its next run of tasks is to send.\<close>

fun turn_after :: "bool \<Rightarrow> link_event \<Rightarrow> byte list list \<Rightarrow> byte list list" where
  "turn_after i (LSend j bs) t = (if i = j then bs # t else t)"
| "turn_after i (LRun j) t = (if i = j then [] else t)"
| "turn_after i _ t = t"

fun given_by :: "bool \<Rightarrow> link_event \<Rightarrow> byte list list \<Rightarrow> byte list" where
  "given_by i (LRun j) t = (if i = j then concat t else [])"
| "given_by i _ t = []"

fun sent_bytes :: "bool \<Rightarrow> link_event \<Rightarrow> nat" where
  "sent_bytes i (LSend j bs) = (if i = j then length bs else 0)"
| "sent_bytes i _ = 0"

definition turn_is :: "byte list list \<Rightarrow> 'k endpoint \<Rightarrow> bool" where
  "turn_is t e \<longleftrightarrow> concat (map payload (ep_tasks e)) = map Some (concat t)"

text \<open>What a step does to what an end has been given; a closed end is given nothing.\<close>

definition effect :: "bool \<Rightarrow> link_event \<Rightarrow> 'k endpoint \<Rightarrow> 'k endpoint \<Rightarrow> bool" where
  "effect i ev e e' \<longleftrightarrow>
     (sockfd (ep_sock e) = None \<longrightarrow> sockfd (ep_sock e') = None \<and> ep_given e' = ep_given e) \<and>
     (\<forall>t. sockfd (ep_sock e) \<noteq> None \<and> turn_is t e \<longrightarrow>
        ep_given e' = ep_given e @ map Some (given_by i ev t) \<and>
        (sockfd (ep_sock e') = None \<or> turn_is (turn_after i ev t) e'))"

definition step_ok ::
  "'k link_env \<Rightarrow> ('k \<Rightarrow> byte list) \<Rightarrow> ('k \<Rightarrow> block) \<Rightarrow> link_event \<Rightarrow> (bool \<Rightarrow> 'k endpoint) \<Rightarrow>
   (bool \<Rightarrow> 'k endpoint) \<Rightarrow> bool" where
  "step_ok P incoming got ev L L' \<longleftrightarrow>
     link_inv P incoming got L' \<and>
     (\<forall>i. load (L' i) \<le> load (L i) + sent_bytes i ev \<and> effect i ev (L i) (L' i))"

lemma step_ok_upd:
  assumes "link_inv P incoming got L" and "end_moves P incoming got (L i) x e'" and "end_ok P i e'"
    and "load e' \<le> load (L i) + sent_bytes i ev" and "effect i ev (L i) e'"
    and other: "\<And>j t. j \<noteq> i \<Longrightarrow> turn_after j ev t = t \<and> given_by j ev t = []"
  shows "step_ok P incoming got ev L (L(i := e'))"
proof -
  have "effect j ev (L j) (L j)" if "j \<noteq> i" for j
    using other [OF that] by (simp add: effect_def)
  then have "load ((L(i := e')) j) \<le> load (L j) + sent_bytes j ev \<and> effect j ev (L j) ((L(i := e')) j)" for j
    using assms(4,5) by simp
  with link_inv_moves [OF assms(1-3)] show ?thesis by (simp add: step_ok_def)
qed

lemma batch_ok_load:
  assumes "list_all (\<lambda>p. packet_ok p \<and> 0 < packet_size p) ps"
    and "sum_list (map (\<lambda>p. unat (packet_size p)) ps) < 2 ^ 31"
  shows "batch_ok ps"
proof -
  have "length ps \<le> sum_list (map (\<lambda>p. unat (packet_size p)) ps)"
    using assms(1)
  proof (induction ps)
    case (Cons p ps)
    then have "0 < unat (packet_size p)" by (simp add: word_less_nat_alt)
    with Cons show ?case by simp
  qed simp
  moreover have "sum_list (map (\<lambda>p. uint (packet_size p)) ps) = int (sum_list (map (\<lambda>p. unat (packet_size p)) ps))"
    by (induction ps) simp_all
  ultimately show ?thesis using assms by (simp add: batch_ok_def)
qed

lemma link_send_step:
  assumes inv: "link_inv P incoming got L" and tcp: "fd_type (le_fd P i) = SOCK_TCP"
    and bs: "bs \<noteq> []" and room: "load (L i) + length bs < 2 ^ 31"
  shows "\<exists>L'. exec_link P (LSend i bs) L = Some L' \<and> step_ok P incoming got (LSend i bs) L L'"
proof (cases "sockfd (ep_sock (L i))")
  case None
  have "Send bs (int (length bs)) None 0 (ep_sock (L i)) = Inr (-1, None)"
    by (rule Send_closed) (use bs room None in auto)
  then have "exec_link P (LSend i bs) L = Some (L(i := L i))" by (simp add: link_send_def)
  moreover have "step_ok P incoming got (LSend i bs) L (L(i := L i))"
    by (rule step_ok_upd [OF inv, where x = "[]"])
      (use inv None in \<open>auto simp: end_moves_def effect_def link_inv_def\<close>)
  ultimately show ?thesis by blast
next
  case (Some fd)
  have ok: "end_ok P i (L i)" using inv by (simp add: link_inv_def)
  with Some tcp have "fd_type fd = SOCK_TCP" by (simp add: end_ok_def)
  from Send_packet [OF _ _ order.refl Some this, where addr = None and len = 0 and buf = bs] bs room obtain p where
    p: "Send bs (int (length bs)) None 0 (ep_sock (L i)) = Inr (0, Some p)" "packet_ok p" "0 < packet_size p"
      "unat (packet_size p) = length bs" "payload p = map Some bs" by auto
  let ?e = "(L i)\<lparr>ep_tasks := p # ep_tasks (L i)\<rparr>"
  have "exec_link P (LSend i bs) L = Some (L(i := ?e))" using p(1) by (simp add: link_send_def)
  moreover have "step_ok P incoming got (LSend i bs) L (L(i := ?e))"
  proof (rule step_ok_upd [OF inv, where x = "[]"])
    show "end_ok P i ?e" using ok p by (auto simp: end_ok_def)
    show "end_moves P incoming got (L i) [] ?e" by (auto simp: end_moves_def seen_def)
    show "effect i (LSend i bs) (L i) ?e"
      using p(5) Some by (simp add: effect_def turn_is_def)
    show "load ?e \<le> load (L i) + sent_bytes i (LSend i bs)" using p(4) by (simp add: load_def)
  qed auto
  ultimately show ?thesis by blast
qed

lemma run_sends:
  assumes "env_ok E wire" and "out_frame E fd0 incoming got"
  shows "sockfd sk = Some fd \<Longrightarrow> \<exists>k b. fold (run_send E) ps (sk, gv) =
      (sk\<lparr>send_buf_waiting := send_buf_waiting sk @ ps, kern_st := k, sending := b\<rparr>, gv @ concat (map payload ps)) \<and>
    wire k = wire (kern_st sk) \<and> incoming k = incoming (kern_st sk) \<and> got k = got (kern_st sk)"
proof (induction ps arbitrary: sk gv)
  case Nil
  show ?case by (intro exI [of _ "kern_st sk"] exI [of _ "sending sk"]) simp
next
  case (Cons p ps)
  define sk1 where "sk1 = send_task E fd p sk"
  obtain k b where sk1: "sk1 = sk\<lparr>send_buf_waiting := send_buf_waiting sk @ [p], kern_st := k, sending := b\<rparr>"
    and k: "wire k = wire (kern_st sk)" "incoming k = incoming (kern_st sk)" "got k = got (kern_st sk)"
  proof (cases "sending sk")
    case True
    then have "sk1 = sk\<lparr>send_buf_waiting := send_buf_waiting sk @ [p], kern_st := kern_st sk, sending := sending sk\<rparr>"
      by (simp add: sk1_def send_task_def Let_def)
    with that show ?thesis by blast
  next
    case False
    then have "sk1 = sk\<lparr>send_buf_waiting := send_buf_waiting sk @ [p],
        kern_st := env_modify E (raw_fd fd) (event_mask sk OR PE_ERROR OR PE_WRITE) (kern_st sk), sending := True\<rparr>"
      by (simp add: sk1_def send_task_def Let_def start_writeable_event_def event_mask_def)
    moreover have "wire (env_modify E a m k) = wire k" "incoming (env_modify E a m k) = incoming k"
      "got (env_modify E a m k) = got k" for a m k
      using assms by (simp_all add: env_ok_def out_frame_def)
    ultimately show ?thesis using that by blast
  qed
  have "sockfd sk1 = Some fd" using sk1 Cons.prems by simp
  from Cons.IH [OF this, of "gv @ payload p"] obtain k' b' where
    f: "fold (run_send E) ps (sk1, gv @ payload p) =
      (sk1\<lparr>send_buf_waiting := send_buf_waiting sk1 @ ps, kern_st := k', sending := b'\<rparr>,
       (gv @ payload p) @ concat (map payload ps))"
    "wire k' = wire (kern_st sk1) \<and> incoming k' = incoming (kern_st sk1) \<and> got k' = got (kern_st sk1)" by blast
  have "run_send E p (sk, gv) = (sk1, gv @ payload p)" using Cons.prems by (simp add: run_send_def sk1_def)
  with f sk1 k show ?case by (intro exI [of _ k'] exI [of _ b']) simp
qed

lemma fold_closed: "sockfd (fst s) = None \<Longrightarrow> fold (run_send E) ps s = s"
  by (induction ps) (simp_all add: run_send_def)

lemma payload_length: "packet_ok p \<Longrightarrow> length (payload p) \<le> unat (packet_size p)"
  by (simp add: payload_def)

lemma link_run_step:
  assumes inv: "link_inv P incoming got L" and law: "link_law P incoming got \<mu> \<rho>"
    and room: "load (L i) < 2 ^ 31"
  shows "\<exists>L'. exec_link P (LRun i) L = Some L' \<and> step_ok P incoming got (LRun i) L L'"
proof -
  have ok: "end_ok P i (L i)" using inv by (simp add: link_inv_def)
  have "step_ok P incoming got (LRun i) L (L(i := link_run (le_sock P i) (L i)))"
  proof (cases "sockfd (ep_sock (L i))")
    case None
    then have e: "link_run (le_sock P i) (L i) = (L i)\<lparr>ep_tasks := []\<rparr>"
      by (simp add: link_run_def fold_closed)
    show ?thesis unfolding e
    proof (rule step_ok_upd [OF inv, where x = "[]"])
      show "end_ok P i ((L i)\<lparr>ep_tasks := []\<rparr>)" using ok by (simp add: end_ok_def)
    qed (use None in \<open>auto simp: end_moves_def seen_def effect_def load_def\<close>)
  next
    case (Some fd)
    have "env_ok (le_sock P i) (le_wire P)" "out_frame (le_sock P i) (le_fd P i) incoming got"
      using law by (simp_all add: link_law_def end_law_def stream_ok_def)
    from run_sends [OF this Some, of "ep_tasks (L i)" "ep_given (L i)"] obtain k b where
      f: "fold (run_send (le_sock P i)) (ep_tasks (L i)) (ep_sock (L i), ep_given (L i)) =
        ((ep_sock (L i))\<lparr>send_buf_waiting := send_buf_waiting (ep_sock (L i)) @ ep_tasks (L i), kern_st := k, sending := b\<rparr>,
         ep_given (L i) @ concat (map payload (ep_tasks (L i))))"
      "le_wire P k = le_wire P (ep_kern (L i))" "incoming k = incoming (ep_kern (L i))" "got k = got (ep_kern (L i))"
      by blast
    let ?sk = "(ep_sock (L i))\<lparr>send_buf_waiting := send_buf_waiting (ep_sock (L i)) @ ep_tasks (L i), kern_st := k, sending := b\<rparr>"
    let ?x = "concat (map payload (ep_tasks (L i)))"
    let ?e = "(L i)\<lparr>ep_sock := ?sk, ep_given := ep_given (L i) @ ?x, ep_tasks := []\<rparr>"
    have e: "link_run (le_sock P i) (L i) = ?e" using f(1) by (simp add: link_run_def)
    have "batch_ok (send_buf_waiting (ep_sock (L i)) @ ep_tasks (L i))"
    proof (rule batch_ok_load)
      show "list_all (\<lambda>p. packet_ok p \<and> 0 < packet_size p) (send_buf_waiting (ep_sock (L i)) @ ep_tasks (L i))"
        using ok by (simp add: end_ok_def sock_good_def batch_ok_def)
    qed (use room in \<open>simp add: load_def\<close>)
    moreover have "None \<notin> set ?x" using ok by (auto simp: end_ok_def list_all_iff)
    ultimately have "end_ok P i ?e" using ok f(2) by (simp add: end_ok_def sock_good_def)
    moreover have "end_moves P incoming got (L i) ?x ?e"
      using f(2-4) Some by (simp add: end_moves_def seen_def unsent_def)
    moreover have "effect i (LRun i) (L i) ?e" using Some by (simp add: effect_def turn_is_def)
    moreover have "load ?e \<le> load (L i) + sent_bytes i (LRun i)" by (simp add: load_def)
    ultimately show ?thesis unfolding e by (intro step_ok_upd [OF inv]) auto
  qed
  then show ?thesis by simp
qed

lemma link_event_step:
  assumes inv: "link_inv P incoming got L" and law: "link_law P incoming got \<mu> \<rho>"
  shows "\<exists>L'. exec_link P (LEvent i ev) L = Some L' \<and> step_ok P incoming got (LEvent i ev) L L' \<and>
    (has ev PE_READ \<longrightarrow> sockfd (ep_sock (L' i)) = None \<or> incoming (ep_kern (L' i)) = []) \<and> (\<forall>j. j \<noteq> i \<longrightarrow> L' j = L j)"
proof (cases "sockfd (ep_sock (L i))")
  case None
  then have "exec_link P (LEvent i ev) L = Some (L(i := L i))" by (simp add: link_event_def)
  moreover have "step_ok P incoming got (LEvent i ev) L (L(i := L i))"
    by (rule step_ok_upd [OF inv, where x = "[]"])
      (use inv None in \<open>auto simp: end_moves_def effect_def link_inv_def\<close>)
  ultimately show ?thesis using None by auto
next
  case (Some fd)
  let ?sk = "ep_sock (L i)"
  have ok: "end_ok P i (L i)" using inv by (simp add: link_inv_def)
  with Some have fd: "fd = le_fd P i" by (simp add: end_ok_def)
  have "end_law (le_sock P i) (le_recv P i) fd (le_wire P) incoming got \<mu> \<rho>"
    using law fd by (simp add: link_law_def)
  from attach_cb_carries [OF this, of "ep_buf (L i)" ?sk ev] ok obtain b sk' lost where
    a: "attach_cb (le_sock P i) (le_recv P i) False True fd ev (ep_buf (L i)) ?sk = Some (Inr (b, sk'))"
      "raw_ok b" "raw_capacity b \<noteq> 0" "carries incoming got (le_wire P) ?sk lost sk'"
      "has ev PE_READ \<longrightarrow> sockfd sk' = None \<or> incoming (kern_st sk') = []"
    unfolding end_ok_def by blast
  let ?e = "(L i)\<lparr>ep_buf := b, ep_sock := sk'\<rparr>"
  note c = a(4) [unfolded carries_def]
  have "exec_link P (LEvent i ev) L = Some (L(i := ?e))" using Some a(1) by (simp add: link_event_def)
  moreover have "step_ok P incoming got (LEvent i ev) L (L(i := ?e))"
  proof (rule step_ok_upd [OF inv, where x = "[]"])
    have "ep_arrived (L i) \<le> length (le_wire P (kern_st sk'))"
      using ok c prefix_length_le by (fastforce simp: end_ok_def)
    moreover have "sockfd sk' \<in> {Some (le_fd P i), None}" using c Some fd by auto
    ultimately show "end_ok P i ?e" using ok a(2,3) c by (simp add: end_ok_def)
    show "end_moves P incoming got (L i) [] ?e" using c Some by (auto simp: end_moves_def seen_def)
    show "effect i (LEvent i ev) (L i) ?e" using Some by (simp add: effect_def turn_is_def)
    show "load ?e \<le> load (L i) + sent_bytes i (LEvent i ev)" using c by (auto simp: load_def)
  qed auto
  ultimately show ?thesis using a(5) by (intro exI [of _ "L(i := ?e)"]) auto
qed

lemma link_close_step:
  assumes inv: "link_inv P incoming got L"
  shows "step_ok P incoming got (LClose i) L (L(i := upd_sock Close (L i)))"
proof (rule step_ok_upd [OF inv, where x = "[]"])
  have ok: "end_ok P i (L i)" using inv by (simp add: link_inv_def)
  then show "end_ok P i (upd_sock Close (L i))" by (simp add: end_ok_def upd_sock_def Close_def sock_good_def)
  show "end_moves P incoming got (L i) [] (upd_sock Close (L i))"
    by (simp add: end_moves_def upd_sock_def Close_def seen_def unsent_def)
qed (auto simp: effect_def upd_sock_def Close_def load_def)

lemma link_arrive_step:
  assumes inv: "link_inv P incoming got L" and law: "link_law P incoming got \<mu> \<rho>"
  shows "step_ok P incoming got (LArrive i m) L (link_arrive P i m L)"
proof -
  define d where "d = take m (in_flight P (L i))"
  let ?L = "link_arrive P i m L"
  have arr: "incoming (le_arrive P x k) = incoming k @ x" "got (le_arrive P x k) = got k"
    "le_wire P (le_arrive P x k) = le_wire P k" for x k using law by (simp_all add: link_law_def)
  have i: "?L i = (L i)\<lparr>ep_arrived := ep_arrived (L i) + length d\<rparr>"
    by (simp add: link_arrive_def Let_def d_def)
  have o: "?L (\<not> i) = upd_sock (\<lambda>sk. sk\<lparr>kern_st := le_arrive P (map the d) (kern_st sk)\<rparr>) (L (\<not> i))"
    by (simp add: link_arrive_def Let_def d_def)
  have ok: "end_ok P i (L i)" "end_ok P (\<not> i) (L (\<not> i))" "flow P incoming got i L" "flow P incoming got (\<not> i) L"
    using inv by (simp_all add: link_inv_def)
  have fl: "in_flight P (L i) = d @ in_flight P (?L i)"
  proof -
    have "in_flight P (?L i) = drop (length d) (in_flight P (L i))"
      unfolding i by (simp add: in_flight_def add.commute)
    moreover have "take (length d) (in_flight P (L i)) = d" by (auto simp: d_def min_def)
    ultimately show ?thesis using append_take_drop_id [of "length d" "in_flight P (L i)"] by simp
  qed
  from ok(3) obtain lost where l: "seen incoming got (L (\<not> i)) @ in_flight P (L i) @ lost @ unsent (ep_sock (L i)) =
      ep_given (L i)" "lost = [] \<or> sockfd (ep_sock (L i)) = None" by (auto simp: flow_def)
  have "None \<notin> set d"
  proof -
    have "set d \<subseteq> set (ep_given (L i))" unfolding l(1) [symmetric] fl by auto
    then show ?thesis using ok(1) by (auto simp: end_ok_def)
  qed
  then have "map Some (map the d) = d" by (induction d) auto
  then have "seen incoming got (?L (\<not> i)) = seen incoming got (L (\<not> i)) @ d"
    by (simp add: o seen_def upd_sock_def arr)
  then have "flow P incoming got i ?L"
    using l fl unfolding flow_def by (intro exI [of _ lost]) (simp add: i)
  moreover have "flow P incoming got (\<not> i) ?L"
    using ok(4) by (auto simp: flow_def seen_def in_flight_def i o upd_sock_def arr unsent_def)
  moreover have "length d \<le> length (in_flight P (L i))" by (simp add: d_def)
  then have "ep_arrived (L i) + length d \<le> length (le_wire P (ep_kern (L i)))"
    using ok(1) by (auto simp: end_ok_def in_flight_def)
  then have "end_ok P i (?L i)" using ok(1) by (simp add: i end_ok_def)
  moreover have "end_ok P (\<not> i) (?L (\<not> i))"
    using ok(2) by (simp add: o end_ok_def upd_sock_def arr sock_good_def)
  ultimately have "end_ok P j (?L j) \<and> flow P incoming got j ?L" for j by (cases i; cases j) auto
  moreover have "load (?L j) \<le> load (L j) \<and> effect j (LArrive i m) (L j) (?L j)" for j
  proof (cases "j = i")
    case True
    then show ?thesis unfolding True i by (simp add: load_def effect_def turn_is_def)
  next
    case False
    then have j: "j = (\<not> i)" by auto
    show ?thesis unfolding j o by (simp add: load_def effect_def turn_is_def upd_sock_def)
  qed
  ultimately show ?thesis by (simp add: step_ok_def link_inv_def)
qed

section \<open>Runs\<close>

text \<open>
  The bytes in the order in which they are to arrive: those of one turn of the poller in the reverse
  order of the calls, since \<open>AsyncFirst\<close> puts each task in front of the others.
\<close>

fun put_order :: "bool \<Rightarrow> link_event list \<Rightarrow> byte list list \<Rightarrow> byte list" where
  "put_order i [] t = []"
| "put_order i (ev # evs) t = given_by i ev t @ put_order i evs (turn_after i ev t)"

definition sendable :: "link_event \<Rightarrow> bool" where
  "sendable ev \<longleftrightarrow> (case ev of LSend i bs \<Rightarrow> bs \<noteq> [] | _ \<Rightarrow> True)"

lemma exec_link_ok:
  assumes inv: "link_inv P incoming got L" and law: "link_law P incoming got \<mu> \<rho>" and "sendable ev"
    and room: "\<forall>i. load (L i) + sent_bytes i ev < 2 ^ 31"
  shows "\<exists>L'. exec_link P ev L = Some L' \<and> step_ok P incoming got ev L L'"
proof (cases ev)
  case (LSend i bs)
  have "fd_type (le_fd P i) = SOCK_TCP" using law by (simp add: link_law_def end_law_def stream_ok_def)
  moreover have "load (L i) + length bs < 2 ^ 31" using room [rule_format, of i] LSend by simp
  ultimately show ?thesis
    using link_send_step [OF inv, of i bs] assms(3) LSend by (simp add: sendable_def)
next
  case (LRun i)
  have "load (L i) < 2 ^ 31" using room [rule_format, of i] LRun by simp
  with link_run_step [OF inv law] LRun show ?thesis by blast
next
  case (LEvent i e)
  with link_event_step [OF inv law, of i e] show ?thesis by blast
qed (use link_arrive_step [OF inv law] link_close_step [OF inv] in auto)

lemma effect_run:
  assumes "effect i ev e e1" and "sockfd (ep_sock e) = None \<or> turn_is t e"
    and "\<And>t. sockfd (ep_sock e1) = None \<or> turn_is t e1 \<Longrightarrow>
      \<exists>x. ep_given e2 = ep_given e1 @ map Some x \<and> prefix x (put_order i evs t) \<and>
        (sockfd (ep_sock e2) \<noteq> None \<longrightarrow> x = put_order i evs t)"
    and closed: "sockfd (ep_sock e1) = None \<Longrightarrow> ep_given e2 = ep_given e1 \<and> sockfd (ep_sock e2) = None"
  shows "\<exists>x. ep_given e2 = ep_given e @ map Some x \<and> prefix x (put_order i (ev # evs) t) \<and>
    (sockfd (ep_sock e2) \<noteq> None \<longrightarrow> x = put_order i (ev # evs) t)"
proof (cases "sockfd (ep_sock e) = None")
  case True
  then have "ep_given e2 = ep_given e \<and> sockfd (ep_sock e2) = None"
    using assms(1) closed by (simp add: effect_def)
  then show ?thesis by (intro exI [of _ "[]"]) simp
next
  case False
  with assms(1,2) have g: "ep_given e1 = ep_given e @ map Some (given_by i ev t)"
    and t: "sockfd (ep_sock e1) = None \<or> turn_is (turn_after i ev t) e1" by (auto simp: effect_def)
  from assms(3) [OF t] obtain x where "ep_given e2 = ep_given e1 @ map Some x"
    "prefix x (put_order i evs (turn_after i ev t))"
    "sockfd (ep_sock e2) \<noteq> None \<longrightarrow> x = put_order i evs (turn_after i ev t)" by blast
  with g show ?thesis by (intro exI [of _ "given_by i ev t @ x"]) simp
qed

lemma link_runs:
  assumes law: "link_law P incoming got \<mu> \<rho>"
  shows "link_inv P incoming got L \<Longrightarrow> list_all sendable evs \<Longrightarrow>
    (\<forall>i. load (L i) + sum_list (map (sent_bytes i) evs) < 2 ^ 31) \<Longrightarrow>
    \<exists>L'. iter_opt (exec_link P) evs L = Some L' \<and> link_inv P incoming got L' \<and>
      (\<forall>i. (sockfd (ep_sock (L i)) = None \<longrightarrow> ep_given (L' i) = ep_given (L i) \<and> sockfd (ep_sock (L' i)) = None) \<and>
        (\<forall>t. sockfd (ep_sock (L i)) = None \<or> turn_is t (L i) \<longrightarrow>
        (\<exists>x. ep_given (L' i) = ep_given (L i) @ map Some x \<and> prefix x (put_order i evs t) \<and>
          (sockfd (ep_sock (L' i)) \<noteq> None \<longrightarrow> x = put_order i evs t))))"
proof (induction evs arbitrary: L)
  case Nil
  then show ?case by auto
next
  case (Cons ev evs)
  have room: "load (L i) + sent_bytes i ev + sum_list (map (sent_bytes i) evs) < 2 ^ 31" for i
    using Cons.prems(3) [rule_format, of i] by simp
  then have "\<forall>i. load (L i) + sent_bytes i ev < 2 ^ 31" using add_lessD1 by blast
  with exec_link_ok [OF Cons.prems(1) law] Cons.prems(2) obtain L1 where
    L1: "exec_link P ev L = Some L1" "step_ok P incoming got ev L L1" by auto
  note st = L1(2) [unfolded step_ok_def]
  have "load (L1 i) + sum_list (map (sent_bytes i) evs) < 2 ^ 31" for i
    using st room [of i] by (meson add_le_mono1 le_less_trans)
  then have "\<forall>i. load (L1 i) + sum_list (map (sent_bytes i) evs) < 2 ^ 31" by blast
  moreover have "list_all sendable evs" using Cons.prems(2) by simp
  ultimately obtain L' where
    L': "iter_opt (exec_link P) evs L1 = Some L'" "link_inv P incoming got L'"
    and a: "\<forall>i. (sockfd (ep_sock (L1 i)) = None \<longrightarrow> ep_given (L' i) = ep_given (L1 i) \<and> sockfd (ep_sock (L' i)) = None) \<and>
        (\<forall>t. sockfd (ep_sock (L1 i)) = None \<or> turn_is t (L1 i) \<longrightarrow>
        (\<exists>x. ep_given (L' i) = ep_given (L1 i) @ map Some x \<and> prefix x (put_order i evs t) \<and>
          (sockfd (ep_sock (L' i)) \<noteq> None \<longrightarrow> x = put_order i evs t)))"
    using Cons.IH [OF conjunct1 [OF st]] by blast
  note c = a [rule_format, THEN conjunct1, rule_format] and x = a [rule_format, THEN conjunct2, rule_format]
  have "\<exists>x. ep_given (L' i) = ep_given (L i) @ map Some x \<and> prefix x (put_order i (ev # evs) t) \<and>
      (sockfd (ep_sock (L' i)) \<noteq> None \<longrightarrow> x = put_order i (ev # evs) t)"
    if "sockfd (ep_sock (L i)) = None \<or> turn_is t (L i)" for i t
  proof (rule effect_run [OF _ that])
    show "effect i ev (L i) (L1 i)" using st by blast
  qed (use x c in blast)+
  moreover have "ep_given (L' i) = ep_given (L i) \<and> sockfd (ep_sock (L' i)) = None"
    if "sockfd (ep_sock (L i)) = None" for i
    using st c [of i] that by (auto simp: effect_def)
  ultimately show ?case using L1(1) L' by auto
qed

lemma fresh_link_inv:
  assumes "\<forall>i. fresh_end P incoming got i (L i)"
  shows "link_inv P incoming got L" "load (L i) = 0" "turn_is [] (L i)" "ep_given (L i) = []"
proof -
  have f: "fresh_end P incoming got j (L j)" for j using assms by blast
  then have "end_ok P j (L j) \<and> flow P incoming got j L" for j
    using f [of "\<not> j"] by (auto simp: fresh_end_def end_ok_def flow_def seen_def in_flight_def unsent_def sock_good_def)
  then show "link_inv P incoming got L" by (simp add: link_inv_def)
  show "load (L i) = 0" "turn_is [] (L i)" "ep_given (L i) = []"
    using f [of i] by (simp_all add: fresh_end_def load_def turn_is_def)
qed

section \<open>Properties\<close>

definition total_sent :: "bool \<Rightarrow> link_event list \<Rightarrow> nat" where
  "total_sent i evs = sum_list (map (sent_bytes i) evs)"


text \<open>Two ends over the scripted kernel: one side sends, in two calls of one turn, and the other reads.\<close>

definition demo_link :: "demo_peer link_env" where
  "demo_link = \<lparr>le_sock = (\<lambda>_. demo_event_env), le_recv = (\<lambda>_. demo_event_recv), le_fd = (\<lambda>_. demo_fd),
     le_wire = snd \<circ> snd, le_arrive = (\<lambda>d ((inp, log), out). ((inp @ d, log), out))\<rparr>"

definition demo_end :: "demo_peer endpoint" where
  "demo_end = \<lparr>ep_sock = demo_event_sock\<lparr>send_buf_waiting := [], kern_st := (([], []), [Room 1, Err EINTR, Room 9], [])\<rparr>,
     ep_buf = raw_new 3, ep_tasks = [], ep_arrived = 0, ep_given = []\<rparr>"

lemma demo_frames:
  "out_frame demo_event_env demo_fd (fst \<circ> fst) (snd \<circ> fst)"
  "wire_grows demo_event_env demo_fd (snd \<circ> snd)"
  "in_frame demo_event_recv demo_fd (snd \<circ> snd)"
proof -
  show "out_frame demo_event_env demo_fd (fst \<circ> fst) (snd \<circ> fst)"
    using demo_event_laws(3) by (simp add: out_frame_def same_input_def demo_event_env_def)
  have "prefix (snd k) (snd (snd (script_stream k fd msg)))" for k fd msg
    by (induction k fd msg rule: script_stream.induct) (auto simp: Let_def)
  then show "wire_grows demo_event_env demo_fd (snd \<circ> snd)"
    by (simp add: wire_grows_def demo_event_env_def)
  show "in_frame demo_event_recv demo_fd (snd \<circ> snd)"
    by (auto simp: in_frame_def same_output_def demo_event_recv_def Let_def split: sum.splits)
qed

lemma demo_link_law:
  "link_law demo_link (fst \<circ> fst) (snd \<circ> fst) (\<lambda>k. length (fst (snd k))) (\<lambda>k. length (fst (fst k)))"
  using demo_frames demo_event_laws demo_event_stream
  by (simp add: link_law_def end_law_def demo_link_def split_beta)


end
