(* ===== verification/Logger.thy ===== *)
theory Logger
  imports Prelude "HOL-Library.Char_ord" "HOL-Library.List_Lexorder" "HOL-Library.AList"
begin

text \<open>
  \<^verbatim>\<open>utils/logger.cpp\<close> without its thread (that is in \<^theory_text>\<open>LogWriter\<close>): the registry of channels, the
  line a channel prints, the object that collects a message, \<^verbatim>\<open>print_time\<close> of \<^verbatim>\<open>utils/utils.cpp\<close> and
  the stopwatch of \<^verbatim>\<open>utils/time_ticker.h\<close>, which logs when it is destroyed. \<open>localtime\<close> and
  \<open>getpid\<close> are parameters.
\<close>

section \<open>Levels\<close>

datatype log_level = LTRACE | LDEBUG | LINFO | LWARN | LERROR

fun level_num :: "log_level \<Rightarrow> nat" where
  "level_num LTRACE = 0"
| "level_num LDEBUG = 1"
| "level_num LINFO = 2"
| "level_num LWARN = 3"
| "level_num LERROR = 4"

instantiation log_level :: linorder
begin

definition less_eq_log_level :: "log_level \<Rightarrow> log_level \<Rightarrow> bool" where
  "less_eq_log_level a b \<longleftrightarrow> level_num a \<le> level_num b"

definition less_log_level :: "log_level \<Rightarrow> log_level \<Rightarrow> bool" where
  "less_log_level a b \<longleftrightarrow> level_num a < level_num b"

lemma level_num_inj: "level_num a = level_num b \<Longrightarrow> a = b"
  by (cases a; cases b) simp_all

instance
  by standard (auto simp: less_eq_log_level_def less_log_level_def intro: level_num_inj)

end

text \<open>The table of colours and letters.\<close>

fun log_color :: "log_level \<Rightarrow> string" where
  "log_color LTRACE = CHR 0x1B # ''[34m''"
| "log_color LDEBUG = CHR 0x1B # ''[32m''"
| "log_color LINFO = CHR 0x1B # ''[36m''"
| "log_color LWARN = CHR 0x1B # ''[33m''"
| "log_color LERROR = CHR 0x1B # ''[31m''"

fun log_letter :: "log_level \<Rightarrow> string" where
  "log_letter LTRACE = ''T''"
| "log_letter LDEBUG = ''D''"
| "log_letter LINFO = ''I''"
| "log_letter LWARN = ''W''"
| "log_letter LERROR = ''E''"

section \<open>Printing numbers and times\<close>

definition digit :: "nat \<Rightarrow> char" where
  "digit n = char_of (48 + n)"

fun digits :: "nat \<Rightarrow> string" where
  "digits n = (if n < 10 then [digit n] else digits (n div 10) @ [digit (n mod 10)])"

declare digits.simps [simp del]

text \<open>\<open>%d\<close> and \<open>%0wd\<close>.\<close>

definition dec :: "int \<Rightarrow> string" where
  "dec i = (if i < 0 then CHR ''-'' # digits (nat (- i)) else digits (nat i))"

definition dec0 :: "nat \<Rightarrow> int \<Rightarrow> string" where
  "dec0 w i =
     (let s = digits (nat \<bar>i\<bar>); sign = (if i < 0 then ''-'' else [])
      in sign @ replicate (w - length sign - length s) CHR ''0'' @ s)"

record tm =
  tm_year :: int
  tm_mon :: int
  tm_mday :: int
  tm_hour :: int
  tm_min :: int
  tm_sec :: int

record timeval =
  tv_sec :: int
  tv_usec :: int

text \<open>\<open>snprintf\<close> cuts the text off at 127 characters.\<close>

definition print_time :: "(int \<Rightarrow> tm) \<Rightarrow> timeval \<Rightarrow> string" where
  "print_time localtime tv =
     (let tm = localtime (tv_sec tv)
      in take 127
        (dec (1900 + tm_year tm) @ ''-'' @ dec0 2 (1 + tm_mon tm) @ ''-'' @ dec0 2 (tm_mday tm) @ '' '' @
         dec0 2 (tm_hour tm) @ '':'' @ dec0 2 (tm_min tm) @ '':'' @ dec0 2 (tm_sec tm) @ ''.'' @
         dec0 3 (tv_usec tv div 1000)))"

section \<open>The line of a message\<close>

record log_context =
  lc_level :: log_level
  lc_line :: int
  lc_file :: string
  lc_tid :: int
  lc_function :: string
  lc_tv :: timeval
  lc_str :: string

record log_channel =
  ch_name :: string
  ch_level :: log_level

text \<open>
  The channels are shared objects in a heap; the registry is a map ordered by name.
\<close>

record logger =
  lg_heap :: "nat \<Rightarrow> log_channel"
  lg_channels :: "(string \<times> nat) list"
  lg_name :: string

definition log_format ::
  "(int \<Rightarrow> tm) \<Rightarrow> int \<Rightarrow> logger \<Rightarrow> log_context \<Rightarrow> bool \<Rightarrow> bool \<Rightarrow> string" where
  "log_format localtime pid lg ctx enable_color enable_detail =
     (if \<not> enable_detail \<and> lc_str ctx = [] then []
      else (if enable_color then log_color (lc_level ctx) else []) @
           print_time localtime (lc_tv ctx) @ '' '' @ log_letter (lc_level ctx) @ '' '' @
           (if enable_detail
            then lg_name lg @ ''['' @ dec pid @ '']'' @ ''['' @ dec (lc_tid ctx) @ '']'' @ lc_file ctx @
                 '':'' @ dec (lc_line ctx) @ '' '' @ lc_function ctx @ '' | ''
            else []) @
           lc_str ctx @ (if enable_color then CHR 0x1B # ''[0m'' else []) @ [CHR 0x0A])"

text \<open>\<open>ConsoleChannel::Write\<close>: what it appends to the standard output.\<close>

definition ConsoleChannel_Write ::
  "(int \<Rightarrow> tm) \<Rightarrow> int \<Rightarrow> logger \<Rightarrow> log_channel \<Rightarrow> log_context \<Rightarrow> string" where
  "ConsoleChannel_Write localtime pid lg ch ctx =
     (if lc_level ctx < ch_level ch then [] else log_format localtime pid lg ctx True True)"

section \<open>The registry\<close>

text \<open>The ordered map: \<open>m[k] = v\<close>.\<close>

fun map_put :: "'k::linorder \<Rightarrow> 'v \<Rightarrow> ('k \<times> 'v) list \<Rightarrow> ('k \<times> 'v) list" where
  "map_put k v [] = [(k, v)]"
| "map_put k v ((k', v') # xs) =
     (if k < k' then (k, v) # (k', v') # xs
      else if k = k' then (k, v) # xs
      else (k', v') # map_put k v xs)"

definition AddChannel :: "nat \<Rightarrow> logger \<Rightarrow> logger" where
  "AddChannel c lg = lg\<lparr>lg_channels := map_put (ch_name (lg_heap lg c)) c (lg_channels lg)\<rparr>"

definition RemoveChannel :: "string \<Rightarrow> logger \<Rightarrow> logger" where
  "RemoveChannel name lg = lg\<lparr>lg_channels := AList.delete name (lg_channels lg)\<rparr>"

definition GetChannel :: "string \<Rightarrow> logger \<Rightarrow> nat option" where
  "GetChannel name lg = map_of (lg_channels lg) name"

definition channel_SetLevel :: "log_level \<Rightarrow> nat \<Rightarrow> logger \<Rightarrow> logger" where
  "channel_SetLevel l c lg = lg\<lparr>lg_heap := (lg_heap lg)(c := (lg_heap lg c)\<lparr>ch_level := l\<rparr>)\<rparr>"

definition SetLevel :: "log_level \<Rightarrow> logger \<Rightarrow> logger" where
  "SetLevel l lg = fold (\<lambda>(_, c). channel_SetLevel l c) (lg_channels lg) lg"

definition write_channels :: "(int \<Rightarrow> tm) \<Rightarrow> int \<Rightarrow> log_context \<Rightarrow> logger \<Rightarrow> string" where
  "write_channels localtime pid ctx lg =
     concat (map (\<lambda>(_, c). ConsoleChannel_Write localtime pid lg (lg_heap lg c) ctx) (lg_channels lg))"

section \<open>Collecting a message\<close>

text \<open>
  A \<open>LogContextCapturer\<close> holds a context until it is written or cleared. \<open>out\<close> is what the logger's
  writer has been given; \<open>Logger::Write\<close> drops the context when there is no writer.
\<close>

definition logger_Write :: "bool \<Rightarrow> log_context \<Rightarrow> log_context list \<Rightarrow> log_context list" where
  "logger_Write has_writer ctx out = (if has_writer then out @ [ctx] else out)"

type_synonym capturer = "log_context option"

definition cap_put :: "string \<Rightarrow> capturer \<Rightarrow> capturer" where
  "cap_put s c = map_option (\<lambda>ctx. ctx\<lparr>lc_str := lc_str ctx @ s\<rparr>) c"

definition cap_endl ::
  "bool \<Rightarrow> capturer \<Rightarrow> log_context list \<Rightarrow> capturer \<times> log_context list" where
  "cap_endl has_writer c out =
     (case c of None \<Rightarrow> (None, out) | Some ctx \<Rightarrow> (None, logger_Write has_writer ctx out))"

text \<open>The copy constructor takes the context over: the copy, and what is left of the original.\<close>

definition cap_copy :: "capturer \<Rightarrow> capturer \<times> capturer" where
  "cap_copy c = (c, None)"

definition cap_clear :: "capturer \<Rightarrow> capturer" where
  "cap_clear c = None"

definition cap_destroy :: "bool \<Rightarrow> capturer \<Rightarrow> log_context list \<Rightarrow> log_context list" where
  "cap_destroy has_writer c out = snd (cap_endl has_writer c out)"

lemma fold_cap_put: "fold cap_put ps (Some ctx) = Some (ctx\<lparr>lc_str := lc_str ctx @ concat ps\<rparr>)"
  by (induction ps arbitrary: ctx) (simp_all add: cap_put_def)

section \<open>The stopwatch\<close>

record ticker =
  create_time_ms :: u64
  begin_time_ms :: u64
  ticker_ctx :: capturer
  min_ms :: u64

definition ticker_new :: "u64 \<Rightarrow> u64 \<Rightarrow> capturer \<Rightarrow> bool \<Rightarrow> ticker" where
  "ticker_new now mn ctx print_log =
     (let (own, _) = cap_copy ctx
      in \<lparr>create_time_ms = now, begin_time_ms = now,
          ticker_ctx = (if \<not> print_log then cap_clear own else own), min_ms = mn\<rparr>)"

definition ElapsedTimeMS :: "u64 \<Rightarrow> ticker \<Rightarrow> u64" where
  "ElapsedTimeMS now t = now - begin_time_ms t"

definition CreateTimeMS :: "u64 \<Rightarrow> ticker \<Rightarrow> u64" where
  "CreateTimeMS now t = now - create_time_ms t"

definition ticker_Reset :: "u64 \<Rightarrow> ticker \<Rightarrow> ticker" where
  "ticker_Reset now t = t\<lparr>begin_time_ms := now\<rparr>"

text \<open>The destructor, and that of the capturer it contains.\<close>

definition ticker_destroy :: "bool \<Rightarrow> u64 \<Rightarrow> ticker \<Rightarrow> log_context list \<Rightarrow> log_context list" where
  "ticker_destroy has_writer now t out =
     (let tm = CreateTimeMS now t
      in if min_ms t < tm
         then (case cap_endl has_writer
                      (cap_put (dec (uint tm)) (cap_put ''take time: '' (ticker_ctx t))) out of
                 (c, out') \<Rightarrow> cap_destroy has_writer c out')
         else cap_destroy has_writer (cap_clear (ticker_ctx t)) out)"

section \<open>The ordered map\<close>

abbreviation key_sorted :: "('k::linorder \<times> 'v) list \<Rightarrow> bool" where
  "key_sorted xs \<equiv> sorted_wrt (<) (map fst xs)"

lemma map_put_keys: "fst ` set (map_put k v xs) = insert k (fst ` set xs)"
  by (induction k v xs rule: map_put.induct) (simp_all add: insert_commute)

lemma map_put_sorted: "key_sorted xs \<Longrightarrow> key_sorted (map_put k v xs)"
proof (induction xs)
  case (Cons p xs)
  then show ?case
    using map_put_keys [of k v xs] by (cases p) (auto simp: image_iff)
qed simp

lemma map_of_put: "key_sorted xs \<Longrightarrow> map_of (map_put k v xs) = (map_of xs)(k \<mapsto> v)"
proof (induction xs)
  case (Cons p xs)
  obtain k' v' where p: "p = (k', v')" by (cases p)
  have "map_of xs k = None" if "k < k'"
  proof -
    have "k \<notin> fst ` set xs" using Cons.prems that p by auto
    then show ?thesis by (simp add: map_of_eq_None_iff)
  qed
  with Cons p show ?case by (auto simp: fun_eq_iff)
qed simp

lemma sorted_distinct_keys: "key_sorted xs \<Longrightarrow> distinct (map fst xs)"
  by (rule strict_sorted_iff [THEN iffD1, THEN conjunct2])

lemma delete_sorted: "key_sorted xs \<Longrightarrow> key_sorted (AList.delete k xs)"
  by (simp add: AList.delete_eq sorted_wrt_map sorted_wrt_filter)

text \<open>In a map with distinct keys, the entries with a property are as many as their keys.\<close>

lemma length_filter_card:
  assumes "distinct (map fst xs)"
  shows "length (filter (\<lambda>(k, v). P v) xs) = card {k. \<exists>v. map_of xs k = Some v \<and> P v}"
proof -
  have "{k. \<exists>v. map_of xs k = Some v \<and> P v} = fst ` set (filter (\<lambda>(k, v). P v) xs)"
    using assms by (force simp: image_iff)
  moreover have "distinct (map fst (filter (\<lambda>(k, v). P v) xs))"
    using assms by (rule distinct_map_filter)
  ultimately show ?thesis by (metis distinct_card length_map set_map)
qed

section \<open>The registry and its lines\<close>

lemma SetLevel_fields:
  "lg_channels (fold (\<lambda>(_, c). channel_SetLevel l c) cs lg) = lg_channels lg \<and>
   lg_name (fold (\<lambda>(_, c). channel_SetLevel l c) cs lg) = lg_name lg \<and>
   lg_heap (fold (\<lambda>(_, c). channel_SetLevel l c) cs lg) =
     (\<lambda>c. if c \<in> snd ` set cs then (lg_heap lg c)\<lparr>ch_level := l\<rparr> else lg_heap lg c)"
proof (induction cs arbitrary: lg)
  case (Cons p cs)
  show ?case
    using Cons.IH [of "channel_SetLevel l (snd p) lg"]
    by (auto simp: channel_SetLevel_def fun_eq_iff case_prod_beta)
qed simp

lemma SetLevel_simps [simp]:
  "lg_channels (SetLevel l lg) = lg_channels lg" "lg_name (SetLevel l lg) = lg_name lg"
  "lg_heap (SetLevel l lg) =
     (\<lambda>c. if c \<in> snd ` set (lg_channels lg) then (lg_heap lg c)\<lparr>ch_level := l\<rparr> else lg_heap lg c)"
  using SetLevel_fields [of l "lg_channels lg" lg] by (simp_all add: SetLevel_def)

lemma write_channels_filter:
  "write_channels localtime pid ctx lg =
     concat (replicate (length (filter (\<lambda>(_, c). ch_level (lg_heap lg c) \<le> lc_level ctx) (lg_channels lg)))
       (log_format localtime pid lg ctx True True))"
proof -
  have "concat (map (\<lambda>(_, c). ConsoleChannel_Write localtime pid lg (lg_heap lg c) ctx) cs) =
     concat (replicate (length (filter (\<lambda>(_, c). ch_level (lg_heap lg c) \<le> lc_level ctx) cs))
       (log_format localtime pid lg ctx True True))" for cs :: "(string \<times> nat) list"
    by (induction cs) (auto simp: ConsoleChannel_Write_def)
  then show ?thesis by (simp add: write_channels_def)
qed

datatype lg_op = OpAddChannel nat | OpRemoveChannel string | OpSetLevel log_level

fun exec_lg_op :: "lg_op \<Rightarrow> logger \<Rightarrow> logger" where
  "exec_lg_op (OpAddChannel c) lg = AddChannel c lg"
| "exec_lg_op (OpRemoveChannel n) lg = RemoveChannel n lg"
| "exec_lg_op (OpSetLevel l) lg = SetLevel l lg"

text \<open>What the registry should be: a finite map from names to channels.\<close>

fun spec_lg_op :: "(nat \<Rightarrow> string) \<Rightarrow> lg_op \<Rightarrow> (string \<rightharpoonup> nat) \<Rightarrow> (string \<rightharpoonup> nat)" where
  "spec_lg_op nm (OpAddChannel c) m = m(nm c \<mapsto> c)"
| "spec_lg_op nm (OpRemoveChannel n) m = m(n := None)"
| "spec_lg_op nm (OpSetLevel l) m = m"

definition lg_rel :: "(nat \<Rightarrow> string) \<Rightarrow> logger \<Rightarrow> (string \<rightharpoonup> nat) \<Rightarrow> bool" where
  "lg_rel nm lg m \<longleftrightarrow>
     key_sorted (lg_channels lg) \<and> map_of (lg_channels lg) = m \<and> (\<forall>c. ch_name (lg_heap lg c) = nm c)"

lemma lg_op_rel: "lg_rel nm lg m \<Longrightarrow> lg_rel nm (exec_lg_op op lg) (spec_lg_op nm op m)"
  by (cases op)
     (auto simp: lg_rel_def AddChannel_def RemoveChannel_def map_put_sorted map_of_put delete_sorted
        delete_conv)

lemma lg_ops_rel: "lg_rel nm lg m \<Longrightarrow> lg_rel nm (fold exec_lg_op ops lg) (fold (spec_lg_op nm) ops m)"
  by (induction ops arbitrary: lg m) (auto intro: lg_op_rel)

section \<open>Properties\<close>

definition logger_new :: "(nat \<Rightarrow> log_channel) \<Rightarrow> string \<Rightarrow> logger" where
  "logger_new h name = \<lparr>lg_heap = h, lg_channels = [], lg_name = name\<rparr>"

definition logger_after :: "(nat \<Rightarrow> log_channel) \<Rightarrow> string \<Rightarrow> lg_op list \<Rightarrow> logger" where
  "logger_after h name ops = fold exec_lg_op ops (logger_new h name)"

definition registry_after :: "(nat \<Rightarrow> log_channel) \<Rightarrow> lg_op list \<Rightarrow> string \<rightharpoonup> nat" where
  "registry_after h ops = fold (spec_lg_op (\<lambda>c. ch_name (h c))) ops Map.empty"

lemma write_channels_registry:
  "write_channels localtime pid ctx (logger_after h name ops) =
     concat (replicate
       (card {n. \<exists>c. registry_after h ops n = Some c \<and> ch_level (lg_heap (logger_after h name ops) c) \<le> lc_level ctx})
       (log_format localtime pid (logger_after h name ops) ctx True True))"
proof -
  have "lg_rel (\<lambda>c. ch_name (h c)) (logger_new h name) Map.empty"
    by (simp add: lg_rel_def logger_new_def)
  from lg_ops_rel [OF this] have "lg_rel (\<lambda>c. ch_name (h c)) (logger_after h name ops) (registry_after h ops)"
    unfolding logger_after_def registry_after_def .
  then have "map_of (lg_channels (logger_after h name ops)) = registry_after h ops"
    and "distinct (map fst (lg_channels (logger_after h name ops)))"
    by (auto simp: lg_rel_def intro: sorted_distinct_keys)
  then show ?thesis
    using length_filter_card [of "lg_channels (logger_after h name ops)"
        "\<lambda>c. ch_level (lg_heap (logger_after h name ops) c) \<le> lc_level ctx"]
    by (simp add: write_channels_filter)
qed

text \<open>
  Property C32. After any series of \<open>AddChannel\<close>, \<open>RemoveChannel\<close> and \<open>SetLevel\<close>, the registry is the map
  from names to the channels last added under them, and a message is printed exactly once for
  each registered channel whose level admits it; after a further \<open>SetLevel\<close> it is printed for all
  of them or for none.
\<close>

theorem write_channels_exact:
  "let lg = logger_after h name ops; m = registry_after h ops
   in (\<forall>n. GetChannel n lg = m n) \<and>
    write_channels localtime pid ctx lg =
      concat (replicate (card {n. \<exists>c. m n = Some c \<and> ch_level (lg_heap lg c) \<le> lc_level ctx})
        (log_format localtime pid lg ctx True True)) \<and>
    write_channels localtime pid ctx (SetLevel l lg) =
      (if l \<le> lc_level ctx
       then concat (replicate (card (dom m)) (log_format localtime pid (SetLevel l lg) ctx True True))
       else [])"
proof -
  define lg where "lg = logger_after h name ops"
  define m where "m = registry_after h ops"
  have "lg_rel (\<lambda>c. ch_name (h c)) (logger_new h name) Map.empty"
    by (simp add: lg_rel_def logger_new_def)
  from lg_ops_rel [OF this] have rel: "lg_rel (\<lambda>c. ch_name (h c)) lg m"
    unfolding lg_def m_def logger_after_def registry_after_def .
  then have m: "map_of (lg_channels lg) = m" and d: "distinct (map fst (lg_channels lg))"
    by (auto simp: lg_rel_def intro: sorted_distinct_keys)
  have "write_channels localtime pid ctx (SetLevel l lg) =
      (if l \<le> lc_level ctx
       then concat (replicate (card (dom m)) (log_format localtime pid (SetLevel l lg) ctx True True))
       else [])"
  proof -
    have "filter (\<lambda>(_, c). ch_level (lg_heap (SetLevel l lg) c) \<le> lc_level ctx) (lg_channels lg) =
        (if l \<le> lc_level ctx then lg_channels lg else [])"
      by (auto simp: filter_empty_conv filter_id_conv image_iff)
    moreover have "length (lg_channels lg) = card (dom m)"
      using length_filter_card [OF d, of "\<lambda>_. True"] m by (simp add: dom_def)
    ultimately show ?thesis by (simp add: write_channels_filter)
  qed
  then show ?thesis
    using length_filter_card [OF d, of "\<lambda>c. ch_level (lg_heap lg c) \<le> lc_level ctx"] m
    by (auto simp: GetChannel_def write_channels_filter lg_def m_def)
qed

datatype cap_op = CPut string | CEndl | CClear

fun exec_cap_op ::
  "bool \<Rightarrow> cap_op \<Rightarrow> capturer \<times> log_context list \<Rightarrow> capturer \<times> log_context list" where
  "exec_cap_op has_writer (CPut s) (c, out) = (cap_put s c, out)"
| "exec_cap_op has_writer CEndl (c, out) = cap_endl has_writer c out"
| "exec_cap_op has_writer CClear (c, out) = (cap_clear c, out)"

text \<open>The text put in before the message ends, and whether it ends by being cleared.\<close>

fun cap_text :: "cap_op list \<Rightarrow> string" where
  "cap_text (CPut s # ops) = s @ cap_text ops"
| "cap_text _ = []"

fun cap_cleared :: "cap_op list \<Rightarrow> bool" where
  "cap_cleared (CPut s # ops) = cap_cleared ops"
| "cap_cleared (CClear # _) = True"
| "cap_cleared _ = False"

lemma cap_spent: "fold (exec_cap_op hw) ops (None, out) = (None, out)"
proof (induction ops)
  case (Cons op ops)
  then show ?case by (cases op) (simp_all add: cap_put_def cap_endl_def cap_clear_def)
qed simp

lemma cap_run:
  "cap_destroy hw (fst (fold (exec_cap_op hw) ops (Some ctx, out)))
       (snd (fold (exec_cap_op hw) ops (Some ctx, out))) =
     out @ (if hw \<and> \<not> cap_cleared ops then [ctx\<lparr>lc_str := lc_str ctx @ cap_text ops\<rparr>] else [])"
proof (induction ops arbitrary: ctx)
  case Nil
  show ?case by (simp add: cap_destroy_def cap_endl_def logger_Write_def)
next
  case (Cons op ops)
  show ?case
    by (cases op)
       (simp_all add: cap_put_def cap_endl_def cap_clear_def cap_destroy_def logger_Write_def
          cap_spent Cons.IH [unfolded cap_destroy_def cap_endl_def])
qed

text \<open>
  A message is handed to the writer exactly once, with everything that was put in before
  its end in order, whether it ends by \<open>std::endl\<close> or by the end of the object that collects it,
  whatever is done to the object after that; and never when it is cleared first. An object whose
  message a copy has taken over writes nothing.
\<close>

theorem capturer_writes_once:
  "(case fold (exec_cap_op has_writer) ops (fst (cap_copy (Some ctx)), out) of
      (c, out') \<Rightarrow> cap_destroy has_writer c out') =
     out @ (if has_writer \<and> \<not> cap_cleared ops
            then [ctx\<lparr>lc_str := lc_str ctx @ cap_text ops\<rparr>] else []) \<and>
   (case fold (exec_cap_op has_writer) ops (snd (cap_copy (Some ctx)), out) of
      (c, out') \<Rightarrow> cap_destroy has_writer c out') = out"
  using cap_run [of has_writer ops ctx out]
  by (simp add: cap_copy_def case_prod_beta cap_spent cap_destroy_def cap_endl_def)

lemma fold_Reset: "\<exists>b. fold ticker_Reset resets t = t\<lparr>begin_time_ms := b\<rparr>"
proof (induction resets arbitrary: t)
  case Nil
  have "t = t\<lparr>begin_time_ms := begin_time_ms t\<rparr>" by simp
  then show ?case by (metis fold_simps(1))
next
  case (Cons r resets)
  obtain b where "fold ticker_Reset resets (ticker_Reset r t) = (ticker_Reset r t)\<lparr>begin_time_ms := b\<rparr>"
    using Cons.IH by blast
  then have "fold ticker_Reset (r # resets) t = t\<lparr>begin_time_ms := b\<rparr>"
    by (simp add: ticker_Reset_def)
  then show ?case by blast
qed

definition ticker_after :: "u64 list \<Rightarrow> u64 \<Rightarrow> u64 \<Rightarrow> log_context \<Rightarrow> bool \<Rightarrow> ticker" where
  "ticker_after resets start mn ctx print_log =
     fold ticker_Reset resets (ticker_new start mn (Some ctx) print_log)"

text \<open>
  A stopwatch logs one line when it ends, if it was to log at all and has run for longer
  than its threshold, with its age in milliseconds (as long as the clock has not gone back);
  resets do not count. When the clock has gone back, the age wraps, and the line is printed.
\<close>

theorem ticker_logs:
  "ticker_destroy True now (ticker_after resets start mn ctx print_log) out =
     (let age = (if start \<le> now then uint now - uint start else 2 ^ 64 + uint now - uint start)
      in out @ (if print_log \<and> uint mn < age
                then [ctx\<lparr>lc_str := lc_str ctx @ ''take time: '' @ dec age\<rparr>] else []))"
proof -
  obtain b where t: "ticker_after resets start mn ctx print_log =
      (ticker_new start mn (Some ctx) print_log)\<lparr>begin_time_ms := b\<rparr>"
    using fold_Reset unfolding ticker_after_def by blast
  have age: "uint (now - start) =
      (if start \<le> now then uint now - uint start else 2 ^ 64 + uint now - uint start)"
  proof (cases "start \<le> now")
    case True
    then show ?thesis by (simp add: uint_minus_simple_alt)
  next
    case False
    have "uint start < 2 ^ 64" using uint_lt2p [of start] by simp
    moreover have "0 \<le> uint now" by (rule uint_ge_0)
    moreover have "uint now < uint start" using False by (simp add: word_le_def)
    ultimately have "uint now - uint start < 0" "- (2 ^ 64) \<le> uint now - uint start" by linarith+
    then have "(uint now - uint start) mod 2 ^ 64 = 2 ^ 64 + (uint now - uint start)"
      using mod_pos_pos_trivial [of "uint now - uint start + 2 ^ 64" "2 ^ 64"]
      by (simp only: mod_add_self2)
    with False show ?thesis by (simp add: uint_word_ariths)
  qed
  show ?thesis
    unfolding t Let_def age [symmetric]
    by (cases print_log; cases "uint mn < uint (now - start)")
       (simp_all add: ticker_destroy_def ticker_new_def CreateTimeMS_def cap_copy_def cap_clear_def
          cap_put_def cap_endl_def cap_destroy_def logger_Write_def word_less_def Let_def)
qed

end
