(* ===== verification/SocketSetup.thy ===== *)
theory SocketSetup
  imports SocketEvents Logger
begin

text \<open>
  \<^verbatim>\<open>net/socket.cpp\<close>: the constructor of \<open>Socket\<close>, the callback for errors, and how a socket describes
  itself: \<open>GetIdentifier\<close>, by which the programs that use the library find their sockets again, and
  \<open>socket_log\<close>, which starts the lines that a socket logs.
\<close>

section \<open>A new socket\<close>

text \<open>
  \<open>Socket::Socket\<close> and \<open>Create\<close>. The fields have initialisers, except for \<open>socket_flags_\<close>: \<open>flags\<close> is
  whatever is in that place, and is what \<open>sendmsg\<close> will be given.
\<close>

definition Socket_new :: "int \<Rightarrow> errno \<Rightarrow> 'k \<Rightarrow> 'k socket" where
  "Socket_new flags e k =
     SetOnFlushed None
       \<lparr>sockfd = None, timer = False, connecting = False, send_buf_sending = [], send_buf_waiting = [],
        sending = True, enable_recv = True, flushed_cb = None, socket_flags = flags, reported = [],
        err_no = e, kern_st = k\<rparr>"

text \<open>Nothing is to be sent by a new socket, and what the operations on sockets rely on holds of it.\<close>

lemma Socket_new_ready:
  "sock_good (Socket_new flags e k)" "armed_for_write (Socket_new flags e k)"
  "unsent (Socket_new flags e k) = []" "\<not> IsConnected (Socket_new flags e k)"
  by (simp_all add: Socket_new_def SetOnFlushed_def sock_good_def armed_for_write_def unsent_def IsConnected_def)

section \<open>Errors\<close>

type_synonym 'k error_cb = "sock_exception \<Rightarrow> 'k socket \<Rightarrow> 'k socket"

definition SetOnError :: "'k error_cb option \<Rightarrow> 'k error_cb" where
  "SetOnError cb = (case cb of Some f \<Rightarrow> f | None \<Rightarrow> (\<lambda>err sk. sk))"

text \<open>
  The task that \<open>emit_error\<close> queues: \<open>alive\<close> says whether the weak reference to the socket can be
  locked. The errors in \<open>reported\<close> are taken oldest first.
\<close>

definition run_error_task :: "bool \<Rightarrow> 'k error_cb \<Rightarrow> sock_exception \<Rightarrow> 'k socket \<Rightarrow> 'k socket" where
  "run_error_task alive cb err sk = (if alive then cb err sk else sk)"

section \<open>The identifier\<close>

text \<open>\<open>ostream\<close> prints a pointer as its address in hexadecimal.\<close>

definition hex_digit :: "nat \<Rightarrow> char" where
  "hex_digit d = (if d < 10 then char_of (48 + d) else char_of (87 + d))"

fun hex :: "nat \<Rightarrow> string" where
  "hex n = (if n < 16 then [hex_digit n] else hex (n div 16) @ [hex_digit (n mod 16)])"

declare hex.simps [simp del]

definition GetIdentifier :: "nat \<Rightarrow> string" where
  "GetIdentifier this = ''0x'' @ hex this"

text \<open>Reading the digits back.\<close>

definition hex_val :: "char \<Rightarrow> nat" where
  "hex_val c = (if of_char c < (58 :: nat) then of_char c - 48 else of_char c - 87)"

lemma hex_val_digit [simp]: "d < 16 \<Longrightarrow> hex_val (hex_digit d) = d"
  by (auto simp: hex_val_def hex_digit_def of_char_of)

lemma hex_read: "foldl (\<lambda>a c. 16 * a + hex_val c) 0 (hex n) = n"
proof (induction n rule: hex.induct)
  case (1 n)
  then show ?case by (subst hex.simps) (simp add: mult.commute)
qed

lemma GetIdentifier_inj: "GetIdentifier p = GetIdentifier q \<longleftrightarrow> p = q"
  by (metis GetIdentifier_def append_same_eq hex_read same_append_eq)

section \<open>Logging\<close>

text \<open>
  \<open>socket_log\<close>: puts the identifier, and for a connection the two addresses, into the line that has
  been begun.
\<close>

definition socket_log :: "'k net_env \<Rightarrow> nat \<Rightarrow> 'k socket \<Rightarrow> capturer \<Rightarrow> ('k, capturer) state" where
  "socket_log N this sk l =
     (if sockfd sk = None then ret l
      else if IsConnected sk then do {
        local_ip \<leftarrow> sock_local_ip N sk;
        local_port \<leftarrow> sock_local_port N sk;
        peer_ip \<leftarrow> sock_peer_ip N sk;
        peer_port \<leftarrow> sock_peer_port N sk;
        ret (fold cap_put [GetIdentifier this, '' '', local_ip, '':'', dec (uint local_port), ''-->'', peer_ip, '':'',
               dec (uint peer_port)] l) }
      else ret (cap_put (GetIdentifier this) l))"

text \<open>A line that a socket logs begins with its identifier, unless the socket has been closed.\<close>

lemma socket_log_identifies:
  assumes "sockfd sk = Some fd"
  shows "\<exists>text k'. run_state (socket_log N this sk (Some ctx)) k =
    (Some (ctx\<lparr>lc_str := lc_str ctx @ GetIdentifier this @ text\<rparr>), k')"
proof (cases "fd_connected fd")
  case False
  with assms show ?thesis
    by (intro exI [of _ "[]"] exI [of _ k]) (simp add: socket_log_def IsConnected_def cap_put_def)
next
  case True
  obtain ip k1 where 1: "run_state (sock_local_ip N sk) k = (ip, k1)" by fastforce
  obtain p k2 where 2: "run_state (sock_local_port N sk) k1 = (p, k2)" by fastforce
  obtain pip k3 where 3: "run_state (sock_peer_ip N sk) k2 = (pip, k3)" by fastforce
  obtain pp k4 where 4: "run_state (sock_peer_port N sk) k3 = (pp, k4)" by fastforce
  have "run_state (socket_log N this sk (Some ctx)) k =
    (fold cap_put [GetIdentifier this, '' '', ip, '':'', dec (uint p), ''-->'', pip, '':'', dec (uint pp)] (Some ctx), k4)"
    using assms True 1 2 3 4 by (simp add: socket_log_def IsConnected_def del: fold_simps)
  then show ?thesis by (simp only: fold_cap_put) auto
qed

end
