(* ===== verification/SocketConnect.thy ===== *)
theory SocketConnect
  imports Socket
begin

text \<open>
  The life of a connection in \<^verbatim>\<open>net/socket.cpp\<close>: \<open>Connect\<close> with its timer and its two tasks of the
  poller, \<open>Listen\<close>, \<open>SetPeerSocket\<close>, \<open>Close\<close>, the destructors of \<open>Socket\<close> and \<open>SocketFD\<close>, and the
  callbacks that the poller calls. A step is one task, one event or one call of the user; a user's
  callback is always the last thing such a step does, so that what it does to the socket is a step
  of its own.

  The closures that \<open>Connect\<close> makes are shared through weak pointers: what is still alive decides
  whether a late task does anything. A call of \<open>Connect\<close> is identified by its number; \<open>timer\<close> and
  \<open>async_cb\<close> hold the number of the call that \<open>connect_timer_\<close> and \<open>async_connect_cb_\<close> belong to.
\<close>

text \<open>
  The tasks in the poller's list: the look-up and connecting of a call, the delivery of its
  descriptor (-1 if it failed), and the report of an error to the user.
\<close>

datatype cn_task = Resolve nat | Deliver nat int | Report sock_err_code

text \<open>The callbacks in the poller's table: waiting for the connection, or attached.\<close>

datatype cn_callback = Connecting nat | Attached

text \<open>
  \<open>cn_alive\<close>: the socket object exists; \<open>cn_open\<close>: the open descriptors that were made for it;
  \<open>cn_results\<close>, \<open>cn_errors\<close>: what the callbacks of \<open>Connect\<close> and \<open>error_cb_\<close> have been told.
\<close>

record connector =
  cn_alive :: bool
  cn_timer :: "nat option"
  cn_async_cb :: "nat option"
  cn_sockfd :: "sock_fd option"
  cn_next :: nat
  cn_queue :: "cn_task list"
  cn_events :: "int \<rightharpoonup> cn_callback"
  cn_open :: "int set"
  cn_results :: "(nat \<times> sock_err_code) list"
  cn_errors :: "sock_err_code list"

definition cn_init :: connector where
  "cn_init = \<lparr>cn_alive = True, cn_timer = None, cn_async_cb = None, cn_sockfd = None, cn_next = 0,
     cn_queue = [], cn_events = Map.empty, cn_open = {}, cn_results = [], cn_errors = []\<rparr>"

section \<open>Operations\<close>

text \<open>
  \<open>AddEvent\<close> with the outcome \<open>ok\<close> of \<open>epoll_ctl\<close>; \<open>emplace\<close> keeps an entry that is there already.
\<close>

definition cn_AddEvent :: "int \<Rightarrow> cn_callback \<Rightarrow> bool \<Rightarrow> connector \<Rightarrow> connector" where
  "cn_AddEvent fd cb ok s =
     (if ok \<and> fd \<notin> dom (cn_events s) then s\<lparr>cn_events := (cn_events s)(fd \<mapsto> cb)\<rparr> else s)"

definition cn_DelEvent :: "int \<Rightarrow> connector \<Rightarrow> connector" where
  "cn_DelEvent fd s = s\<lparr>cn_events := (cn_events s)(fd := None)\<rparr>"

text \<open>
  \<open>~SocketFD\<close> closes the descriptor in the callback of \<open>DelEvent\<close>, which is called only when the
  descriptor is in the table. (A connected one is shut down before, which changes nothing but the
  kernel's state of the connection.)
\<close>

definition SocketFD_delete :: "sock_fd \<Rightarrow> connector \<Rightarrow> connector" where
  "SocketFD_delete c s =
     (if raw_fd c \<in> dom (cn_events s)
      then (cn_DelEvent (raw_fd c) s)\<lparr>cn_open := cn_open s - {raw_fd c}\<rparr>
      else s)"

text \<open>\<open>sockfd_ = nullptr\<close>, and \<open>sockfd_ = sockfd\<close>; the socket holds the only lasting reference.\<close>

definition drop_sockfd :: "connector \<Rightarrow> connector" where
  "drop_sockfd s =
     (case cn_sockfd s of
        None \<Rightarrow> s
      | Some c \<Rightarrow> (SocketFD_delete c s)\<lparr>cn_sockfd := None\<rparr>)"

definition set_sockfd :: "sock_fd \<Rightarrow> connector \<Rightarrow> connector" where
  "set_sockfd c s = (drop_sockfd s)\<lparr>cn_sockfd := Some c\<rparr>"

definition SocketFD_new :: "int \<Rightarrow> sock_type \<Rightarrow> sock_fd" where
  "SocketFD_new fd t = \<lparr>raw_fd = fd, fd_type = t, fd_connected = False\<rparr>"

definition SetConnected :: "sock_fd \<Rightarrow> sock_fd" where
  "SetConnected c = c\<lparr>fd_connected := True\<rparr>"

definition cn_Close :: "connector \<Rightarrow> connector" where
  "cn_Close s = drop_sockfd (s\<lparr>cn_timer := None, cn_async_cb := None\<rparr>)"

text \<open>The closure \<open>connect_cb\<close>; it does nothing once the socket is gone.\<close>

definition connect_cb :: "nat \<Rightarrow> sock_err_code \<Rightarrow> connector \<Rightarrow> connector" where
  "connect_cb k err s =
     (if \<not> cn_alive s then s
      else
        (let s1 = s\<lparr>cn_timer := None, cn_async_cb := None\<rparr>;
             s2 = (if err \<noteq> ERR_SUCCESS then drop_sockfd s1 else s1)
         in s2\<lparr>cn_results := cn_results s2 @ [(k, err)]\<rparr>))"

text \<open>The closure \<open>async_connect_cb\<close>, called while the socket is alive.\<close>

definition async_connect_cb :: "nat \<Rightarrow> int \<Rightarrow> bool \<Rightarrow> connector \<Rightarrow> connector" where
  "async_connect_cb k fd ok s =
     (if fd = -1 then connect_cb k ERR_UNREACHABLE s
      else
        (let s1 = cn_AddEvent fd (Connecting k) ok (set_sockfd (SocketFD_new fd SOCK_TCP) s)
         in if \<not> ok then connect_cb k ERR_OTHER s1 else s1))"

text \<open>The look-up has the result \<open>fd\<close> and queues the delivery.\<close>

definition run_resolve :: "nat \<Rightarrow> int \<Rightarrow> connector \<Rightarrow> connector" where
  "run_resolve k fd s =
     s\<lparr>cn_queue := cn_queue s @ [Deliver k fd],
       cn_open := (if fd = -1 then cn_open s else insert fd (cn_open s))\<rparr>"

text \<open>The delivery: the callback is called if it is alive, otherwise the descriptor is closed.\<close>

definition run_deliver :: "nat \<Rightarrow> int \<Rightarrow> bool \<Rightarrow> connector \<Rightarrow> connector" where
  "run_deliver k fd ok s =
     (if cn_async_cb s = Some k then async_connect_cb k fd ok s
      else if fd \<noteq> -1 then s\<lparr>cn_open := cn_open s - {fd}\<rparr>
      else s)"

definition cn_Connect :: "connector \<Rightarrow> connector" where
  "cn_Connect s =
     (let s1 = cn_Close s; k = cn_next s1
      in s1\<lparr>cn_async_cb := Some k, cn_timer := Some k, cn_next := k + 1,
            cn_queue := cn_queue s1 @ [Resolve k]\<rparr>)"

text \<open>\<open>on_connected\<close>: \<open>err\<close> is the code \<open>get_socket_error\<close> returns, \<open>ok\<close> whether attaching succeeds.\<close>

definition on_connected :: "nat \<Rightarrow> sock_fd \<Rightarrow> sock_err_code \<Rightarrow> bool \<Rightarrow> connector \<Rightarrow> connector" where
  "on_connected k c err ok s =
     (if err \<noteq> ERR_SUCCESS then connect_cb k err s
      else
        (let s1 = s\<lparr>cn_sockfd := Some (SetConnected c)\<rparr>;
             s2 = cn_AddEvent (raw_fd c) Attached ok (cn_DelEvent (raw_fd c) s1)
         in connect_cb k (if \<not> ok then ERR_OTHER else err) s2))"

text \<open>
  \<open>listen\<close>: a TCP socket that cannot be registered is given up; for a UDP socket the result of
  attaching is not looked at.
\<close>

definition cn_listen :: "sock_fd \<Rightarrow> bool \<Rightarrow> connector \<Rightarrow> bool \<times> connector" where
  "cn_listen c ok s =
     (let s1 = cn_AddEvent (raw_fd c) Attached ok s
      in if fd_type c = SOCK_TCP \<and> \<not> ok then (False, SocketFD_delete c s1)
         else (True, set_sockfd c s1))"

text \<open>\<open>Listen\<close>: \<open>fd\<close> is the result of \<open>SocketUtils::Listen\<close>.\<close>

definition cn_Listen :: "sock_type \<Rightarrow> int \<Rightarrow> bool \<Rightarrow> connector \<Rightarrow> bool \<times> connector" where
  "cn_Listen t fd ok s =
     (let s1 = cn_Close s
      in if fd = -1 then (False, s1)
         else cn_listen (SocketFD_new fd t) ok (s1\<lparr>cn_open := insert fd (cn_open s1)\<rparr>))"

text \<open>
  An accepted descriptor: \<open>SetPeerSocket\<close> on a new socket, \<open>SetConnected\<close>, and then \<open>attach_event\<close>,
  whose failure is reported as an error of that socket.
\<close>

definition SetPeerSocket :: "int \<Rightarrow> connector \<Rightarrow> connector" where
  "SetPeerSocket fd s = set_sockfd (SocketFD_new fd SOCK_TCP) (cn_Close s)"

definition cn_emit_error :: "sock_err_code \<Rightarrow> connector \<Rightarrow> connector" where
  "cn_emit_error err s =
     (if cn_sockfd s = None then s
      else (let s1 = cn_Close s in s1\<lparr>cn_queue := cn_queue s1 @ [Report err]\<rparr>))"

definition cn_accepted :: "int \<Rightarrow> bool \<Rightarrow> connector \<Rightarrow> connector" where
  "cn_accepted fd ok s =
     (let s1 = SetPeerSocket fd (s\<lparr>cn_open := insert fd (cn_open s)\<rparr>);
          s2 = s1\<lparr>cn_sockfd := map_option SetConnected (cn_sockfd s1)\<rparr>;
          s3 = cn_AddEvent fd Attached ok s2
      in if \<not> ok then cn_emit_error ERR_OTHER s3 else s3)"

definition run_report :: "sock_err_code \<Rightarrow> connector \<Rightarrow> connector" where
  "run_report err s = (if cn_alive s then s\<lparr>cn_errors := cn_errors s @ [err]\<rparr> else s)"

text \<open>\<open>~Socket\<close>.\<close>

definition cn_destroy :: "connector \<Rightarrow> connector" where
  "cn_destroy s = (cn_Close s)\<lparr>cn_alive := False\<rparr>"

section \<open>Steps\<close>

datatype cn_event =
    EvConnect | EvListen sock_type int bool | EvAccepted int bool | EvClose | EvDestroy
  | EvResolve int | EvDeliver bool | EvReport | EvTimeout
  | EvWritable sock_err_code bool | EvError sock_err_code

text \<open>A descriptor that the system makes is not open yet.\<close>

definition new_or_failed :: "int \<Rightarrow> connector \<Rightarrow> bool" where
  "new_or_failed fd s \<longleftrightarrow> fd = -1 \<or> (0 \<le> fd \<and> fd \<notin> cn_open s)"

inductive cn_step :: "connector \<Rightarrow> cn_event \<Rightarrow> connector \<Rightarrow> bool" where
  connect: "cn_alive s \<Longrightarrow> cn_step s EvConnect (cn_Connect s)"
| listen: "cn_alive s \<Longrightarrow> new_or_failed fd (cn_Close s) \<Longrightarrow>
     cn_step s (EvListen t fd ok) (snd (cn_Listen t fd ok s))"
| accepted: "cn_alive s \<Longrightarrow> fd \<noteq> -1 \<Longrightarrow> new_or_failed fd s \<Longrightarrow>
     cn_step s (EvAccepted fd ok) (cn_accepted fd ok s)"
| close: "cn_alive s \<Longrightarrow> cn_step s EvClose (cn_Close s)"
| destroy: "cn_alive s \<Longrightarrow> cn_step s EvDestroy (cn_destroy s)"
| resolve: "cn_queue s = Resolve k # q \<Longrightarrow> new_or_failed fd s \<Longrightarrow>
     cn_step s (EvResolve fd) (run_resolve k fd (s\<lparr>cn_queue := q\<rparr>))"
| deliver: "cn_queue s = Deliver k fd # q \<Longrightarrow>
     cn_step s (EvDeliver ok) (run_deliver k fd ok (s\<lparr>cn_queue := q\<rparr>))"
| report: "cn_queue s = Report err # q \<Longrightarrow>
     cn_step s EvReport (run_report err (s\<lparr>cn_queue := q\<rparr>))"
| timeout: "cn_timer s = Some k \<Longrightarrow> cn_step s EvTimeout (connect_cb k ERR_TIMEOUT s)"
| writable: "cn_sockfd s = Some c \<Longrightarrow> cn_events s (raw_fd c) = Some (Connecting k) \<Longrightarrow>
     cn_step s (EvWritable err ok) (on_connected k c err ok s)"
| error: "cn_sockfd s = Some c \<Longrightarrow> cn_events s (raw_fd c) = Some Attached \<Longrightarrow>
     cn_step s (EvError err) (cn_emit_error err s)"

inductive cn_run :: "connector \<Rightarrow> cn_event list \<Rightarrow> connector \<Rightarrow> bool" where
  cn_nil: "cn_run s [] s"
| cn_snoc: "cn_run s evs s1 \<Longrightarrow> cn_step s1 ev s2 \<Longrightarrow> cn_run s (evs @ [ev]) s2"

named_theorems cn_defs \<open>the operations on a connection\<close>

lemmas [cn_defs] =
  cn_AddEvent_def cn_DelEvent_def SocketFD_delete_def drop_sockfd_def set_sockfd_def SocketFD_new_def
  cn_Close_def connect_cb_def async_connect_cb_def run_resolve_def run_deliver_def cn_Connect_def
  on_connected_def cn_listen_def cn_Listen_def SetPeerSocket_def SetConnected_def cn_emit_error_def cn_accepted_def run_report_def
  cn_destroy_def Let_def

section \<open>Invariants\<close>

text \<open>The descriptors that are on their way to a socket.\<close>

fun delivering :: "cn_task list \<Rightarrow> int list" where
  "delivering [] = []"
| "delivering (Deliver k fd # q) = (if fd = -1 then delivering q else fd # delivering q)"
| "delivering (_ # q) = delivering q"

lemma delivering_append [simp]: "delivering (q @ r) = delivering q @ delivering r"
  by (induction q rule: delivering.induct) auto

text \<open>Only the descriptor of the socket itself is in the table.\<close>

definition own_events :: "connector \<Rightarrow> bool" where
  "own_events s \<longleftrightarrow> (\<forall>fd \<in> dom (cn_events s). \<exists>c. cn_sockfd s = Some c \<and> raw_fd c = fd)"

lemma one_entry: "dom m = {x} \<Longrightarrow> m(x := None) = Map.empty"
proof (rule ext)
  fix y assume "dom m = {x}"
  then have "y = x \<or> y \<notin> dom m" by simp
  then show "(m(x := None)) y = None" by (auto simp: domIff)
qed

lemma own_dom: "own_events s \<Longrightarrow> cn_sockfd s = Some c \<Longrightarrow> dom (cn_events s) \<subseteq> {raw_fd c}"
  by (simp add: own_events_def subset_iff)

lemma drop_own:
  assumes "own_events s"
  shows "drop_sockfd s =
    s\<lparr>cn_sockfd := None, cn_events := Map.empty, cn_open := cn_open s - dom (cn_events s)\<rparr>"
proof (cases "cn_sockfd s")
  case None
  with assms have "cn_events s = Map.empty" by (auto simp: own_events_def)
  with None show ?thesis by (simp add: drop_sockfd_def)
next
  case (Some c)
  show ?thesis
  proof (cases "raw_fd c \<in> dom (cn_events s)")
    case True
    then have "dom (cn_events s) = {raw_fd c}" using own_dom [OF assms Some] by blast
    moreover from this have "(cn_events s)(raw_fd c := None) = Map.empty"
      by (rule one_entry)
    ultimately show ?thesis
      using Some by (simp add: drop_sockfd_def SocketFD_delete_def cn_DelEvent_def)
  next
    case False
    then have "dom (cn_events s) = {}" using own_dom [OF assms Some] by blast
    with Some show ?thesis by (simp add: drop_sockfd_def SocketFD_delete_def)
  qed
qed

definition cn_inv :: "connector \<Rightarrow> bool" where
  "cn_inv s \<longleftrightarrow>
     own_events s \<and> cn_async_cb s = cn_timer s \<and>
     (\<not> cn_alive s \<longrightarrow> cn_timer s = None \<and> cn_sockfd s = None) \<and>
     (\<forall>k. cn_timer s = Some k \<longrightarrow> k + 1 = cn_next s \<and> k \<notin> fst ` set (cn_results s)) \<and>
     distinct (map fst (cn_results s)) \<and> (\<forall>k \<in> fst ` set (cn_results s). k < cn_next s) \<and>
     (\<forall>fd k. cn_events s fd = Some (Connecting k) \<longrightarrow> cn_timer s = Some k)"

lemma cn_init_inv: "cn_inv cn_init"
  by (simp add: cn_inv_def cn_init_def own_events_def)

lemma cn_inv_own: "cn_inv s \<Longrightarrow> own_events s"
  by (simp add: cn_inv_def)

lemma Close_own:
  "own_events s \<Longrightarrow> cn_Close s =
    s\<lparr>cn_timer := None, cn_async_cb := None, cn_sockfd := None, cn_events := Map.empty,
      cn_open := cn_open s - dom (cn_events s)\<rparr>"
  unfolding cn_Close_def by (subst drop_own) (simp_all add: own_events_def)

lemma connect_cb_own:
  "own_events s \<Longrightarrow> cn_alive s \<Longrightarrow> connect_cb k err s =
    (if err = ERR_SUCCESS
     then s\<lparr>cn_timer := None, cn_async_cb := None, cn_results := cn_results s @ [(k, err)]\<rparr>
     else s\<lparr>cn_timer := None, cn_async_cb := None, cn_sockfd := None, cn_events := Map.empty,
            cn_open := cn_open s - dom (cn_events s), cn_results := cn_results s @ [(k, err)]\<rparr>)"
  using drop_own [of "s\<lparr>cn_timer := None, cn_async_cb := None\<rparr>"]
  by (simp add: connect_cb_def Let_def own_events_def)

text \<open>
  The operations, with the descriptor of the socket and its entry in the table taken away: how a
  socket that is connecting, or closed, goes on.
\<close>

lemma async_connect_cb_own:
  assumes "own_events s" and "cn_alive s"
  shows "async_connect_cb k fd ok s =
    (if fd = -1 then connect_cb k ERR_UNREACHABLE s
     else if ok
     then s\<lparr>cn_sockfd := Some (SocketFD_new fd SOCK_TCP), cn_events := [fd \<mapsto> Connecting k],
            cn_open := cn_open s - dom (cn_events s)\<rparr>
     else s\<lparr>cn_timer := None, cn_async_cb := None, cn_sockfd := None, cn_events := Map.empty,
            cn_open := cn_open s - dom (cn_events s), cn_results := cn_results s @ [(k, ERR_OTHER)]\<rparr>)"
proof -
  let ?s = "s\<lparr>cn_sockfd := Some (SocketFD_new fd SOCK_TCP), cn_events := Map.empty,
    cn_open := cn_open s - dom (cn_events s)\<rparr>"
  have set: "set_sockfd (SocketFD_new fd SOCK_TCP) s = ?s"
    using drop_own [OF assms(1)] by (simp add: set_sockfd_def)
  have "connect_cb k ERR_OTHER ?s =
      s\<lparr>cn_timer := None, cn_async_cb := None, cn_sockfd := None, cn_events := Map.empty,
        cn_open := cn_open s - dom (cn_events s), cn_results := cn_results s @ [(k, ERR_OTHER)]\<rparr>"
    using connect_cb_own [of ?s] assms(2) by (simp add: own_events_def)
  with set show ?thesis by (simp add: async_connect_cb_def Let_def cn_AddEvent_def)
qed

lemma on_connected_own:
  assumes "own_events s" and "cn_alive s" and "cn_sockfd s = Some c" and "raw_fd c \<in> dom (cn_events s)"
  shows "on_connected k c err ok s =
    (if err \<noteq> ERR_SUCCESS then connect_cb k err s
     else if ok
     then s\<lparr>cn_timer := None, cn_async_cb := None,
            cn_sockfd := Some (c\<lparr>fd_connected := True\<rparr>), cn_events := [raw_fd c \<mapsto> Attached],
            cn_results := cn_results s @ [(k, ERR_SUCCESS)]\<rparr>
     else s\<lparr>cn_timer := None, cn_async_cb := None, cn_sockfd := None, cn_events := Map.empty,
            cn_results := cn_results s @ [(k, ERR_OTHER)]\<rparr>)"
proof -
  have "dom (cn_events s) = {raw_fd c}" using own_dom [OF assms(1,3)] assms(4) by blast
  then have del: "(cn_events s)(raw_fd c := None) = Map.empty"
    by (rule one_entry)
  let ?s = "s\<lparr>cn_sockfd := Some (c\<lparr>fd_connected := True\<rparr>), cn_events := Map.empty\<rparr>"
  have e: "cn_AddEvent (raw_fd c) Attached ok (cn_DelEvent (raw_fd c) (s\<lparr>cn_sockfd := Some (c\<lparr>fd_connected := True\<rparr>)\<rparr>)) =
      (if ok then ?s\<lparr>cn_events := [raw_fd c \<mapsto> Attached]\<rparr> else ?s)"
    by (simp add: cn_AddEvent_def cn_DelEvent_def del)
  have "own_events ?s" "own_events (?s\<lparr>cn_events := [raw_fd c \<mapsto> Attached]\<rparr>)"
    by (auto simp: own_events_def)
  from this [THEN connect_cb_own] e assms(2) show ?thesis
    by (simp add: on_connected_def SetConnected_def Let_def)
qed

lemma emit_error_own:
  assumes "own_events s"
  shows "cn_emit_error err s =
    (if cn_sockfd s = None then s
     else s\<lparr>cn_timer := None, cn_async_cb := None, cn_sockfd := None, cn_events := Map.empty,
            cn_open := cn_open s - dom (cn_events s), cn_queue := cn_queue s @ [Report err]\<rparr>)"
  by (simp add: cn_emit_error_def Close_own [OF assms] Let_def)

lemma Listen_own:
  assumes "own_events s"
  shows "snd (cn_Listen t fd ok s) =
    (let s1 = s\<lparr>cn_timer := None, cn_async_cb := None, cn_sockfd := None, cn_events := Map.empty,
                cn_open := cn_open s - dom (cn_events s)\<rparr>
     in if fd = -1 then s1
        else if t = SOCK_TCP \<and> \<not> ok then s1\<lparr>cn_open := insert fd (cn_open s1)\<rparr>
        else s1\<lparr>cn_open := insert fd (cn_open s1), cn_sockfd := Some (SocketFD_new fd t),
                cn_events := (if ok then [fd \<mapsto> Attached] else Map.empty)\<rparr>)"
  by (simp add: cn_Listen_def cn_listen_def Close_own [OF assms] Let_def cn_AddEvent_def SocketFD_delete_def
      set_sockfd_def drop_sockfd_def SocketFD_new_def)

lemma accepted_own:
  assumes "own_events s"
  shows "cn_accepted fd ok s =
    (let s1 = s\<lparr>cn_timer := None, cn_async_cb := None, cn_sockfd := None, cn_events := Map.empty,
                cn_open := insert fd (cn_open s) - dom (cn_events s)\<rparr>
     in if ok
        then s1\<lparr>cn_sockfd := Some ((SocketFD_new fd SOCK_TCP)\<lparr>fd_connected := True\<rparr>),
                cn_events := [fd \<mapsto> Attached]\<rparr>
        else s1\<lparr>cn_queue := cn_queue s @ [Report ERR_OTHER]\<rparr>)"
proof -
  let ?s1 = "s\<lparr>cn_timer := None, cn_async_cb := None, cn_sockfd := Some (SocketFD_new fd SOCK_TCP),
    cn_events := Map.empty, cn_open := insert fd (cn_open s) - dom (cn_events s)\<rparr>"
  have "own_events (s\<lparr>cn_open := insert fd (cn_open s)\<rparr>)" using assms by (simp add: own_events_def)
  from Close_own [OF this] have s1: "SetPeerSocket fd (s\<lparr>cn_open := insert fd (cn_open s)\<rparr>) = ?s1"
    by (simp add: SetPeerSocket_def set_sockfd_def drop_sockfd_def)
  let ?s2 = "?s1\<lparr>cn_sockfd := Some ((SocketFD_new fd SOCK_TCP)\<lparr>fd_connected := True\<rparr>)\<rparr>"
  have "cn_emit_error ERR_OTHER ?s2 =
      ?s2\<lparr>cn_sockfd := None, cn_queue := cn_queue s @ [Report ERR_OTHER]\<rparr>"
    by (subst emit_error_own) (simp_all add: own_events_def)
  then show ?thesis by (simp add: cn_accepted_def SetConnected_def s1 Let_def cn_AddEvent_def)
qed

lemmas own_ops = Close_own connect_cb_own async_connect_cb_own on_connected_own emit_error_own
  Listen_own accepted_own

lemma own_upd [simp]:
  "own_events (s\<lparr>cn_queue := q\<rparr>) = own_events s"
  by (simp add: own_events_def)

lemma raw_new [simp]: "raw_fd (SocketFD_new fd t) = fd"
  by (simp add: SocketFD_new_def)

lemma cn_inv_timer:
  assumes "cn_inv s" and "cn_timer s = Some k"
  shows "k < cn_next s \<and> Suc k = cn_next s \<and> k \<notin> fst ` set (cn_results s) \<and> cn_alive s"
proof -
  from assms have "Suc k = cn_next s \<and> k \<notin> fst ` set (cn_results s)" "cn_alive s"
    by (auto simp: cn_inv_def)
  then show ?thesis by auto
qed

text \<open>An answer takes the running timer, and so the number of the call, out of play.\<close>

lemma answered_inv:
  assumes "cn_inv s" and "cn_timer s = Some k" and "own_events s'"
    and "cn_timer s' = None" "cn_async_cb s' = None" "cn_next s' = cn_next s" "cn_alive s' = cn_alive s"
    and "cn_results s' = cn_results s @ [(k, err)]" and "\<forall>fd k. cn_events s' fd \<noteq> Some (Connecting k)"
  shows "cn_inv s'"
proof -
  have t: "k < cn_next s" "k \<notin> fst ` set (cn_results s)" "cn_alive s"
    using cn_inv_timer [OF assms(1,2)] by auto
  show ?thesis
    using assms(3-9) assms(1) t unfolding cn_inv_def by auto
qed

lemma connect_cb_inv:
  assumes "cn_inv s" and "cn_timer s = Some k" and "err \<noteq> ERR_SUCCESS"
  shows "cn_inv (connect_cb k err s)"
proof -
  have "cn_alive s" using cn_inv_timer [OF assms(1,2)] by simp
  from connect_cb_own [OF cn_inv_own [OF assms(1)] this] show ?thesis
    by (intro answered_inv [OF assms(1,2)]) (simp_all add: assms(3) own_events_def)
qed

lemma cn_step_inv:
  assumes "cn_step s ev s'" and "cn_inv s"
  shows "cn_inv s'"
  using assms
proof (induction rule: cn_step.induct)
  case (connect s)
  then show ?case
    by (auto simp: cn_Connect_def Let_def own_ops cn_inv_own) (auto simp: cn_inv_def own_events_def)
next
  case (listen s fd t ok)
  then show ?case
    by (simp add: own_ops cn_inv_own Let_def) (auto simp: cn_inv_def own_events_def)
next
  case (accepted s fd ok)
  then show ?case
    by (simp add: own_ops cn_inv_own Let_def) (auto simp: cn_inv_def own_events_def)
next
  case (close s)
  then show ?case
    by (simp add: own_ops cn_inv_own Let_def) (auto simp: cn_inv_def own_events_def)
next
  case (destroy s)
  then show ?case
    by (simp add: cn_destroy_def own_ops cn_inv_own) (auto simp: cn_inv_def own_events_def)
next
  case (resolve s k q fd)
  then show ?case by (auto simp: cn_inv_def own_events_def run_resolve_def)
next
  case (deliver s k fd q ok)
  show ?case
  proof (cases "cn_async_cb s = Some k")
    case True
    then have t: "cn_alive s" "cn_timer s = Some k" using deliver.prems by (auto simp: cn_inv_def)
    have "k < cn_next s" by (rule cn_inv_timer [OF deliver.prems t(2), THEN conjunct1])
    with True deliver.prems t(1) show ?thesis
      by (simp add: run_deliver_def own_ops cn_inv_own) (auto simp: cn_inv_def own_events_def)
  next
    case False
    with deliver.prems show ?thesis by (auto simp: run_deliver_def cn_inv_def own_events_def)
  qed
next
  case (report s err q)
  then show ?case by (auto simp: cn_inv_def own_events_def run_report_def)
next
  case (timeout s k)
  then show ?case by (intro connect_cb_inv) simp_all
next
  case (writable s c k err ok)
  then have t: "cn_timer s = Some k" by (simp add: cn_inv_def)
  then have a: "cn_alive s" using cn_inv_timer [OF writable.prems] by simp
  have d: "raw_fd c \<in> dom (cn_events s)" using writable.hyps(2) by blast
  show ?case
  proof (cases "err = ERR_SUCCESS")
    case True
    show ?thesis
      by (rule answered_inv [OF writable.prems t, where err = "if ok then ERR_SUCCESS else ERR_OTHER"])
         (simp_all add: on_connected_own [OF cn_inv_own [OF writable.prems] a writable.hyps(1) d]
            True own_events_def a)
  next
    case False
    with connect_cb_inv [OF writable.prems t False] show ?thesis by (simp add: on_connected_def)
  qed
next
  case (error s c err)
  then show ?case
    by (simp add: own_ops cn_inv_own) (auto simp: cn_inv_def own_events_def)
qed

lemma cn_run_inv: "cn_run s evs s' \<Longrightarrow> cn_inv s \<Longrightarrow> cn_inv s'"
  by (induction rule: cn_run.induct) (auto intro: cn_step_inv)

section \<open>Answers\<close>

text \<open>A step answers only the call whose timer is running; a call without one stays without one.\<close>

lemma cn_step_settled:
  assumes "cn_step s ev s'" and "cn_inv s" and "cn_timer s \<noteq> Some k" and "k < cn_next s"
  shows "cn_timer s' \<noteq> Some k \<and> k < cn_next s' \<and>
    ((k, c) \<in> set (cn_results s') \<longleftrightarrow> (k, c) \<in> set (cn_results s))"
  using assms
proof (induction rule: cn_step.induct)
  case (connect s)
  then show ?case by (simp add: cn_Connect_def Let_def own_ops cn_inv_own)
next
  case (destroy s)
  then show ?case by (simp add: cn_destroy_def own_ops cn_inv_own)
next
  case (resolve s k q fd)
  then show ?case by (simp add: run_resolve_def)
next
  case (deliver s j fd q ok)
  show ?case
  proof (cases "cn_async_cb s = Some j")
    case True
    then have "cn_alive s" "cn_timer s = Some j"
      using deliver.prems by (auto simp: cn_inv_def)
    with True deliver.prems show ?thesis
      by (auto simp: run_deliver_def own_ops cn_inv_own)
  next
    case False
    with deliver.prems show ?thesis by (simp add: run_deliver_def)
  qed
next
  case (report s err q)
  then show ?case by (simp add: run_report_def)
next
  case (timeout s j)
  then have "cn_alive s" by (auto simp: cn_inv_def)
  with timeout show ?case by (auto simp: own_ops cn_inv_own)
next
  case (writable s c j err ok)
  then have "cn_alive s" "cn_timer s = Some j" by (auto simp: cn_inv_def)
  with writable show ?case by (auto simp: own_ops cn_inv_own domI)
qed (simp_all add: own_ops cn_inv_own Let_def)

lemma cn_run_settled:
  assumes "cn_run s evs s'" and "cn_inv s" and "cn_timer s \<noteq> Some k" and "k < cn_next s"
  shows "cn_timer s' \<noteq> Some k \<and> k < cn_next s' \<and>
    ((k, c) \<in> set (cn_results s') \<longleftrightarrow> (k, c) \<in> set (cn_results s))"
  using assms
proof (induction rule: cn_run.induct)
  case (cn_snoc s evs s1 ev s2)
  then show ?case using cn_step_settled [OF cn_snoc.hyps(2) cn_run_inv [OF cn_snoc.hyps(1)]] by metis
qed simp

section \<open>Descriptors\<close>

text \<open>Whether the registrations of a step succeed.\<close>

fun registers :: "cn_event \<Rightarrow> bool" where
  "registers (EvListen t fd ok) = ok"
| "registers (EvAccepted fd ok) = ok"
| "registers (EvDeliver ok) = ok"
| "registers (EvWritable err ok) = ok"
| "registers _ = True"

definition cn_tidy :: "connector \<Rightarrow> bool" where
  "cn_tidy s \<longleftrightarrow>
     cn_open s = set (delivering (cn_queue s)) \<union> dom (cn_events s) \<and>
     distinct (delivering (cn_queue s)) \<and>
     set (delivering (cn_queue s)) \<inter> dom (cn_events s) = {} \<and>
     (\<forall>c. cn_sockfd s = Some c \<longrightarrow> raw_fd c \<in> dom (cn_events s))"

lemma cn_step_tidy:
  assumes "cn_step s ev s'" and "cn_inv s" and "cn_tidy s" and "registers ev"
  shows "cn_tidy s'"
  using assms
proof (induction rule: cn_step.induct)
  case (connect s)
  then show ?case by (auto simp: cn_Connect_def Let_def own_ops cn_inv_own cn_tidy_def)
next
  case (listen s fd t ok)
  then show ?case
    by (auto simp: own_ops cn_inv_own Let_def cn_tidy_def new_or_failed_def)
next
  case (accepted s fd ok)
  then show ?case
    by (auto simp: own_ops cn_inv_own Let_def cn_tidy_def new_or_failed_def)
next
  case (close s)
  then show ?case by (auto simp: own_ops cn_inv_own cn_tidy_def)
next
  case (destroy s)
  then show ?case by (auto simp: cn_destroy_def own_ops cn_inv_own cn_tidy_def)
next
  case (resolve s k q fd)
  then show ?case by (auto simp: run_resolve_def cn_tidy_def new_or_failed_def)
next
  case (deliver s k fd q ok)
  show ?case
  proof (cases "cn_async_cb s = Some k")
    case True
    then have "cn_alive s" using deliver.prems by (auto simp: cn_inv_def)
    with True deliver show ?thesis
      by (auto simp: run_deliver_def own_ops cn_inv_own cn_tidy_def)
  next
    case False
    with deliver show ?thesis by (auto simp: run_deliver_def cn_tidy_def)
  qed
next
  case (report s err q)
  then show ?case by (auto simp: run_report_def cn_tidy_def)
next
  case (timeout s k)
  then have "cn_alive s" by (auto simp: cn_inv_def)
  with timeout show ?case by (auto simp: own_ops cn_inv_own cn_tidy_def)
next
  case (writable s c k err ok)
  then have "cn_alive s" by (auto simp: cn_inv_def)
  moreover have "dom (cn_events s) = {raw_fd c}"
    using own_dom [OF cn_inv_own [OF writable.prems(1)] writable.hyps(1)] writable.hyps(2) by blast
  ultimately show ?case
    using writable by (auto simp: own_ops cn_inv_own cn_tidy_def)
next
  case (error s c err)
  then show ?case by (auto simp: own_ops cn_inv_own cn_tidy_def)
qed

lemma cn_run_tidy:
  assumes "cn_run s evs s'" and "cn_inv s" and "cn_tidy s" and "list_all registers evs"
  shows "cn_tidy s'"
  using assms
proof (induction rule: cn_run.induct)
  case (cn_snoc s evs s1 ev s2)
  then show ?case using cn_step_tidy [OF cn_snoc.hyps(2) cn_run_inv [OF cn_snoc.hyps(1)]] by simp
qed simp

text \<open>A descriptor that is open and that nothing refers to.\<close>

definition leaked :: "int \<Rightarrow> connector \<Rightarrow> bool" where
  "leaked fd s \<longleftrightarrow>
     fd \<in> cn_open s \<and> fd \<notin> dom (cn_events s) \<and> fd \<notin> set (delivering (cn_queue s)) \<and>
     (\<forall>c. cn_sockfd s = Some c \<longrightarrow> raw_fd c \<noteq> fd)"

lemma cn_step_leaked:
  assumes "cn_step s ev s'" and "cn_inv s" and "leaked fd s"
  shows "leaked fd s'"
  using assms
proof (induction rule: cn_step.induct)
  case (connect s)
  then show ?case by (auto simp: cn_Connect_def Let_def own_ops cn_inv_own leaked_def)
next
  case (destroy s)
  then show ?case by (auto simp: cn_destroy_def own_ops cn_inv_own leaked_def)
next
  case (resolve s k q fd')
  then show ?case by (auto simp: run_resolve_def leaked_def new_or_failed_def)
next
  case (deliver s k fd' q ok)
  show ?case
  proof (cases "cn_async_cb s = Some k")
    case True
    then have "cn_alive s" using deliver.prems by (auto simp: cn_inv_def)
    with True deliver show ?thesis
      by (auto simp: run_deliver_def own_ops cn_inv_own leaked_def split: if_splits)
  next
    case False
    with deliver show ?thesis by (auto simp: run_deliver_def leaked_def split: if_splits)
  qed
next
  case (report s err q)
  then show ?case by (auto simp: run_report_def leaked_def)
next
  case (timeout s k)
  then have "cn_alive s" by (auto simp: cn_inv_def)
  with timeout show ?case by (auto simp: own_ops cn_inv_own leaked_def)
next
  case (writable s c k err ok)
  then have "cn_alive s" by (auto simp: cn_inv_def)
  with writable show ?case by (auto simp: own_ops cn_inv_own leaked_def domI)
qed (auto simp: own_ops cn_inv_own Let_def leaked_def new_or_failed_def)

lemma cn_run_leaked: "cn_run s evs s' \<Longrightarrow> cn_inv s \<Longrightarrow> leaked fd s \<Longrightarrow> leaked fd s'"
  by (induction rule: cn_run.induct) (auto dest: cn_step_leaked cn_run_inv)

section \<open>Properties\<close>

text \<open>
  Property C8. A call of \<open>Connect\<close> is answered at most once, and only while it is the latest call
  and has not been given up by \<open>Close\<close>, a new \<open>Connect\<close> or \<open>Listen\<close>, or the end of the socket: over
  any order of tasks, events, timeouts and calls of the user, no number is answered twice, the
  timer runs only for the latest call and only while it has no answer, and a call whose timer
  does not run gets no answer any more. As long as the timer runs, it can bring the answer.
\<close>

theorem connect_answered_once:
  assumes "cn_run cn_init evs s"
  shows "distinct (map fst (cn_results s)) \<and>
    (\<forall>k. cn_timer s = Some k \<longrightarrow>
       Suc k = cn_next s \<and> k \<notin> fst ` set (cn_results s) \<and>
       (\<exists>s'. cn_step s EvTimeout s' \<and> cn_results s' = cn_results s @ [(k, ERR_TIMEOUT)])) \<and>
    (\<forall>k c es s'. k < cn_next s \<and> cn_timer s \<noteq> Some k \<and> cn_run s es s' \<longrightarrow>
       ((k, c) \<in> set (cn_results s') \<longleftrightarrow> (k, c) \<in> set (cn_results s)))"
proof -
  have inv: "cn_inv s" by (rule cn_run_inv [OF assms cn_init_inv])
  have "\<exists>s'. cn_step s EvTimeout s' \<and> cn_results s' = cn_results s @ [(k, ERR_TIMEOUT)]"
    if "cn_timer s = Some k" for k
    using cn_step.timeout [OF that] connect_cb_own [OF cn_inv_own [OF inv], of k ERR_TIMEOUT]
      cn_inv_timer [OF inv that] by fastforce
  then show ?thesis
    using inv cn_inv_timer [OF inv] cn_run_settled [OF _ inv] by (auto simp: cn_inv_def)
qed

text \<open>
  Property C18. No descriptor is lost as long as registrations succeed: at every moment the open
  descriptors are those on their way to the socket and the one that is registered for it; so when
  the socket is gone, the last delivery closes the last of them.
\<close>

theorem connection_keeps_descriptors:
  assumes "cn_run cn_init evs s" and "list_all registers evs"
  shows "cn_open s = set (delivering (cn_queue s)) \<union> dom (cn_events s) \<and>
    (\<forall>fd \<in> dom (cn_events s). \<exists>c. cn_sockfd s = Some c \<and> raw_fd c = fd) \<and>
    (\<not> cn_alive s \<and> cn_queue s = [] \<longrightarrow> cn_open s = {})"
proof -
  have inv: "cn_inv s" by (rule cn_run_inv [OF assms(1) cn_init_inv])
  have "cn_tidy cn_init" by (simp add: cn_tidy_def cn_init_def)
  from cn_run_tidy [OF assms(1) cn_init_inv this assms(2)]
  have tidy: "cn_open s = set (delivering (cn_queue s)) \<union> dom (cn_events s)"
    by (simp add: cn_tidy_def)
  moreover have "\<forall>fd \<in> dom (cn_events s). \<exists>c. cn_sockfd s = Some c \<and> raw_fd c = fd"
    using cn_inv_own [OF inv] by (simp add: own_events_def)
  moreover have "dom (cn_events s) = {}" if "\<not> cn_alive s"
    using inv that by (auto simp: cn_inv_def own_events_def)
  ultimately show ?thesis by auto
qed

text \<open>
  Property C40. A registration that fails loses the descriptor: the user is told that the connection
  failed, but \<open>~SocketFD\<close> closes a descriptor only through the poller's table, so it stays open
  with nothing that refers to it, whatever happens afterwards.
\<close>

theorem failed_registration_leaks:
  assumes "cn_run cn_init evs s" and "cn_timer s = Some k" and "cn_queue s = Deliver k fd # q"
    and "fd \<noteq> -1" and "fd \<in> cn_open s" and "fd \<notin> dom (cn_events s)" and "fd \<notin> set (delivering q)"
  shows "\<exists>s'. cn_step s (EvDeliver False) s' \<and> (k, ERR_OTHER) \<in> set (cn_results s') \<and>
    cn_sockfd s' = None \<and> (\<forall>es s''. cn_run s' es s'' \<longrightarrow> leaked fd s'')"
proof -
  have inv: "cn_inv s" by (rule cn_run_inv [OF assms(1) cn_init_inv])
  let ?s = "run_deliver k fd False (s\<lparr>cn_queue := q\<rparr>)"
  have step: "cn_step s (EvDeliver False) ?s" by (rule cn_step.deliver [OF assms(3)])
  have "cn_async_cb s = Some k" "cn_alive s"
    using inv cn_inv_timer [OF inv assms(2)] assms(2) by (auto simp: cn_inv_def)
  then have s: "?s = s\<lparr>cn_queue := q, cn_timer := None, cn_async_cb := None, cn_sockfd := None,
      cn_events := Map.empty, cn_open := cn_open s - dom (cn_events s),
      cn_results := cn_results s @ [(k, ERR_OTHER)]\<rparr>"
    using assms(4) by (simp add: run_deliver_def async_connect_cb_own cn_inv_own [OF inv])
  have "leaked fd ?s" unfolding s using assms(5-7) by (auto simp: leaked_def)
  then have "\<forall>es s''. cn_run ?s es s'' \<longrightarrow> leaked fd s''"
    using cn_run_leaked [OF _ cn_step_inv [OF step inv]] by blast
  with step s show ?thesis by (intro exI [of _ ?s]) simp
qed

text \<open>A call of \<open>Connect\<close> whose descriptor 5 is about to be delivered.\<close>

definition demo_cn :: connector where
  "demo_cn = cn_init\<lparr>cn_async_cb := Some 0, cn_timer := Some 0, cn_next := 1,
     cn_queue := [Deliver 0 5], cn_open := {5}\<rparr>"

lemma demo_cn_run: "cn_run cn_init [EvConnect, EvResolve 5] demo_cn"
proof -
  have "cn_run cn_init ([] @ [EvConnect]) (cn_Connect cn_init)"
    by (rule cn_snoc [OF cn_nil connect]) (simp add: cn_init_def)
  moreover have "cn_step (cn_Connect cn_init) (EvResolve 5)
      (run_resolve 0 5 ((cn_Connect cn_init)\<lparr>cn_queue := []\<rparr>))"
    by (rule cn_step.resolve) (simp_all add: cn_defs cn_init_def new_or_failed_def)
  ultimately have "cn_run cn_init (([] @ [EvConnect]) @ [EvResolve 5])
      (run_resolve 0 5 ((cn_Connect cn_init)\<lparr>cn_queue := []\<rparr>))"
    by (rule cn_snoc)
  then show ?thesis by (simp add: demo_cn_def cn_defs cn_init_def)
qed

theorem connect_answered_once_witness:
  "\<exists>s'. cn_step demo_cn EvTimeout s' \<and> cn_results s' = [(0, ERR_TIMEOUT)]"
  using connect_answered_once [OF demo_cn_run] by (auto simp: demo_cn_def cn_init_def)

theorem connection_keeps_descriptors_witness:
  "cn_open demo_cn = {5}"
  using connection_keeps_descriptors [OF demo_cn_run] by (simp add: demo_cn_def cn_init_def)

theorem failed_registration_leaks_witness:
  "\<exists>s'. cn_step demo_cn (EvDeliver False) s' \<and> (0, ERR_OTHER) \<in> set (cn_results s') \<and> leaked 5 s'"
proof -
  have "\<exists>s'. cn_step demo_cn (EvDeliver False) s' \<and> (0, ERR_OTHER) \<in> set (cn_results s') \<and>
      cn_sockfd s' = None \<and> (\<forall>es s''. cn_run s' es s'' \<longrightarrow> leaked 5 s'')"
    by (rule failed_registration_leaks [OF demo_cn_run, where q = "[]"])
      (simp_all add: demo_cn_def cn_init_def)
  then show ?thesis using cn_nil by blast
qed

end
