(* ===== verification/SocketLife.thy ===== *)
theory SocketLife
  imports SocketConnect SocketEvents
begin

text \<open>
  The two halves of \<^verbatim>\<open>net/socket.cpp\<close> together: the connection of \<^theory_text>\<open>SocketConnect\<close> and the data path
  of \<^theory_text>\<open>SocketEvents\<close> as one object, over its whole life on the poller's thread - calls of the user,
  tasks, timeouts, and the events of the descriptor with all that they do to the socket. Whatever
  happens on the data path is, for the connection, a run of the steps of \<^theory_text>\<open>SocketConnect\<close>.
\<close>

section \<open>The whole socket\<close>

text \<open>
  \<open>w_cn\<close> and \<open>w_sk\<close> are the two views of the same object; \<open>w_buf\<close> is \<open>read_buf_\<close>; \<open>w_obj\<close> counts the
  \<open>SocketFD\<close> objects made for it, so that a weak pointer to one of them is a number; \<open>w_sends\<close> are the
  tasks of \<open>Send\<close> in the poller's list, with the weak pointers they hold.
\<close>

record 'k whole =
  w_cn :: connector
  w_sk :: "'k socket"
  w_buf :: "raw_buf option"
  w_obj :: nat
  w_sends :: "(nat \<times> packet) list"

text \<open>What it uses: the environments of the data path, \<open>AddEvent\<close> and \<open>DelEvent\<close> of the poller.\<close>

record 'k whole_env =
  we_sock :: "'k sock_env"
  we_recv :: "'k recv_env"
  we_add :: "int \<Rightarrow> u32 \<Rightarrow> 'k \<Rightarrow> int \<times> 'k"
  we_del :: "int \<Rightarrow> 'k \<Rightarrow> 'k"

definition whole_new :: "'k \<Rightarrow> int \<Rightarrow> 'k whole" where
  "whole_new k flags = \<lparr>w_cn = cn_init,
     w_sk = \<lparr>sockfd = None, timer = False, connecting = False, send_buf_sending = [],
       send_buf_waiting = [], sending = False, enable_recv = True, flushed_cb = None,
       socket_flags = flags, reported = [], err_no = 0, kern_st = k\<rparr>,
     w_buf = None, w_obj = 0, w_sends = []\<rparr>"

section \<open>Operations\<close>

text \<open>\<open>Connect\<close> in the fields of the data path: a timer and a callback, and no descriptor yet.\<close>

definition sk_Connect :: "'k socket \<Rightarrow> 'k socket" where
  "sk_Connect sk = (Close sk)\<lparr>timer := True, connecting := True\<rparr>"

text \<open>The closure \<open>connect_cb\<close> in the fields of the data path.\<close>

definition sk_connect_cb :: "sock_err_code \<Rightarrow> 'k socket \<Rightarrow> 'k socket" where
  "sk_connect_cb err sk =
     (let sk1 = sk\<lparr>timer := False, connecting := False\<rparr>
      in if err \<noteq> ERR_SUCCESS then sk1\<lparr>sockfd := None\<rparr> else sk1)"

definition w_Connect :: "'k whole \<Rightarrow> 'k whole" where
  "w_Connect w = w\<lparr>w_cn := cn_Connect (w_cn w), w_sk := sk_Connect (w_sk w)\<rparr>"

definition w_Close :: "'k whole \<Rightarrow> 'k whole" where
  "w_Close w = w\<lparr>w_cn := cn_Close (w_cn w), w_sk := Close (w_sk w)\<rparr>"

definition w_destroy :: "'k whole \<Rightarrow> 'k whole" where
  "w_destroy w = w\<lparr>w_cn := cn_destroy (w_cn w), w_sk := Close (w_sk w)\<rparr>"

definition w_timeout :: "nat \<Rightarrow> 'k whole \<Rightarrow> 'k whole" where
  "w_timeout k w = w\<lparr>w_cn := connect_cb k ERR_TIMEOUT (w_cn w), w_sk := sk_connect_cb ERR_TIMEOUT (w_sk w)\<rparr>"

text \<open>
  The delivery of a descriptor: \<open>async_connect_cb\<close> makes a \<open>SocketFD\<close> and registers it to wait for the
  connection; \<open>ret != 0\<close> is a failure.
\<close>

definition w_deliver :: "'k whole_env \<Rightarrow> nat \<Rightarrow> int \<Rightarrow> 'k whole \<Rightarrow> 'k whole" where
  "w_deliver W k fd w =
     (if cn_async_cb (w_cn w) \<noteq> Some k then w\<lparr>w_cn := run_deliver k fd True (w_cn w)\<rparr>
      else if fd = -1
      then w\<lparr>w_cn := run_deliver k fd True (w_cn w), w_sk := sk_connect_cb ERR_UNREACHABLE (w_sk w)\<rparr>
      else
        (let (r, k') = we_add W fd PE_WRITE (kern_st (w_sk w));
             sk1 = (w_sk w)\<lparr>sockfd := Some (SocketFD_new fd SOCK_TCP), kern_st := k'\<rparr>
         in w\<lparr>w_cn := run_deliver k fd (r = 0) (w_cn w), w_obj := Suc (w_obj w),
              w_sk := (if r \<noteq> 0 then sk_connect_cb ERR_OTHER sk1 else sk1)\<rparr>))"

text \<open>\<open>on_connected\<close>, with \<open>get_socket_error\<close> and \<open>attach_event\<close> as the data path has them.\<close>

definition w_connected :: "'k whole_env \<Rightarrow> nat \<Rightarrow> sock_fd \<Rightarrow> 'k whole \<Rightarrow> 'k whole" where
  "w_connected W k c w =
     (let (err, sk1) = get_socket_error (we_sock W) True c (w_sk w)
      in if ex_bool err
         then w\<lparr>w_cn := on_connected k c (ex_code err) True (w_cn w), w_sk := sk_connect_cb (ex_code err) sk1\<rparr>
         else
           (let c' = SetConnected c;
                sk2 = sk1\<lparr>sockfd := Some c', kern_st := we_del W (raw_fd c) (kern_st sk1)\<rparr>;
                (ok, buf, sk3) = attach_event (we_add W) c' False (w_buf w) sk2
            in w\<lparr>w_cn := on_connected k c ERR_SUCCESS ok (w_cn w), w_buf := buf,
                 w_sk := sk_connect_cb (if ok then ERR_SUCCESS else ERR_OTHER) sk3\<rparr>))"

text \<open>\<open>Send\<close> puts a task before all that wait; the task finds out whether its weak pointers are alive.\<close>

definition w_Send :: "packet \<Rightarrow> 'k whole \<Rightarrow> 'k whole" where
  "w_Send p w = w\<lparr>w_sends := (w_obj w, p) # w_sends w\<rparr>"

definition w_send_task :: "'k whole_env \<Rightarrow> nat \<times> packet \<Rightarrow> 'k whole \<Rightarrow> 'k whole" where
  "w_send_task W t w =
     (case sockfd (w_sk w) of
        Some c \<Rightarrow> if cn_alive (w_cn w) \<and> fst t = w_obj w
                  then w\<lparr>w_sk := send_task (we_sock W) c (snd t) (w_sk w)\<rparr> else w
      | None \<Rightarrow> w)"

section \<open>What an event does to the connection\<close>

text \<open>
  While the callback of \<open>attach_event\<close> runs, the connection is touched by the user's callbacks,
  which may call \<open>Close\<close> and \<open>Connect\<close>, and by \<open>emit_error\<close>. Each of these acts on both views.
\<close>

datatype act = ActClose | ActConnect | ActError sock_exception

fun act_cn :: "act \<Rightarrow> connector \<Rightarrow> connector" where
  "act_cn ActClose = cn_Close"
| "act_cn ActConnect = cn_Connect"
| "act_cn (ActError err) = cn_emit_error (ex_code err)"

fun act_sk :: "act \<Rightarrow> 'k socket \<Rightarrow> 'k socket" where
  "act_sk ActClose = Close"
| "act_sk ActConnect = sk_Connect"
| "act_sk (ActError err) = (\<lambda>sk. snd (emit_error err sk))"

text \<open>The fields that both views have, and \<open>acts\<close> as an account of what became of them.\<close>

definition shared :: "'k socket \<Rightarrow> sock_fd option \<times> bool \<times> bool \<times> sock_exception list" where
  "shared sk = (sockfd sk, timer sk, connecting sk, reported sk)"

definition accounts :: "'k socket \<Rightarrow> act list \<Rightarrow> 'k socket \<Rightarrow> bool" where
  "accounts sk acts sk' \<longleftrightarrow> shared sk' = shared (fold act_sk acts sk)"

text \<open>
  An event of the registered descriptor. The view of the connection follows by an account of what
  the callback has done.
\<close>

definition w_event ::
  "'k whole_env \<Rightarrow> sock_fd \<Rightarrow> u32 \<Rightarrow> act list \<Rightarrow> 'k whole \<Rightarrow> 'k whole \<Rightarrow> bool" where
  "w_event W c event acts w w' \<longleftrightarrow>
     (\<exists>b b' sk'. w_buf w = Some b \<and>
        attach_cb (we_sock W) (we_recv W) False True c event b (w_sk w) = Some (Inr (b', sk')) \<and>
        accounts (w_sk w) acts sk' \<and>
        w' = w\<lparr>w_buf := Some b', w_sk := sk', w_cn := fold act_cn acts (w_cn w)\<rparr>)"

section \<open>Steps\<close>

text \<open>
  The tasks of \<open>Send\<close> may run in any order and at any time here, although those of one turn of the
  poller run last first; what else the system does changes only its own state.
\<close>

inductive w_step :: "'k whole_env \<Rightarrow> 'k whole \<Rightarrow> 'k whole \<Rightarrow> bool" for W where
  connect: "cn_alive (w_cn w) \<Longrightarrow> w_step W w (w_Connect w)"
| close: "cn_alive (w_cn w) \<Longrightarrow> w_step W w (w_Close w)"
| destroy: "cn_alive (w_cn w) \<Longrightarrow> w_step W w (w_destroy w)"
| send: "cn_alive (w_cn w) \<Longrightarrow> Send buf sz addr len (w_sk w) = Inr (0, Some p) \<Longrightarrow> w_step W w (w_Send p w)"
| send_runs: "w_sends w = ts @ t # ts' \<Longrightarrow> w_step W w (w_send_task W t (w\<lparr>w_sends := ts @ ts'\<rparr>))"
| resolve: "cn_queue (w_cn w) = Resolve k # q \<Longrightarrow> new_or_failed fd (w_cn w) \<Longrightarrow>
     w_step W w (w\<lparr>w_cn := run_resolve k fd ((w_cn w)\<lparr>cn_queue := q\<rparr>)\<rparr>)"
| deliver: "cn_queue (w_cn w) = Deliver k fd # q \<Longrightarrow>
     w_step W w (w_deliver W k fd (w\<lparr>w_cn := (w_cn w)\<lparr>cn_queue := q\<rparr>\<rparr>))"
| report: "cn_queue (w_cn w) = Report err # q \<Longrightarrow>
     w_step W w (w\<lparr>w_cn := run_report err ((w_cn w)\<lparr>cn_queue := q\<rparr>)\<rparr>)"
| timeout: "cn_timer (w_cn w) = Some k \<Longrightarrow> w_step W w (w_timeout k w)"
| connected: "sockfd (w_sk w) = Some c \<Longrightarrow> cn_events (w_cn w) (raw_fd c) = Some (Connecting k) \<Longrightarrow>
     w_step W w (w_connected W k c w)"
| event: "sockfd (w_sk w) = Some c \<Longrightarrow> cn_events (w_cn w) (raw_fd c) = Some Attached \<Longrightarrow>
     w_event W c event acts w w' \<Longrightarrow> w_step W w w'"
| system: "w_step W w (w\<lparr>w_sk := (w_sk w)\<lparr>kern_st := k, err_no := e\<rparr>\<rparr>)"

inductive w_run :: "'k whole_env \<Rightarrow> 'k whole \<Rightarrow> 'k whole \<Rightarrow> bool" for W where
  w_nil: "w_run W w w"
| w_snoc: "w_run W w w1 \<Longrightarrow> w_step W w1 w2 \<Longrightarrow> w_run W w w2"

section \<open>The data path acts through Close, Connect and errors only\<close>

text \<open>
  The user's callbacks use the socket through \<open>Close\<close> and \<open>Connect\<close> - as those of \<^verbatim>\<open>test_connect.cpp\<close>
  do - and do not reach the lists.
\<close>

definition user_law :: "'k sock_env \<Rightarrow> 'k recv_env \<Rightarrow> bool" where
  "user_law E R \<longleftrightarrow>
     (\<forall>c sk. \<exists>us. set us \<subseteq> {ActClose, ActConnect} \<and> accounts sk us (snd (env_flushed E c sk))) \<and>
     (\<forall>b a sk. (\<exists>us. set us \<subseteq> {ActClose, ActConnect} \<and> accounts sk us (rcv_read_cb R b a sk)) \<and>
        send_buf_sending (rcv_read_cb R b a sk) = send_buf_sending sk \<and>
        send_buf_waiting (rcv_read_cb R b a sk) = send_buf_waiting sk)"

lemma shared_act: "shared sk = shared sk' \<Longrightarrow> shared (act_sk a sk) = shared (act_sk a sk')"
  by (cases a) (auto simp: shared_def Close_def sk_Connect_def emit_error_def split: option.splits)

lemma shared_acts: "shared sk = shared sk' \<Longrightarrow> shared (fold act_sk acts sk) = shared (fold act_sk acts sk')"
  by (induction acts arbitrary: sk sk') (auto intro: shared_act)

lemma accounts_refl: "accounts sk [] sk"
  by (simp add: accounts_def)

lemma accounts_same: "shared sk' = shared sk \<Longrightarrow> accounts sk [] sk'"
  by (simp add: accounts_def)

lemma accounts_trans: "accounts sk as sk1 \<Longrightarrow> accounts sk1 bs sk2 \<Longrightarrow> accounts sk (as @ bs) sk2"
  unfolding accounts_def fold_append comp_apply by (metis shared_acts)

text \<open>\<open>acted sk sk'\<close>: some account leads from one to the other.\<close>

definition acted :: "'k socket \<Rightarrow> 'k socket \<Rightarrow> bool" where
  "acted sk sk' \<longleftrightarrow> (\<exists>acts. accounts sk acts sk')"

lemma acted_refl: "acted sk sk"
  using accounts_refl by (auto simp: acted_def)

lemma acted_same: "acted sk0 sk \<Longrightarrow> shared sk' = shared sk \<Longrightarrow> acted sk0 sk'"
  using accounts_trans accounts_same unfolding acted_def by metis

lemma acted_trans: "acted a b \<Longrightarrow> acted b c \<Longrightarrow> acted a c"
  using accounts_trans unfolding acted_def by metis

lemma acted_emit: "acted sk0 sk \<Longrightarrow> acted sk0 (snd (emit_error err sk))"
  by (rule acted_trans) (auto simp: acted_def accounts_def intro!: exI [of _ "[ActError err]"])

lemma acted_error: "acted sk0 sk \<Longrightarrow> acted sk0 (snd (on_error E fd sk))"
proof -
  assume a: "acted sk0 sk"
  obtain err e where g: "get_socket_error E True fd sk =
      (err, sk\<lparr>kern_st := snd (env_so_error E (raw_fd fd) (kern_st sk)), err_no := e\<rparr>)"
    by (rule get_socket_error_upd)
  have "acted sk0 (sk\<lparr>kern_st := snd (env_so_error E (raw_fd fd) (kern_st sk)), err_no := e\<rparr>)"
    by (rule acted_same [OF a]) (simp add: shared_def)
  from acted_emit [OF this] show ?thesis by (simp add: on_error_def g)
qed

lemma acted_flushed:
  assumes "user_law E R" and "acted sk0 sk"
  shows "acted sk0 (on_flushed E sk)"
proof (cases "flushed_cb sk")
  case (Some c)
  obtain f sk1 where c: "env_flushed E c sk = (f, sk1)" by fastforce
  then have "acted sk sk1" using assms(1) unfolding user_law_def acted_def by (metis snd_conv)
  then have "acted sk0 sk1" by (rule acted_trans [OF assms(2)])
  with Some c acted_same [OF this, of "sk1\<lparr>flushed_cb := None\<rparr>"] show ?thesis
    by (simp add: on_flushed_def shared_def)
qed (use assms in \<open>simp add: on_flushed_def\<close>)

lemma send_batches_shared:
  assumes "send_batches E fd tmp sk = Some (r, tmp', sk')"
  shows "shared sk' = shared sk"
  using assms
proof (induction tmp arbitrary: sk)
  case (Cons pkt tmp)
  then obtain n pkt' e k where
    "bl_send (env_sendmsg E) (raw_fd fd) (socket_flags sk) (fd_type fd = SOCK_UDP) pkt (err_no sk) (kern_st sk) =
       Some (n, pkt', e, k)" by auto
  with Cons.IH [of "sk\<lparr>err_no := e, kern_st := k\<rparr>"] Cons.prems show ?case
    by (auto simp: Let_def shared_def split: if_splits)
qed simp

interpretation acting: flush_keeps E fd "\<lambda>sk. user_law E R \<and> acted sk0 sk" "\<lambda>tmp sk. user_law E R \<and> acted sk0 sk"
  for E :: "'k sock_env" and fd R sk0
proof unfold_locales
  fix sk :: "'k socket"
  assume "user_law E R \<and> acted sk0 sk"
  then show "user_law E R \<and> acted sk0 (on_flushed E (stop_writeable_event E fd sk))"
    using acted_flushed [of E R sk0 "stop_writeable_event E fd sk"]
      acted_same [of sk0 sk "stop_writeable_event E fd sk"]
    by (simp add: shared_def stop_writeable_event_def)
next
  fix tmp r tmp' and sk sk' :: "'k socket"
  assume "user_law E R \<and> acted sk0 sk" and "send_batches E fd tmp sk = Some (r, tmp', sk')"
  then show "user_law E R \<and> acted sk0 sk'"
    using send_batches_shared acted_same by blast
qed (auto simp: acted_error shared_def elim: acted_same)

lemma acted_on_writeable:
  assumes "on_writeable E fd sk = Some sk'" and "user_law E R" and "acted sk0 sk"
  shows "acted sk0 sk'"
proof (cases "send_buf_sending sk = [] \<and> send_buf_waiting sk = []")
  case True
  with assms(1,3) show ?thesis
    by (auto simp: on_writeable_def stop_writeable_event_def shared_def elim: acted_same)
next
  case False
  with assms(1) obtain b where "flush_data E fd sk = Some (b, sk')"
    by (auto simp: on_writeable_def)
  from acting.flush [OF this, of R sk0] assms(2,3) show ?thesis by simp
qed

lemma acted_on_read:
  assumes "on_read E R is_udp fd b sk = Some (Inr (nr, b', sk'))" and "user_law E R" and "acted sk0 sk"
  shows "acted sk0 sk'"
proof -
  have "\<exists>sk1. acted sk0 sk1 \<and> snd (snd (nr, b', sk')) \<in>
      {sk1, snd (emit_error eof_error sk1), snd (on_error E fd sk1)}"
  proof (rule read_loop_keeps [where P = "acted sk0", OF assms(1) [unfolded on_read_def] assms(3)])
    fix sk c x d a k e
    assume "acted sk0 sk"
    then show "acted sk0 (sk\<lparr>kern_st := k, err_no := e\<rparr>)" by (rule acted_same) (simp add: shared_def)
  next
    fix b a sk
    assume "acted sk0 sk"
    then show "acted sk0 (rcv_read_cb R b a sk)"
      by (rule acted_trans) (use assms(2) in \<open>unfold user_law_def acted_def, blast\<close>)
  qed
  then show ?thesis using acted_emit acted_error by fastforce
qed

text \<open>So every event has an account.\<close>

lemma attach_cb_acted:
  assumes "attach_cb E R is_udp True fd event b sk = Some (Inr (b', sk'))" and "user_law E R"
  shows "acted sk sk'"
  using assms(1)
proof (rule attach_cb_parts)
  fix nr sk1 sk2
  assume r: "(if has event PE_READ then on_read E R is_udp fd b sk else Some (Inr (0, b, sk))) = Some (Inr (nr, b', sk1))"
    and w: "(if sockfd sk1 \<noteq> None \<and> has event PE_WRITE then on_writeable E fd sk1 else Some sk1) = Some sk2"
    and e: "sk' = (if sockfd sk2 \<noteq> None \<and> has event PE_ERROR then snd (on_error E fd sk2) else sk2)"
  have "acted sk sk1"
    using r acted_on_read [OF _ assms(2) acted_refl] acted_refl by (auto split: if_splits)
  with w have "acted sk sk2"
    using acted_on_writeable [OF _ assms(2)] by (auto split: if_splits)
  with e show ?thesis by (auto simp: acted_error)
qed

section \<open>The two views agree\<close>

fun pending_reports :: "cn_task list \<Rightarrow> sock_err_code list" where
  "pending_reports [] = []"
| "pending_reports (Report err # q) = err # pending_reports q"
| "pending_reports (_ # q) = pending_reports q"

lemma pending_append [simp]: "pending_reports (q @ r) = pending_reports q @ pending_reports r"
  by (induction q rule: pending_reports.induct) auto

text \<open>
  The same descriptor, the same timer and callback, and of each error that \<open>emit_error\<close> has taken the
  user has been told, or will be.
\<close>

definition views_agree :: "connector \<Rightarrow> 'k socket \<Rightarrow> bool" where
  "views_agree s sk \<longleftrightarrow>
     cn_sockfd s = sockfd sk \<and> (cn_timer s \<noteq> None \<longleftrightarrow> timer sk) \<and> (cn_async_cb s \<noteq> None \<longleftrightarrow> connecting sk) \<and>
     (cn_alive s \<longrightarrow> map ex_code (reported sk) = cn_errors s @ pending_reports (cn_queue s))"

lemma agree_shared: "views_agree s sk \<Longrightarrow> shared sk' = shared sk \<Longrightarrow> views_agree s sk'"
  by (simp add: views_agree_def shared_def)

text \<open>\<open>leads s s'\<close>: some run of a connection that neither listens nor was accepted.\<close>

fun client_event :: "cn_event \<Rightarrow> bool" where
  "client_event (EvListen t fd ok) = False"
| "client_event (EvAccepted fd ok) = False"
| "client_event _ = True"

definition leads :: "connector \<Rightarrow> connector \<Rightarrow> bool" where
  "leads s s' \<longleftrightarrow> (\<exists>evs. list_all client_event evs \<and> cn_run s evs s')"

lemma leads_refl: "leads s s"
  unfolding leads_def by (intro exI [of _ "[]"]) (simp add: cn_nil)

lemma leads_snoc: "leads s s1 \<Longrightarrow> cn_step s1 ev s2 \<Longrightarrow> client_event ev \<Longrightarrow> leads s s2"
  unfolding leads_def by (elim exE conjE, rule exI [of _ "_ @ [ev]"]) (auto intro: cn_snoc)

lemma leads_trans:
  assumes "leads s s1" and "leads s1 s2"
  shows "leads s s2"
proof -
  obtain evs where "cn_run s1 evs s2" "list_all client_event evs" using assms(2) by (auto simp: leads_def)
  then show ?thesis using assms(1) by (induction rule: cn_run.induct) (auto intro: leads_snoc)
qed

lemma leads_step: "cn_step s ev s' \<Longrightarrow> client_event ev \<Longrightarrow> leads s s'"
  by (rule leads_snoc [OF leads_refl])

text \<open>The account of an event, seen from the connection, is a run of it.\<close>

definition no_attempt :: "connector \<Rightarrow> bool" where
  "no_attempt s \<longleftrightarrow> (\<forall>c. cn_sockfd s = Some c \<longrightarrow> cn_events s (raw_fd c) = Some Attached)"

lemma act_follows:
  assumes "cn_inv s" and "views_agree s sk" and "cn_alive s" and "no_attempt s"
  shows "leads s (act_cn a s) \<and> views_agree (act_cn a s) (act_sk a sk) \<and> cn_alive (act_cn a s) \<and>
    no_attempt (act_cn a s)"
proof (cases a)
  case ActClose
  with assms cn_step.close [OF assms(3)] show ?thesis
    by (auto simp: Close_own cn_inv_own views_agree_def Close_def no_attempt_def dest!: leads_step)
next
  case ActConnect
  with assms cn_step.connect [OF assms(3)] show ?thesis
    by (auto simp: Close_own cn_Connect_def Let_def cn_inv_own views_agree_def Close_def sk_Connect_def
        no_attempt_def dest!: leads_step)
next
  case (ActError err)
  show ?thesis
  proof (cases "cn_sockfd s")
    case None
    with ActError assms leads_refl show ?thesis
      by (simp add: cn_emit_error_def emit_error_def views_agree_def)
  next
    case (Some c)
    then have "cn_step s (EvError (ex_code err)) (cn_emit_error (ex_code err) s)"
      using assms(4) by (intro cn_step.error) (simp_all add: no_attempt_def)
    from leads_step [OF this] have l: "leads s (cn_emit_error (ex_code err) s)" by simp
    from Some assms(2) have "sockfd sk = Some c" by (simp add: views_agree_def)
    with l ActError assms Some show ?thesis
      by (simp add: emit_error_own cn_inv_own emit_error_def views_agree_def Close_def no_attempt_def)
  qed
qed

lemma leads_inv: "leads s s' \<Longrightarrow> cn_inv s \<Longrightarrow> cn_inv s'"
  by (auto simp: leads_def dest: cn_run_inv)

lemma acts_follow:
  assumes "cn_inv s" and "views_agree s sk" and "cn_alive s" and "no_attempt s"
  shows "leads s (fold act_cn acts s) \<and> views_agree (fold act_cn acts s) (fold act_sk acts sk)"
  using assms
proof (induction acts arbitrary: s sk)
  case Nil
  then show ?case by (simp add: leads_refl)
next
  case (Cons a acts)
  note f = act_follows [OF Cons.prems, of a]
  then have "leads (act_cn a s) (fold act_cn acts (act_cn a s)) \<and>
      views_agree (fold act_cn acts (act_cn a s)) (fold act_sk acts (act_sk a sk))"
    using leads_inv [OF _ Cons.prems(1)] by (intro Cons.IH) auto
  with f show ?case by (auto intro: leads_trans)
qed

section \<open>Every step is one of the connection\<close>

definition w_inv :: "'k whole \<Rightarrow> bool" where
  "w_inv w \<longleftrightarrow> cn_inv (w_cn w) \<and> views_agree (w_cn w) (w_sk w)"

lemma attached_alive: "cn_inv s \<Longrightarrow> cn_sockfd s = Some c \<Longrightarrow> cn_alive s"
  by (auto simp: cn_inv_def)

lemma connect_cb_agree:
  assumes "cn_inv s" and "cn_alive s" and "views_agree s sk"
  shows "views_agree (connect_cb k err s) (sk_connect_cb err sk)"
  using assms by (auto simp: connect_cb_own cn_inv_own views_agree_def sk_connect_cb_def Let_def)

lemma deliver_follows:
  fixes W :: "'k whole_env"
  assumes "w_inv w" and "cn_queue (w_cn w) = Deliver k fd # q"
  defines "w' \<equiv> w_deliver W k fd (w\<lparr>w_cn := (w_cn w)\<lparr>cn_queue := q\<rparr>\<rparr>)"
  shows "leads (w_cn w) (w_cn w') \<and> views_agree (w_cn w') (w_sk w')"
proof -
  let ?s = "(w_cn w)\<lparr>cn_queue := q\<rparr>"
  obtain r k' where add: "we_add W fd PE_WRITE (kern_st (w_sk w)) = (r, k')" by fastforce
  have s: "\<exists>ok. w_cn w' = run_deliver k fd ok ?s" by (auto simp: w'_def w_deliver_def add Let_def)
  have l: "leads (w_cn w) (w_cn w')"
    using s leads_step [OF cn_step.deliver [OF assms(2)]] by auto
  note inv = assms(1) [unfolded w_inv_def]
  have i: "cn_inv ?s" using inv by (simp add: cn_inv_def)
  have v: "views_agree ?s (w_sk w)" using inv assms(2) by (simp add: views_agree_def)
  have "views_agree (w_cn w') (w_sk w')"
  proof (cases "cn_async_cb (w_cn w) = Some k")
    case True
    then have a: "cn_alive (w_cn w)" using inv by (auto simp: cn_inv_def)
    show ?thesis
    proof (cases "fd = -1")
      case True
      with \<open>cn_async_cb (w_cn w) = Some k\<close> connect_cb_agree [OF i _ v] a show ?thesis
        by (simp add: w'_def w_deliver_def run_deliver_def async_connect_cb_def)
    next
      case False
      with \<open>cn_async_cb (w_cn w) = Some k\<close> a v add inv show ?thesis
        by (auto simp: w'_def w_deliver_def run_deliver_def async_connect_cb_own cn_inv_own [OF i]
            views_agree_def sk_connect_cb_def Let_def cn_inv_def)
    qed
  next
    case False
    with v show ?thesis by (simp add: w'_def w_deliver_def run_deliver_def views_agree_def)
  qed
  with l show ?thesis by simp
qed

lemma connected_follows:
  assumes "w_inv w" and "sockfd (w_sk w) = Some c" and "cn_events (w_cn w) (raw_fd c) = Some (Connecting k)"
  shows "leads (w_cn w) (w_cn (w_connected W k c w)) \<and>
    views_agree (w_cn (w_connected W k c w)) (w_sk (w_connected W k c w))"
proof -
  note inv = assms(1) [unfolded w_inv_def]
  have c: "cn_sockfd (w_cn w) = Some c" using inv assms(2) by (simp add: views_agree_def)
  have a: "cn_alive (w_cn w)" using attached_alive [OF _ c] inv by simp
  have d: "raw_fd c \<in> dom (cn_events (w_cn w))" using assms(3) by blast
  obtain err e where g: "get_socket_error (we_sock W) True c (w_sk w) =
      (err, (w_sk w)\<lparr>kern_st := snd (env_so_error (we_sock W) (raw_fd c) (kern_st (w_sk w))), err_no := e\<rparr>)"
    by (rule get_socket_error_upd)
  note step = cn_step.writable [OF c assms(3), THEN leads_step]
  show ?thesis
  proof (cases "ex_bool err")
    case True
    let ?sk = "(w_sk w)\<lparr>kern_st := snd (env_so_error (we_sock W) (raw_fd c) (kern_st (w_sk w))), err_no := e\<rparr>"
    have "views_agree (w_cn w) ?sk" using inv agree_shared [of "w_cn w" "w_sk w" ?sk] by (simp add: shared_def)
    from connect_cb_agree [OF _ a this] inv True g step [of "ex_code err" True] show ?thesis
      by (simp add: w_connected_def on_connected_def ex_bool_def)
  next
    case False
    obtain r k2 where r: "we_add W (raw_fd c) (PE_READ OR PE_WRITE OR PE_ERROR)
        (we_del W (raw_fd c) (snd (env_so_error (we_sock W) (raw_fd c) (kern_st (w_sk w))))) = (r, k2)"
      by fastforce
    let ?ok = "r \<noteq> -1"
    have w: "w_cn (w_connected W k c w) = on_connected k c ERR_SUCCESS ?ok (w_cn w)"
      "shared (w_sk (w_connected W k c w)) =
        (if ?ok then Some (c\<lparr>fd_connected := True\<rparr>) else None, False, False, reported (w_sk w))"
      using False g r
      by (simp_all add: w_connected_def attach_event_def Let_def sk_connect_cb_def SetConnected_def shared_def)
    have "views_agree (w_cn (w_connected W k c w)) (w_sk (w_connected W k c w))"
      using w(2) inv unfolding w(1) on_connected_own [OF cn_inv_own a c d, OF inv [THEN conjunct1]]
      by (auto simp: views_agree_def shared_def)
    with step [of ERR_SUCCESS ?ok] w(1) show ?thesis by simp
  qed
qed

lemma w_step_follows:
  assumes "w_step W w w'" and "w_inv w"
  shows "leads (w_cn w) (w_cn w') \<and> views_agree (w_cn w') (w_sk w')"
  using assms
proof (induction rule: w_step.induct)
  case (connect w)
  then have "leads (w_cn w) (cn_Connect (w_cn w))" by (auto intro: leads_step cn_step.connect)
  with connect show ?case
    by (auto simp: w_Connect_def w_inv_def cn_Connect_def Let_def Close_own cn_inv_own sk_Connect_def
        Close_def views_agree_def)
next
  case (close w)
  then have "leads (w_cn w) (cn_Close (w_cn w))" by (auto intro: leads_step cn_step.close)
  with close show ?case
    by (auto simp: w_Close_def w_inv_def Close_own cn_inv_own Close_def views_agree_def)
next
  case (destroy w)
  then have "leads (w_cn w) (cn_destroy (w_cn w))" by (auto intro: leads_step cn_step.destroy)
  with destroy show ?case
    by (auto simp: w_destroy_def w_inv_def cn_destroy_def Close_own cn_inv_own Close_def views_agree_def)
next
  case (send w buf sz addr len p)
  then show ?case by (simp add: w_Send_def leads_refl w_inv_def)
next
  case (send_runs w ts t ts')
  have "shared (send_task E c p sk) = shared sk" for E c p and sk :: "'a socket"
    by (simp add: send_task_def Let_def start_writeable_event_def shared_def)
  then have "views_agree (w_cn w) (send_task E c p (w_sk w))" for E c p
    using agree_shared [of "w_cn w" "w_sk w"] send_runs.prems unfolding w_inv_def by blast
  with send_runs show ?case
    by (auto simp: w_send_task_def leads_refl w_inv_def split: option.splits)
next
  case (resolve w k q fd)
  then have "leads (w_cn w) (run_resolve k fd ((w_cn w)\<lparr>cn_queue := q\<rparr>))"
    by (auto intro: leads_step cn_step.resolve)
  with resolve show ?case by (auto simp: run_resolve_def w_inv_def views_agree_def)
next
  case (deliver w k fd q)
  then show ?case using deliver_follows by blast
next
  case (report w err q)
  then have "leads (w_cn w) (run_report err ((w_cn w)\<lparr>cn_queue := q\<rparr>))"
    by (auto intro: leads_step cn_step.report)
  with report show ?case by (auto simp: run_report_def w_inv_def views_agree_def)
next
  case (timeout w k)
  then have "cn_alive (w_cn w)" by (auto simp: w_inv_def cn_inv_def)
  with timeout connect_cb_agree show ?case
    by (auto simp: w_timeout_def w_inv_def intro: leads_step cn_step.timeout)
next
  case (connected w c k)
  then show ?case using connected_follows by blast
next
  case (event w c event acts w')
  from event obtain b b' sk' where e: "accounts (w_sk w) acts sk'"
    "w' = w\<lparr>w_buf := Some b', w_sk := sk', w_cn := fold act_cn acts (w_cn w)\<rparr>"
    by (auto simp: w_event_def)
  have i: "cn_inv (w_cn w)" "views_agree (w_cn w) (w_sk w)" using event.prems by (simp_all add: w_inv_def)
  have c: "cn_sockfd (w_cn w) = Some c" using i(2) event.hyps(1) by (simp add: views_agree_def)
  have "no_attempt (w_cn w)" using c event.hyps(2) by (simp add: no_attempt_def)
  from acts_follow [OF i attached_alive [OF i(1) c] this, of acts] e show ?case
    using agree_shared by (auto simp: accounts_def)
next
  case (system w k e)
  then show ?case by (auto simp: leads_refl w_inv_def views_agree_def)
qed

lemma w_run_follows:
  "w_run W w w' \<Longrightarrow> w_inv w \<Longrightarrow> leads (w_cn w) (w_cn w') \<and> w_inv w'"
proof (induction rule: w_run.induct)
  case (w_nil w)
  then show ?case by (simp add: leads_refl)
next
  case (w_snoc w w1 w2)
  then have i: "leads (w_cn w) (w_cn w1)" "w_inv w1" by simp_all
  from w_step_follows [OF w_snoc.hyps(2) i(2)] leads_trans [OF i(1)] leads_inv [of "w_cn w1" "w_cn w2"] i(2)
  show ?case by (auto simp: w_inv_def)
qed

lemma whole_new_inv: "w_inv (whole_new k flags)"
  by (simp add: w_inv_def cn_init_inv views_agree_def whole_new_def) (simp add: cn_init_def)

section \<open>What a connection brings\<close>

text \<open>
  A descriptor of a client is one of TCP; and each connection that was made brings at most one
  error: the errors told and to be told, and the connection that is there, are not more than the
  successful answers.
\<close>

definition attached :: "connector \<Rightarrow> bool" where
  "attached s \<longleftrightarrow> (\<exists>c. cn_sockfd s = Some c \<and> cn_events s (raw_fd c) = Some Attached)"

definition successes :: "connector \<Rightarrow> nat" where
  "successes s = length (filter (\<lambda>r. snd r = ERR_SUCCESS) (cn_results s))"

definition client_inv :: "connector \<Rightarrow> bool" where
  "client_inv s \<longleftrightarrow>
     (\<forall>c. cn_sockfd s = Some c \<longrightarrow> fd_type c = SOCK_TCP) \<and>
     length (cn_errors s) + length (pending_reports (cn_queue s)) + (if attached s then 1 else 0) \<le> successes s"

lemma attached_none: "cn_sockfd s = None \<Longrightarrow> \<not> attached s"
  by (simp add: attached_def)

lemma cn_step_client:
  assumes "cn_step s ev s'" and "client_event ev" and "cn_inv s" and "client_inv s"
  shows "client_inv s'"
  using assms
proof (induction rule: cn_step.induct)
  case (connect s)
  then show ?case
    by (auto simp: cn_Connect_def Let_def Close_own cn_inv_own client_inv_def attached_def successes_def
        split: if_splits)
next
  case (close s)
  then show ?case
    by (auto simp: Close_own cn_inv_own client_inv_def attached_def successes_def split: if_splits)
next
  case (destroy s)
  then show ?case
    by (auto simp: cn_destroy_def Close_own cn_inv_own client_inv_def attached_def successes_def split: if_splits)
next
  case (resolve s k q fd)
  then show ?case by (simp add: run_resolve_def client_inv_def attached_def successes_def)
next
  case (deliver s k fd q ok)
  show ?case
  proof (cases "cn_async_cb s = Some k")
    case True
    then have "cn_alive s" using deliver.prems by (auto simp: cn_inv_def)
    with True deliver show ?thesis
      by (auto simp: run_deliver_def async_connect_cb_own connect_cb_own cn_inv_own client_inv_def
          attached_def successes_def SocketFD_new_def split: if_splits)
  next
    case False
    with deliver show ?thesis by (auto simp: run_deliver_def client_inv_def attached_def successes_def)
  qed
next
  case (report s err q)
  then show ?case by (auto simp: run_report_def client_inv_def attached_def successes_def split: if_splits)
next
  case (timeout s k)
  then have "cn_alive s" by (auto simp: cn_inv_def)
  with timeout show ?case
    by (auto simp: connect_cb_own cn_inv_own client_inv_def attached_def successes_def split: if_splits)
next
  case (writable s c k err ok)
  then have a: "cn_alive s" by (auto simp: cn_inv_def)
  have "\<not> attached s" using writable.hyps by (simp add: attached_def)
  with writable a show ?case
    by (auto simp: on_connected_own connect_cb_own cn_inv_own client_inv_def successes_def attached_none
        domI split: if_splits)
next
  case (error s c err)
  then have "attached s" by (auto simp: attached_def)
  with error show ?case
    by (simp add: emit_error_own cn_inv_own client_inv_def attached_none successes_def)
qed simp_all

lemma leads_client:
  assumes "leads s s'" and "cn_inv s" and "client_inv s"
  shows "client_inv s'"
proof -
  obtain evs where "cn_run s evs s'" "list_all client_event evs" using assms(1) by (auto simp: leads_def)
  then show ?thesis using assms(2,3)
  proof (induction rule: cn_run.induct)
    case (cn_snoc s evs s1 ev s2)
    then show ?case using cn_step_client [OF cn_snoc.hyps(2)] cn_run_inv [OF cn_snoc.hyps(1)] by simp
  qed simp
qed

section \<open>Events are handled\<close>

text \<open>What the data path relies on, for every connection of the socket.\<close>

definition traffic_laws ::
  "'k whole_env \<Rightarrow> (sock_fd \<Rightarrow> 'k \<Rightarrow> byte list) \<Rightarrow> ('k \<Rightarrow> block) \<Rightarrow> ('k \<Rightarrow> nat) \<Rightarrow> (sock_fd \<Rightarrow> 'k \<Rightarrow> block) \<Rightarrow>
   ('k \<Rightarrow> nat) \<Rightarrow> bool" where
  "traffic_laws W incoming got \<rho> wire \<mu> \<longleftrightarrow>
     user_law (we_sock W) (we_recv W) \<and>
     (\<forall>c. recv_law (we_recv W) c (incoming c) got \<rho> \<and> read_cb_law (we_recv W) (incoming c) got \<rho> \<and>
        so_error_frame (we_sock W) (incoming c) got \<and>
        (fd_type c = SOCK_TCP \<longrightarrow> stream_ok (we_sock W) c (wire c) \<mu>))"

lemma user_acts_keep:
  assumes "set us \<subseteq> {ActClose, ActConnect}"
  shows "reported (fold act_sk us sk) = reported sk \<and> sockfd (fold act_sk us sk) \<in> {sockfd sk, None}"
  using assms
proof (induction us arbitrary: sk)
  case (Cons u us)
  then have "u = ActClose \<or> u = ActConnect" by auto
  with Cons.IH [of "act_sk u sk"] Cons.prems show ?case
    by (elim disjE) (simp_all add: Close_def sk_Connect_def)
qed simp

lemma user_law_keeps: "user_law E R \<Longrightarrow> cb_keeps E R"
proof -
  assume l: "user_law E R"
  have k: "reported sk' = reported sk \<and> sockfd sk' \<in> {sockfd sk, None}"
    if "set us \<subseteq> {ActClose, ActConnect}" "accounts sk us sk'" for us and sk sk' :: "'a socket"
    using that(2) user_acts_keep [OF that(1), of sk] by (simp add: accounts_def shared_def)
  from l show ?thesis unfolding user_law_def cb_keeps_def using k by metis
qed

text \<open>The read buffer is made when the socket is attached, and stays a buffer.\<close>

definition buf_ready :: "'k whole \<Rightarrow> bool" where
  "buf_ready w \<longleftrightarrow>
     (\<forall>b. w_buf w = Some b \<longrightarrow> raw_ok b \<and> raw_capacity b \<noteq> 0) \<and> (attached (w_cn w) \<longrightarrow> w_buf w \<noteq> None)"

lemma on_read_buffer:
  assumes "on_read E R is_udp fd b sk = Some (Inr (nr, b', sk'))"
    and "recv_law R fd incoming got \<rho>" and "read_cb_law R incoming got \<rho>" and "so_error_frame E incoming got"
    and "raw_ok b" and "raw_capacity b \<noteq> 0"
  shows "raw_ok b' \<and> raw_capacity b' = raw_capacity b"
  using on_read_ok [OF assms(2-6), of is_udp sk] assms(1) by auto

lemma attach_cb_buffer:
  assumes "attach_cb E R is_udp True fd event b sk = Some (Inr (b', sk'))"
    and "recv_law R fd incoming got \<rho>" and "read_cb_law R incoming got \<rho>" and "so_error_frame E incoming got"
    and "raw_ok b" and "raw_capacity b \<noteq> 0"
  shows "raw_ok b' \<and> raw_capacity b' = raw_capacity b"
  using assms(1) by (rule attach_cb_parts)
    (use on_read_buffer [OF _ assms(2-6)] assms(5) in \<open>auto split: if_splits\<close>)

lemma read_buf_ready: "raw_ok (read_buf_new u) \<and> raw_capacity (read_buf_new u) \<noteq> 0"
  by (simp add: read_buf_new_def raw_new_ok) (simp add: raw_new_def SetCapacity_def)

lemma attached_connect_cb:
  "cn_inv s \<Longrightarrow> cn_alive s \<Longrightarrow> attached (connect_cb k err s) \<Longrightarrow> attached s"
  by (auto simp: connect_cb_own cn_inv_own attached_def split: if_splits)

lemma attached_acts:
  assumes "cn_inv s" and "views_agree s sk" and "cn_alive s" and "no_attempt s"
    and "attached (fold act_cn acts s)"
  shows "attached s"
  using assms
proof (induction acts arbitrary: s sk)
  case (Cons a acts)
  note f = act_follows [OF Cons.prems(1-4), of a]
  have "attached (act_cn a s)"
    by (rule Cons.IH [of _ "act_sk a sk"]) (use f Cons.prems leads_inv [of s] in auto)
  with Cons.prems(1) show ?case
    by (cases a) (auto simp: Close_own cn_Connect_def Let_def emit_error_own cn_inv_own attached_def split: if_splits)
qed simp

lemma w_step_buffer:
  assumes "w_step W w w'" and "w_inv w" and "traffic_laws W incoming got \<rho> wire \<mu>" and "buf_ready w"
  shows "buf_ready w'"
  using assms
proof (induction rule: w_step.induct)
  case (connect w)
  then show ?case
    by (auto simp: w_Connect_def buf_ready_def w_inv_def cn_Connect_def Let_def Close_own cn_inv_own attached_def)
next
  case (close w)
  then show ?case by (auto simp: w_Close_def buf_ready_def w_inv_def Close_own cn_inv_own attached_def)
next
  case (destroy w)
  then show ?case
    by (auto simp: w_destroy_def buf_ready_def w_inv_def cn_destroy_def Close_own cn_inv_own attached_def)
next
  case (send_runs w ts t ts')
  then show ?case by (auto simp: w_send_task_def buf_ready_def split: option.splits)
next
  case (resolve w k q fd)
  then show ?case by (auto simp: run_resolve_def buf_ready_def attached_def)
next
  case (deliver w k fd q)
  let ?s = "(w_cn w)\<lparr>cn_queue := q\<rparr>" and ?w = "w_deliver W k fd (w\<lparr>w_cn := (w_cn w)\<lparr>cn_queue := q\<rparr>\<rparr>)"
  have i: "cn_inv ?s" using deliver.prems(1) by (simp add: w_inv_def cn_inv_def)
  have a: "cn_alive ?s" if "cn_async_cb (w_cn w) = Some k" using i that by (auto simp: cn_inv_def)
  have own: "own_events (w_cn w)" using deliver.prems(1) by (simp add: w_inv_def cn_inv_own)
  have "w_buf ?w = w_buf w" and s: "\<exists>ok. w_cn ?w = run_deliver k fd ok ?s"
    by (auto simp: w_deliver_def Let_def split: prod.split)
  moreover have "attached (run_deliver k fd ok ?s) \<Longrightarrow> attached (w_cn w)" for ok
    using a own by (auto simp: run_deliver_def async_connect_cb_own connect_cb_own attached_def
        SocketFD_new_def split: if_splits)
  ultimately have "attached (w_cn ?w) \<longrightarrow> attached (w_cn w)" "w_buf ?w = w_buf w" by metis+
  with deliver.prems(3) show ?case by (simp add: buf_ready_def)
next
  case (report w err q)
  then show ?case by (auto simp: run_report_def buf_ready_def attached_def)
next
  case (timeout w k)
  then have "cn_alive (w_cn w)" by (auto simp: w_inv_def cn_inv_def)
  with timeout attached_connect_cb show ?case by (auto simp: w_timeout_def buf_ready_def w_inv_def)
next
  case (connected w c k)
  have i: "cn_inv (w_cn w)" and c: "cn_sockfd (w_cn w) = Some c"
    using connected by (auto simp: w_inv_def views_agree_def)
  obtain err sk1 where g: "get_socket_error (we_sock W) True c (w_sk w) = (err, sk1)" by fastforce
  show ?case
  proof (cases "ex_bool err")
    case True
    with g connected.prems attached_connect_cb [OF i attached_alive [OF i c]] show ?thesis
      by (auto simp: w_connected_def on_connected_def ex_bool_def buf_ready_def)
  next
    case False
    with g connected.prems read_buf_ready show ?thesis
      by (auto simp: w_connected_def attach_event_def Let_def buf_ready_def split: option.splits prod.splits)
  qed
next
  case (event w c event acts w')
  from event obtain b b' sk' where e: "w_buf w = Some b"
    "attach_cb (we_sock W) (we_recv W) False True c event b (w_sk w) = Some (Inr (b', sk'))"
    "w' = w\<lparr>w_buf := Some b', w_sk := sk', w_cn := fold act_cn acts (w_cn w)\<rparr>"
    by (auto simp: w_event_def)
  have "raw_ok b' \<and> raw_capacity b' = raw_capacity b"
    by (rule attach_cb_buffer [OF e(2), where incoming = "incoming c" and got = got and \<rho> = \<rho>])
      (use event.prems e(1) in \<open>auto simp: traffic_laws_def buf_ready_def\<close>)
  with event.prems(3) e(1,3) show ?case by (auto simp: buf_ready_def)
qed (auto simp: buf_ready_def w_Send_def)

lemma w_run_buffer:
  assumes "w_run W w w'" and "w_inv w" and "traffic_laws W incoming got \<rho> wire \<mu>" and "buf_ready w"
  shows "buf_ready w'"
  using assms
proof (induction rule: w_run.induct)
  case (w_snoc w w1 w2)
  then show ?case using w_step_buffer [OF w_snoc.hyps(2)] w_run_follows [OF w_snoc.hyps(1)] by blast
qed simp

lemma event_possible:
  assumes laws: "traffic_laws W incoming got \<rho> wire \<mu>" and "buf_ready w" and "client_inv (w_cn w)"
    and c: "cn_sockfd (w_cn w) = Some c" "cn_events (w_cn w) (raw_fd c) = Some Attached" and "sock_good (w_sk w)"
  shows "\<exists>acts w'. w_event W c event acts w w' \<and> sock_good (w_sk w')"
proof -
  have "attached (w_cn w)" using c by (simp add: attached_def)
  then obtain b where b: "w_buf w = Some b" "raw_ok b" "raw_capacity b \<noteq> 0"
    using assms(2) by (auto simp: buf_ready_def)
  have t: "fd_type c = SOCK_TCP" using assms(3) c(1) by (simp add: client_inv_def)
  note l = laws [unfolded traffic_laws_def]
  have "\<exists>b' sk'. attach_cb (we_sock W) (we_recv W) False True c event b (w_sk w) = Some (Inr (b', sk')) \<and> sock_good sk'"
    using attach_cb_done [of "we_recv W" c "incoming c" got \<rho> "we_sock W" "wire c" \<mu> b "w_sk w" event]
      l t user_law_keeps b assms(6) by blast
  then obtain b' sk' where a: "attach_cb (we_sock W) (we_recv W) False True c event b (w_sk w) = Some (Inr (b', sk'))"
    "sock_good sk'" by blast
  obtain acts where "accounts (w_sk w) acts sk'"
    using attach_cb_acted [OF a(1)] l by (auto simp: acted_def)
  with a b show ?thesis
    by (intro exI [of _ acts] exI [of _ "w\<lparr>w_buf := Some b', w_sk := sk', w_cn := fold act_cn acts (w_cn w)\<rparr>"])
      (auto simp: w_event_def)
qed

section \<open>Properties\<close>


text \<open>A client whose peer has sent three bytes, from \<open>Connect\<close> to the attached descriptor 5.\<close>

definition demo_whole :: "demo_peer whole_env" where
  "demo_whole = \<lparr>we_sock = demo_event_env, we_recv = demo_event_recv, we_add = (\<lambda>fd m k. (0, k)),
     we_del = (\<lambda>fd k. k)\<rparr>"

definition demo_client :: "demo_peer whole" where
  "demo_client = whole_new (([1, 2, 3], []), [Room 1], []) 0"

lemma demo_whole_laws:
  "traffic_laws demo_whole (\<lambda>_. fst \<circ> fst) (snd \<circ> fst) (\<lambda>k. length (fst (fst k))) (\<lambda>_. snd \<circ> snd)
     (\<lambda>k. length (fst (snd k)))"
proof -
  have "user_law demo_event_env demo_event_recv"
    unfolding user_law_def
    by (auto simp: demo_event_env_def demo_event_recv_def accounts_def shared_def split: sum.splits
        intro!: exI [of _ "[]"])
  moreover have "stream_ok demo_event_env c (snd \<circ> snd) (\<lambda>k. length (fst (snd k)))" if "fd_type c = SOCK_TCP" for c
    using script_stream_ok [of "raw_fd c"] that
    by (auto simp: stream_ok_def kernel_ok_def eintr_bounded_def env_ok_def demo_event_env_def Let_def)
  ultimately show ?thesis using demo_event_laws by (simp add: traffic_laws_def demo_whole_def)
qed

definition demo_attached :: "demo_peer whole" where
  "demo_attached = w_connected demo_whole 0 (SocketFD_new 5 SOCK_TCP)
     (w_deliver demo_whole 0 5 ((w_Connect demo_client)\<lparr>w_cn := (w_cn (w_Connect demo_client))
        \<lparr>cn_queue := [], cn_open := {5}\<rparr>\<rparr>))"

lemmas demo_life_defs = demo_attached_def demo_client_def whole_new_def w_Connect_def sk_Connect_def
  w_deliver_def w_connected_def sk_connect_cb_def attach_event_def get_socket_error_def ex_bool_def
  cn_defs cn_init_def Close_def demo_whole_def demo_event_env_def

lemma demo_life_run: "w_run demo_whole demo_client demo_attached"
proof -
  let ?w1 = "w_Connect demo_client"
  let ?w2 = "?w1\<lparr>w_cn := run_resolve 0 5 ((w_cn ?w1)\<lparr>cn_queue := []\<rparr>)\<rparr>"
  let ?w3 = "w_deliver demo_whole 0 5 (?w2\<lparr>w_cn := (w_cn ?w2)\<lparr>cn_queue := []\<rparr>\<rparr>)"
  have 1: "w_run demo_whole demo_client ?w1"
    by (rule w_snoc [OF w_nil w_step.connect]) (simp add: demo_life_defs)
  have 2: "w_step demo_whole ?w1 ?w2"
    by (rule w_step.resolve) (simp_all add: demo_life_defs new_or_failed_def)
  have 3: "w_step demo_whole ?w2 ?w3"
    by (rule w_step.deliver) (simp add: demo_life_defs)
  have 4: "w_step demo_whole ?w3 (w_connected demo_whole 0 (SocketFD_new 5 SOCK_TCP) ?w3)"
    by (rule w_step.connected) (simp_all add: demo_life_defs)
  have "?w3 = w_deliver demo_whole 0 5 (?w1\<lparr>w_cn := (w_cn ?w1)\<lparr>cn_queue := [], cn_open := {5}\<rparr>\<rparr>)"
    by (simp add: demo_life_defs)
  with w_snoc [OF w_snoc [OF w_snoc [OF 1 2] 3] 4] show ?thesis by (simp add: demo_attached_def)
qed


end
