(* ===== verification/TestPrograms.thy ===== *)
theory TestPrograms
  imports SocketLife
begin

text \<open>
  Two of the programs under \<^verbatim>\<open>test/\<close> as users of the socket: \<^verbatim>\<open>test_connect.cpp\<close>, whose sockets dial
  again whenever a connection fails, ends or has done its work, and \<^verbatim>\<open>test_listen.cpp\<close>, a server that
  keeps its connections in a map. What the poller does are the steps of \<^theory_text>\<open>SocketConnect\<close>; what the
  callbacks of the program do comes at the end of the step that calls them.
\<close>

text \<open>The steps of a connection that the poller's loop takes, not the user.\<close>

fun poller_event :: "cn_event \<Rightarrow> bool" where
  "poller_event (EvResolve fd) = True"
| "poller_event (EvDeliver ok) = True"
| "poller_event EvReport = True"
| "poller_event EvTimeout = True"
| "poller_event (EvWritable err ok) = True"
| "poller_event (EvError err) = True"
| "poller_event _ = False"

section \<open>The client of test\_connect.cpp\<close>

text \<open>One of its sockets, and how often \<open>g_buf\<close> was given to \<open>Send\<close>.\<close>

record dialer =
  d_cn :: connector
  d_sent :: nat

text \<open>\<open>connect(i)\<close>, and the callback it gives to \<open>Connect\<close>.\<close>

definition dial :: "dialer \<Rightarrow> dialer" where
  "dial d = d\<lparr>d_cn := cn_Connect (d_cn d)\<rparr>"

definition dialed_cb :: "sock_err_code \<Rightarrow> dialer \<Rightarrow> dialer" where
  "dialed_cb err d = (if err \<noteq> ERR_SUCCESS then dial d else d\<lparr>d_sent := Suc (d_sent d)\<rparr>)"

text \<open>The callbacks for reading and for flushing.\<close>

definition hang_up :: "dialer \<Rightarrow> dialer" where
  "hang_up d = dial (d\<lparr>d_cn := cn_Close (d_cn d)\<rparr>)"

text \<open>
  What the poller does with the socket, and then the callback of the program. In one readable event
  the callback for reading may be called several times, for the loop of \<open>on_read\<close> goes on when the
  socket has been closed.
\<close>

inductive dial_step :: "dialer \<Rightarrow> dialer \<Rightarrow> bool" where
  silent: "cn_step (d_cn d) ev s \<Longrightarrow> poller_event ev \<Longrightarrow> cn_results s = cn_results (d_cn d) \<Longrightarrow>
     cn_errors s = cn_errors (d_cn d) \<Longrightarrow> dial_step d (d\<lparr>d_cn := s\<rparr>)"
| answer: "cn_step (d_cn d) ev s \<Longrightarrow> poller_event ev \<Longrightarrow> cn_results s = cn_results (d_cn d) @ [(k, err)] \<Longrightarrow>
     dial_step d (dialed_cb err (d\<lparr>d_cn := s\<rparr>))"
| failure: "cn_step (d_cn d) ev s \<Longrightarrow> poller_event ev \<Longrightarrow> cn_errors s = cn_errors (d_cn d) @ [err] \<Longrightarrow>
     dial_step d (dial (d\<lparr>d_cn := s\<rparr>))"
| flushed: "attached (d_cn d) \<Longrightarrow> dial_step d (hang_up d)"
| received: "attached (d_cn d) \<Longrightarrow> dial_step d ((hang_up ^^ Suc n) d)"

inductive dial_run :: "dialer \<Rightarrow> bool" where
  main: "dial_run (dial \<lparr>d_cn = cn_init, d_sent = 0\<rparr>)"
| goes_on: "dial_run d \<Longrightarrow> dial_step d d' \<Longrightarrow> dial_run d'"

section \<open>The client never gives up\<close>

text \<open>Exactly one of these: an attempt, a connection, an error that the program will be told.\<close>

definition busy :: "connector \<Rightarrow> nat" where
  "busy s = (if cn_timer s \<noteq> None then 1 else 0) + (if attached s then 1 else 0) + length (pending_reports (cn_queue s))"

definition dial_inv :: "dialer \<Rightarrow> bool" where
  "dial_inv d \<longleftrightarrow> cn_inv (d_cn d) \<and> cn_alive (d_cn d) \<and> busy (d_cn d) = 1 \<and> d_sent d = successes (d_cn d)"

lemma Connect_busy:
  assumes "own_events s"
  shows "busy (cn_Connect s) = Suc (length (pending_reports (cn_queue s)))" "successes (cn_Connect s) = successes s"
    "cn_alive (cn_Connect s) = cn_alive s"
  using assms by (simp_all add: cn_Connect_def Let_def Close_own busy_def attached_def successes_def)

lemma Connect_inv: "cn_inv s \<Longrightarrow> cn_alive s \<Longrightarrow> cn_inv (cn_Connect s)"
  using cn_step_inv cn_step.connect by blast

lemma Close_inv: "cn_inv s \<Longrightarrow> cn_alive s \<Longrightarrow> cn_inv (cn_Close s)"
  using cn_step_inv cn_step.close by blast

lemma hang_up_inv:
  assumes "cn_inv (d_cn d)" and "cn_alive (d_cn d)" and "pending_reports (cn_queue (d_cn d)) = []"
    and "d_sent d = successes (d_cn d)"
  shows "dial_inv (hang_up d) \<and> pending_reports (cn_queue (d_cn (hang_up d))) = []"
proof -
  let ?s = "cn_Close (d_cn d)"
  have c: "cn_inv ?s" "cn_alive ?s" "pending_reports (cn_queue ?s) = []" "successes ?s = successes (d_cn d)"
    using Close_inv [OF assms(1,2)] assms by (simp_all add: Close_own cn_inv_own successes_def)
  then show ?thesis
    using assms(4) Connect_inv [OF c(1,2)] Connect_busy [OF cn_inv_own [OF c(1)]]
    by (simp add: hang_up_def dial_def dial_inv_def) (simp add: cn_Connect_def Let_def Close_own [OF cn_inv_own [OF c(1)]] c(3))
qed

lemma hang_ups_inv:
  assumes "dial_inv d" and "attached (d_cn d)"
  shows "dial_inv ((hang_up ^^ Suc n) d)"
proof -
  have p: "pending_reports (cn_queue (d_cn d)) = []" using assms by (simp add: dial_inv_def busy_def split: if_splits)
  have "dial_inv ((hang_up ^^ Suc n) d) \<and> pending_reports (cn_queue (d_cn ((hang_up ^^ Suc n) d))) = []"
  proof (induction n)
    case 0
    from assms p show ?case using hang_up_inv by (simp add: dial_inv_def)
  next
    case (Suc n)
    then have "dial_inv ((hang_up ^^ Suc n) d)" "pending_reports (cn_queue (d_cn ((hang_up ^^ Suc n) d))) = []"
      by simp_all
    then show ?case unfolding funpow.simps(2) [of "Suc n"] comp_apply
      using hang_up_inv by (simp add: dial_inv_def del: funpow.simps)
  qed
  then show ?thesis by simp
qed

text \<open>A step of the poller, and what it leaves for the callback.\<close>

lemma poller_step_busy:
  assumes "cn_step s ev s'" and "poller_event ev" and "cn_inv s" and "cn_alive s" and "busy s = 1"
  shows "cn_alive s' \<and>
    (cn_results s' = cn_results s \<and> cn_errors s' = cn_errors s \<and> busy s' = 1 \<or>
     (\<exists>k. cn_results s' = cn_results s @ [(k, ERR_SUCCESS)] \<and> cn_errors s' = cn_errors s \<and> busy s' = 1) \<or>
     (\<exists>k err. err \<noteq> ERR_SUCCESS \<and> cn_results s' = cn_results s @ [(k, err)] \<and> cn_errors s' = cn_errors s \<and>
        pending_reports (cn_queue s') = []) \<or>
     (\<exists>err. cn_errors s' = cn_errors s @ [err] \<and> cn_results s' = cn_results s \<and> pending_reports (cn_queue s') = []))"
  using assms
proof (induction rule: cn_step.induct)
  case (resolve s k q fd)
  then show ?case by (simp add: run_resolve_def busy_def attached_def)
next
  case (deliver s k fd q ok)
  show ?case
  proof (cases "cn_async_cb s = Some k")
    case True
    then have "cn_timer s = Some k" using deliver.prems by (simp add: cn_inv_def)
    then have "cn_timer s \<noteq> None" by simp
    then have "pending_reports q = []" "\<not> attached s"
      using deliver by (auto simp: busy_def split: if_splits)
    with True deliver \<open>cn_timer s \<noteq> None\<close> show ?thesis
      by (auto simp: run_deliver_def async_connect_cb_own connect_cb_own cn_inv_own busy_def attached_def
          SocketFD_new_def)
  next
    case False
    with deliver show ?thesis by (simp add: run_deliver_def busy_def attached_def)
  qed
next
  case (report s err q)
  then show ?case by (simp add: run_report_def busy_def split: if_splits)
next
  case (timeout s k)
  then have "pending_reports (cn_queue s) = []" by (auto simp: busy_def split: if_splits)
  with timeout show ?case by (simp add: connect_cb_own cn_inv_own)
next
  case (writable s c k err ok)
  then have "cn_timer s = Some k" by (simp add: cn_inv_def)
  then have "pending_reports (cn_queue s) = []" using writable by (auto simp: busy_def split: if_splits)
  with writable show ?case
    by (auto simp: on_connected_own connect_cb_own cn_inv_own domI busy_def attached_def)
next
  case (error s c err)
  then have "attached s" by (auto simp: attached_def)
  with error have "pending_reports (cn_queue s) = []" by (auto simp: busy_def split: if_splits)
  with error show ?case by (simp add: emit_error_own cn_inv_own busy_def attached_def)
qed simp_all

lemma dial_inv_dial:
  assumes "cn_inv s" and "cn_alive s" and "pending_reports (cn_queue s) = []" and "d_sent d = successes s"
  shows "dial_inv (dial (d\<lparr>d_cn := s\<rparr>))"
  using assms Connect_inv [OF assms(1,2)] Connect_busy [OF cn_inv_own [OF assms(1)]]
  by (simp add: dial_inv_def dial_def)

lemma dial_step_inv:
  assumes "dial_step d d'" and "dial_inv d"
  shows "dial_inv d'"
  using assms
proof (induction rule: dial_step.induct)
  case (silent d ev s)
  with poller_step_busy [OF silent.hyps(1,2)] cn_step_inv [OF silent.hyps(1)] show ?case
    by (auto simp: dial_inv_def successes_def)
next
  case (answer d ev s k err)
  note p = poller_step_busy [OF answer.hyps(1,2)] and i = cn_step_inv [OF answer.hyps(1)]
  show ?case
  proof (cases "err = ERR_SUCCESS")
    case True
    with p i answer show ?thesis by (auto simp: dial_inv_def dialed_cb_def successes_def)
  next
    case False
    with p answer have "cn_alive s" "pending_reports (cn_queue s) = []" by (auto simp: dial_inv_def)
    moreover have "d_sent d = successes s" using answer False by (simp add: dial_inv_def successes_def)
    ultimately show ?thesis using dial_inv_dial i answer.prems False by (simp add: dialed_cb_def dial_inv_def)
  qed
next
  case (failure d ev s err)
  note p = poller_step_busy [OF failure.hyps(1,2)] and i = cn_step_inv [OF failure.hyps(1)]
  from p failure have "cn_alive s" "pending_reports (cn_queue s) = []" "successes s = successes (d_cn d)"
    by (auto simp: dial_inv_def successes_def)
  with dial_inv_dial i failure.prems show ?case by (simp add: dial_inv_def)
next
  case (flushed d)
  with hang_ups_inv [of d 0] show ?case by simp
next
  case (received d n)
  with hang_ups_inv show ?case by blast
qed

lemma dial_run_inv: "dial_run d \<Longrightarrow> dial_inv d"
proof (induction rule: dial_run.induct)
  case main
  have "dial_inv (dial ((\<lparr>d_cn = cn_init, d_sent = 0\<rparr>)\<lparr>d_cn := cn_init\<rparr>))"
    by (rule dial_inv_dial [OF cn_init_inv]) (simp_all add: cn_init_def successes_def)
  then show ?case by simp
qed (auto intro: dial_step_inv)

text \<open>Every step of the poller has its continuation in the program, and some step is always possible.\<close>

lemma poller_step_dials:
  assumes "cn_step (d_cn d) ev s" and "poller_event ev" and "dial_inv d"
  shows "\<exists>d'. dial_step d d' \<and> (d_cn d' = s \<or> d_cn d' = cn_Connect s)"
proof -
  from poller_step_busy [OF assms(1,2)] assms(3) consider
    "cn_results s = cn_results (d_cn d)" "cn_errors s = cn_errors (d_cn d)"
  | k err where "cn_results s = cn_results (d_cn d) @ [(k, err)]"
  | err where "cn_errors s = cn_errors (d_cn d) @ [err]"
    unfolding dial_inv_def by blast
  then show ?thesis
  proof cases
    case 1
    from dial_step.silent [OF assms(1,2) this] show ?thesis by fastforce
  next
    case (2 k err)
    from dial_step.answer [OF assms(1,2) this] show ?thesis by (fastforce simp: dialed_cb_def dial_def)
  next
    case (3 err)
    from dial_step.failure [OF assms(1,2) this] show ?thesis by (fastforce simp: dial_def)
  qed
qed

lemma queue_step: "cn_queue s \<noteq> [] \<Longrightarrow> \<exists>ev s'. cn_step s ev s' \<and> poller_event ev"
proof (cases "cn_queue s")
  case (Cons t q)
  then show ?thesis
  proof (cases t)
    case (Resolve k)
    with Cons show ?thesis
      using cn_step.resolve [of s k q "-1"] by (auto simp: new_or_failed_def intro!: exI [of _ "EvResolve (-1)"])
  next
    case (Deliver k fd)
    with Cons show ?thesis using cn_step.deliver [of s k fd q True] by (auto intro!: exI [of _ "EvDeliver True"])
  next
    case (Report err)
    with Cons show ?thesis using cn_step.report [of s err q] by (auto intro!: exI [of _ EvReport])
  qed
qed simp

lemma dialing_goes_on:
  assumes "dial_inv d"
  shows "\<exists>d'. dial_step d d'"
proof -
  from assms have "busy (d_cn d) = 1" by (simp add: dial_inv_def)
  then consider k where "cn_timer (d_cn d) = Some k" | "attached (d_cn d)" | "cn_queue (d_cn d) \<noteq> []"
    by (fastforce simp: busy_def split: if_splits)
  then show ?thesis
  proof cases
    case 1
    then show ?thesis using poller_step_dials [OF cn_step.timeout _ assms] by fastforce
  next
    case 2
    then show ?thesis by (blast intro: dial_step.flushed)
  next
    case 3
    with queue_step poller_step_dials [OF _ _ assms] show ?thesis by blast
  qed
qed

section \<open>The server of test\_listen.cpp\<close>

text \<open>
  \<open>g_sockets\<close>, from the identifier of a socket, which is its address, to the socket: the only lasting
  reference to it. \<open>v_left\<close> are the descriptors that are still open when their socket is gone.
\<close>

record server =
  v_sockets :: "nat \<rightharpoonup> connector"
  v_left :: "int set"

definition v_open :: "server \<Rightarrow> int set" where
  "v_open v = v_left v \<union> (\<Union>s \<in> ran (v_sockets v). cn_open s)"

text \<open>
  The callback for an accepted connection puts the socket into the map, before it is attached; that
  for an error takes it out, and with that the socket is destroyed.
\<close>

definition serve :: "nat \<Rightarrow> int \<Rightarrow> bool \<Rightarrow> server \<Rightarrow> server" where
  "serve a fd ok v = v\<lparr>v_sockets := (v_sockets v)(a \<mapsto> cn_accepted fd ok cn_init)\<rparr>"

definition forget :: "nat \<Rightarrow> connector \<Rightarrow> server \<Rightarrow> server" where
  "forget a s v = v\<lparr>v_sockets := (v_sockets v)(a := None), v_left := v_left v \<union> cn_open (cn_destroy s)\<rparr>"

inductive serve_step :: "server \<Rightarrow> bool \<Rightarrow> server \<Rightarrow> bool" where
  accepts: "a \<notin> dom (v_sockets v) \<Longrightarrow> 0 \<le> fd \<Longrightarrow> fd \<notin> v_open v \<Longrightarrow> serve_step v ok (serve a fd ok v)"
| client: "v_sockets v a = Some s \<Longrightarrow> cn_step s ev s' \<Longrightarrow> poller_event ev \<Longrightarrow> cn_errors s' = cn_errors s \<Longrightarrow>
     serve_step v True (v\<lparr>v_sockets := (v_sockets v)(a \<mapsto> s')\<rparr>)"
| loses: "v_sockets v a = Some s \<Longrightarrow> cn_step s ev s' \<Longrightarrow> poller_event ev \<Longrightarrow> cn_errors s' = cn_errors s @ [err] \<Longrightarrow>
     serve_step v True (forget a s' v)"

inductive serve_run :: "bool \<Rightarrow> server \<Rightarrow> bool" where
  listens: "serve_run True \<lparr>v_sockets = Map.empty, v_left = {}\<rparr>"
| runs: "serve_run oks v \<Longrightarrow> serve_step v ok v' \<Longrightarrow> serve_run (oks \<and> ok) v'"

text \<open>A socket in the map is connected, or its error waits to be told.\<close>

definition served :: "connector \<Rightarrow> bool" where
  "served s \<longleftrightarrow> cn_inv s \<and> cn_alive s \<and> cn_timer s = None \<and> cn_errors s = [] \<and>
     ((\<exists>c. cn_sockfd s = Some c \<and> fd_connected c \<and> cn_events s = [raw_fd c \<mapsto> Attached] \<and> cn_queue s = [] \<and>
         cn_open s = {raw_fd c}) \<or>
      (\<exists>err. cn_sockfd s = None \<and> cn_events s = Map.empty \<and> cn_queue s = [Report err]))"

lemma served_cases:
  assumes "served s"
  obtains c where "cn_sockfd s = Some c" "cn_queue s = []" "cn_open s = {raw_fd c}"
  | err where "cn_sockfd s = None" "cn_queue s = [Report err]"
  using assms unfolding served_def by blast

lemma served_open:
  assumes "served s" and "cn_queue s \<noteq> [] \<Longrightarrow> cn_open s = {}"
  shows "cn_open s = {raw_fd c | c. cn_sockfd s = Some c}"
  using assms(1) by (cases rule: served_cases) (simp_all add: assms(2))

lemma accepted_served: "served (cn_accepted fd ok cn_init)"
  by (auto simp: cn_accepted_def SetPeerSocket_def cn_defs cn_init_def served_def cn_inv_def own_events_def)

lemma accepted_open: "cn_open (cn_accepted fd ok cn_init) = {fd}"
  by (auto simp: cn_accepted_def SetPeerSocket_def cn_defs cn_init_def)

lemma served_step:
  assumes "served s" and "cn_step s ev s'" and "poller_event ev"
  shows "cn_open s' \<subseteq> cn_open s \<and> (cn_errors s' = [] \<and> served s' \<and> (cn_queue s = [] \<longrightarrow> cn_open s' = {}) \<or>
    (\<exists>err. cn_errors s' = [err] \<and> cn_queue s = [Report err] \<and> cn_open (cn_destroy s') = cn_open s))"
  using assms(2,3,1)
proof (induction rule: cn_step.induct)
  case (report s err q)
  then show ?case
    by (auto simp: served_def run_report_def cn_destroy_def Close_own own_events_def cn_inv_def)
next
  case (error s c err)
  then have "cn_inv (cn_emit_error err s)"
    using cn_step_inv [OF cn_step.error [OF error.hyps]] by (simp add: served_def)
  with error show ?case
    by (auto simp: served_def emit_error_own [OF cn_inv_own])
qed (auto simp: served_def)

definition serve_inv :: "bool \<Rightarrow> server \<Rightarrow> bool" where
  "serve_inv oks v \<longleftrightarrow>
     (\<forall>a s. v_sockets v a = Some s \<longrightarrow> served s \<and> (oks \<and> cn_queue s \<noteq> [] \<longrightarrow> cn_open s = {}) \<and>
        cn_open s \<inter> v_left v = {} \<and>
        (\<forall>b s'. v_sockets v b = Some s' \<and> a \<noteq> b \<longrightarrow> cn_open s \<inter> cn_open s' = {})) \<and>
     (oks \<longrightarrow> v_left v = {})"

lemma serve_invD:
  assumes "serve_inv oks v" and "v_sockets v a = Some s"
  shows "served s" "oks \<Longrightarrow> cn_queue s \<noteq> [] \<Longrightarrow> cn_open s = {}" "cn_open s \<inter> v_left v = {}"
    "v_sockets v b = Some s' \<Longrightarrow> a \<noteq> b \<Longrightarrow> cn_open s \<inter> cn_open s' = {}"
  using assms unfolding serve_inv_def by blast+

lemma serve_invI:
  assumes "\<And>a s. v_sockets v a = Some s \<Longrightarrow> served s \<and> (oks \<and> cn_queue s \<noteq> [] \<longrightarrow> cn_open s = {}) \<and>
      cn_open s \<inter> v_left v = {}"
    and "\<And>a b s s'. v_sockets v a = Some s \<Longrightarrow> v_sockets v b = Some s' \<Longrightarrow> a \<noteq> b \<Longrightarrow> cn_open s \<inter> cn_open s' = {}"
    and "oks \<Longrightarrow> v_left v = {}"
  shows "serve_inv oks v"
  using assms unfolding serve_inv_def by blast

lemma serve_step_inv:
  assumes "serve_step v ok v'" and "serve_inv oks v"
  shows "serve_inv (oks \<and> ok) v'"
  using assms
proof (induction rule: serve_step.induct)
  case (accepts a v fd ok)
  let ?s = "cn_accepted fd ok cn_init"
  have new: "cn_open ?s \<inter> v_left v = {}" "\<And>b s'. v_sockets v b = Some s' \<Longrightarrow> cn_open ?s \<inter> cn_open s' = {}"
    using accepts.hyps(3) by (auto simp: accepted_open v_open_def ranI)
  have "ok \<Longrightarrow> cn_queue ?s = []"
    by (simp add: cn_accepted_def SetPeerSocket_def cn_defs cn_init_def)
  with accepts.prems new show ?case
    unfolding serve_inv_def serve_def by (auto simp: accepted_served)
next
  case (client v a s ev s')
  note i = serve_invD [OF client.prems client.hyps(1)]
  have "cn_errors s = []" using i(1) by (simp add: served_def)
  then have s': "cn_open s' \<subseteq> cn_open s" "served s'" "cn_queue s = [] \<Longrightarrow> cn_open s' = {}"
    using served_step [OF i(1) client.hyps(2,3)] client.hyps(4) by auto
  then have "oks \<Longrightarrow> cn_queue s' \<noteq> [] \<Longrightarrow> cn_open s' = {}" using i(2) by blast
  with client.prems s' i show ?case unfolding serve_inv_def by auto blast+
next
  case (loses v a s ev s' err)
  note i = serve_invD [OF loses.prems loses.hyps(1)]
  have "cn_errors s = []" using i(1) by (simp add: served_def)
  then have s': "cn_queue s \<noteq> []" "cn_open (cn_destroy s') = cn_open s"
    using served_step [OF i(1) loses.hyps(2,3)] loses.hyps(4) by auto
  have "oks \<Longrightarrow> cn_open s = {}" using i(2) s'(1) by blast
  moreover have "v_left v = {}" if oks using loses.prems that by (simp add: serve_inv_def)
  moreover have o: "served t \<and> (oks \<and> cn_queue t \<noteq> [] \<longrightarrow> cn_open t = {}) \<and> cn_open t \<inter> (v_left v \<union> cn_open s) = {}"
    if "v_sockets v b = Some t" "b \<noteq> a" for b t
    using serve_invD [OF loses.prems that(1)] serve_invD(4) [OF loses.prems that(1) loses.hyps(1) that(2)] by blast
  ultimately show ?case
    using serve_invD(4) [OF loses.prems] s'(2)
    by (intro serve_invI) (auto simp: forget_def split: if_splits)
qed

lemma serve_run_inv: "serve_run oks v \<Longrightarrow> serve_inv oks v"
  by (induction rule: serve_run.induct) (auto intro: serve_step_inv, simp add: serve_inv_def)

section \<open>Properties\<close>

text \<open>
  Property C19. The client of \<^verbatim>\<open>test_connect.cpp\<close> never gives up and has never two connections in play: at every moment exactly one
  of these holds - a call of \<open>Connect\<close> is under way, a connection is attached, or an error is on its
  way to the program, which will dial again. Each successful call has sent its data once, every
  step of the poller has its continuation in the program, and some step is always possible.
\<close>

theorem client_never_gives_up:
  assumes "dial_run d"
  shows "cn_alive (d_cn d) \<and>
    (if cn_timer (d_cn d) \<noteq> None then 1 else 0) + (if attached (d_cn d) then 1 else 0) +
      length (pending_reports (cn_queue (d_cn d))) = (1 :: nat) \<and>
    d_sent d = successes (d_cn d) \<and> (\<exists>d'. dial_step d d') \<and>
    (\<forall>ev s. cn_step (d_cn d) ev s \<and> poller_event ev \<longrightarrow>
       (\<exists>d'. dial_step d d' \<and> (d_cn d' = s \<or> d_cn d' = cn_Connect s)))"
proof -
  have i: "dial_inv d" by (rule dial_run_inv [OF assms])
  then have "cn_alive (d_cn d)" "busy (d_cn d) = 1" "d_sent d = successes (d_cn d)"
    by (simp_all add: dial_inv_def)
  with dialing_goes_on [OF i] poller_step_dials [OF _ _ i] show ?thesis
    unfolding busy_def by blast
qed

text \<open>
  Property C20. The map of the server in \<^verbatim>\<open>test_listen.cpp\<close> holds exactly the connections whose end the program has not
  been told: each socket in it is connected and attached, or its error is in the queue; no two of
  them share a descriptor; and as long as every registration succeeds, the descriptors that are open
  are those of the connected ones - the server loses none.
\<close>

theorem server_keeps_connections:
  assumes "serve_run oks v"
  shows "(\<forall>a s. v_sockets v a = Some s \<longrightarrow> cn_alive s \<and>
      ((\<exists>c. cn_sockfd s = Some c \<and> fd_connected c \<and> cn_events s = [raw_fd c \<mapsto> Attached] \<and> cn_queue s = []) \<or>
       (cn_sockfd s = None \<and> (\<exists>err. cn_queue s = [Report err])))) \<and>
    (\<forall>a b s s'. v_sockets v a = Some s \<and> v_sockets v b = Some s' \<and> a \<noteq> b \<longrightarrow> cn_open s \<inter> cn_open s' = {}) \<and>
    (oks \<longrightarrow> v_open v = {raw_fd c | a s c. v_sockets v a = Some s \<and> cn_sockfd s = Some c})"
proof -
  have i: "serve_inv oks v" by (rule serve_run_inv [OF assms])
  note d = serve_invD [OF i]
  have o: "cn_open s = {raw_fd c | c. cn_sockfd s = Some c}" if "oks" "v_sockets v a = Some s" for a s
    using served_open [OF d(1) [OF that(2)]] d(2) [OF that(2) that(1)] by blast
  have "v_open v = {raw_fd c | a s c. v_sockets v a = Some s \<and> cn_sockfd s = Some c}" if oks
  proof -
    have "v_left v = {}" using i that by (simp add: serve_inv_def)
    then have "v_open v = (\<Union>s \<in> ran (v_sockets v). cn_open s)" by (simp add: v_open_def)
    also have "\<dots> = (\<Union>s \<in> ran (v_sockets v). {raw_fd c | c. cn_sockfd s = Some c})"
      by (intro SUP_cong refl) (use o [OF that] in \<open>auto simp: ran_def\<close>)
    finally show ?thesis by (auto simp: ran_def)
  qed
  moreover have "cn_alive s \<and>
      ((\<exists>c. cn_sockfd s = Some c \<and> fd_connected c \<and> cn_events s = [raw_fd c \<mapsto> Attached] \<and> cn_queue s = []) \<or>
       (cn_sockfd s = None \<and> (\<exists>err. cn_queue s = [Report err])))" if "v_sockets v a = Some s" for a s
    using d(1) [OF that] unfolding served_def by blast
  moreover have "cn_open s \<inter> cn_open s' = {}"
    if "v_sockets v a = Some s \<and> v_sockets v b = Some s' \<and> a \<noteq> b" for a b s s'
    using d(4) that by blast
  ultimately show ?thesis by simp
qed

text \<open>A client whose first call has timed out, and one whose first call has connected.\<close>

lemma main_dials: "dial \<lparr>d_cn = cn_init, d_sent = 0\<rparr> = \<lparr>d_cn = cn_Connect cn_init, d_sent = 0\<rparr>"
  by (simp add: dial_def)

lemma timed_out_run: "dial_run (dial \<lparr>d_cn = connect_cb 0 ERR_TIMEOUT (cn_Connect cn_init), d_sent = 0\<rparr>)"
proof -
  let ?d = "\<lparr>d_cn = cn_Connect cn_init, d_sent = 0\<rparr>"
  have "dial_step ?d (dialed_cb ERR_TIMEOUT (?d\<lparr>d_cn := connect_cb 0 ERR_TIMEOUT (d_cn ?d)\<rparr>))"
    by (rule dial_step.answer [OF cn_step.timeout, where k = 0]) (simp_all add: cn_defs cn_init_def)
  from dial_run.goes_on [OF dial_run.main [unfolded main_dials] this] show ?thesis
    by (simp add: dialed_cb_def)
qed

theorem client_never_gives_up_witness:
  "\<exists>d. dial_run d \<and> cn_results (d_cn d) = [(0, ERR_TIMEOUT)] \<and> cn_timer (d_cn d) = Some 1 \<and> (\<exists>d'. dial_step d d')"
proof -
  let ?d = "dial \<lparr>d_cn = connect_cb 0 ERR_TIMEOUT (cn_Connect cn_init), d_sent = 0\<rparr>"
  have "cn_results (d_cn ?d) = [(0, ERR_TIMEOUT)]" "cn_timer (d_cn ?d) = Some 1"
    by (simp_all add: dial_def cn_defs cn_init_def)
  moreover have "\<exists>d'. dial_step ?d d'" using client_never_gives_up [OF timed_out_run] by blast
  ultimately show ?thesis using timed_out_run by blast
qed

theorem server_keeps_connections_witness:
  "\<exists>v. serve_run True v \<and> v_sockets v 7 \<noteq> None \<and> v_open v = {5}"
proof -
  let ?v = "serve 7 5 True \<lparr>v_sockets = Map.empty, v_left = {}\<rparr>"
  have "serve_step \<lparr>v_sockets = Map.empty, v_left = {}\<rparr> True ?v"
    by (rule serve_step.accepts) (simp_all add: v_open_def)
  from serve_run.runs [OF serve_run.listens this] have r: "serve_run True ?v" by simp
  have "v_open ?v = {raw_fd c | a s c. v_sockets ?v a = Some s \<and> cn_sockfd s = Some c}"
    using server_keeps_connections [OF r] by blast
  also have "\<dots> = {5}"
    by (auto simp: serve_def cn_accepted_def SetPeerSocket_def cn_defs cn_init_def)
  finally show ?thesis using r by (intro exI [of _ ?v]) (simp add: serve_def)
qed

end
