(* ===== verification/TestUdp.thy ===== *)
theory TestUdp
  imports SocketEvents
begin

text \<open>
  The program \<^verbatim>\<open>test/test_udp_listen.cpp\<close> as a user of the socket: it sends a datagram, and whenever all
  has been sent the flush callback sends the next one, so that there is always something under way. The
  tasks that \<open>Send\<close> has queued are kept beside the state of the kernel.
\<close>

section \<open>The program\<close>

text \<open>\<open>fff\<close>, of 63 KB, and \<open>sizeof(ss)\<close>.\<close>

definition fff :: "byte list" where
  "fff = 1 # replicate (63 * 1024 - 1) 0"

abbreviation sizeof_ss :: u32 where
  "sizeof_ss \<equiv> 128"

text \<open>\<open>Send\<close>, with the task that it queues by \<open>AsyncFirst\<close>.\<close>

definition queue_Send :: "byte list \<Rightarrow> int \<Rightarrow> byte list \<Rightarrow> ('j \<times> packet list) socket \<Rightarrow> ('j \<times> packet list) socket" where
  "queue_Send buf n ss sk =
     (case Send buf n (Some ss) sizeof_ss sk of
        Inr (_, Some p) \<Rightarrow> sk\<lparr>kern_st := (fst (kern_st sk), p # snd (kern_st sk))\<rparr>
      | _ \<Rightarrow> sk)"

text \<open>The flush callback.\<close>

definition send_again :: "byte list \<Rightarrow> ('j \<times> packet list) socket \<Rightarrow> bool \<times> ('j \<times> packet list) socket" where
  "send_again ss sk = (True, queue_Send fff (int (length fff)) ss sk)"

definition pinging_env :: "byte list \<Rightarrow> ('j \<times> packet list) sock_env \<Rightarrow> ('j \<times> packet list) sock_env" where
  "pinging_env ss E = E\<lparr>env_flushed := (\<lambda>_. send_again ss)\<rparr>"

text \<open>
  The program after \<open>Listen\<close> has registered \<open>fd\<close>: the callback is set and \<open>helloworld\<close> is given to
  \<open>Send\<close>. It is then in the hands of the poller, until \<open>Shutdown\<close> closes that.
\<close>

definition helloworld :: "byte list" where
  "helloworld = [104, 101, 108, 108, 111, 119, 111, 114, 108, 100]"

definition udp_main :: "byte list \<Rightarrow> ('j \<times> packet list) socket \<Rightarrow> ('j \<times> packet list) socket" where
  "udp_main ss sk = queue_Send helloworld 10 ss (SetOnFlushed (Some 0) sk)"

inductive udp_step ::
  "('j \<times> packet list) sock_env \<Rightarrow> ('j \<times> packet list) recv_env \<Rightarrow>
   raw_buf \<times> ('j \<times> packet list) socket \<Rightarrow> raw_buf \<times> ('j \<times> packet list) socket \<Rightarrow> bool" for E R where
  task: "\<not> env_closed E (kern_st sk) \<Longrightarrow> sockfd sk = Some fd \<Longrightarrow> kern_st sk = (k, ts @ p # ts') \<Longrightarrow>
     udp_step E R (b, sk) (b, send_task E fd p (sk\<lparr>kern_st := (k, ts @ ts')\<rparr>))"
| event: "\<not> env_closed E (kern_st sk) \<Longrightarrow> sockfd sk = Some fd \<Longrightarrow>
     attach_cb E R True True fd event b sk = Some (Inr (b', sk')) \<Longrightarrow> udp_step E R (b, sk) (b', sk')"

section \<open>There is always something under way\<close>

text \<open>No call of the system reaches the queue, and the callback for reading does nothing.\<close>

definition queue_frame :: "('j \<times> packet list) sock_env \<Rightarrow> ('j \<times> packet list) recv_env \<Rightarrow> bool" where
  "queue_frame E R \<longleftrightarrow>
     (\<forall>fd m k. snd (env_modify E fd m k) = snd k) \<and>
     (\<forall>fd c k. snd (snd (rcv_recvfrom R fd c k)) = snd k) \<and> (\<forall>b a sk. rcv_read_cb R b a sk = sk)"

lemma queue_frameD:
  assumes "queue_frame E R"
  shows "snd (env_modify E fd m k) = snd k" "rcv_recvfrom R fd c k = (x, k') \<Longrightarrow> snd k' = snd k"
    "rcv_read_cb R b a sk = sk"
proof -
  note f = assms [unfolded queue_frame_def]
  from f show "snd (env_modify E fd m k) = snd k" "rcv_read_cb R b a sk = sk" by blast+
  assume "rcv_recvfrom R fd c k = (x, k')"
  with f [THEN conjunct2, THEN conjunct1, rule_format, of fd c k] show "snd k' = snd k" by simp
qed

definition has_data :: "('j \<times> packet list) socket \<Rightarrow> bool" where
  "has_data sk \<longleftrightarrow> snd (kern_st sk) \<noteq> [] \<or> send_buf_sending sk \<noteq> [] \<or> send_buf_waiting sk \<noteq> []"

definition under_way :: "('j \<times> packet list) sock_env \<Rightarrow> ('j \<times> packet list) socket \<Rightarrow> bool" where
  "under_way E sk \<longleftrightarrow> sockfd sk = None \<or> env_closed E (kern_st sk) \<or> has_data sk"

definition armed_again :: "('j \<times> packet list) socket \<Rightarrow> bool" where
  "armed_again sk \<longleftrightarrow> flushed_cb sk = Some 0"

lemma Send_datagram:
  assumes "0 < n" and "n < 2 ^ 31" and "n \<le> length buf" and "128 \<le> length ss" and "sockfd sk = Some fd"
  shows "\<exists>p. Send buf (int n) (Some ss) sizeof_ss sk = Inr (0, Some p)"
proof -
  let ?fd = "\<lparr>raw_fd = 0, fd_type = SOCK_TCP, fd_connected = True\<rparr>"
  have "\<exists>b. Assign buf (word_of_int (int n)) (raw_new 0) = Inr b \<and> raw_size b \<noteq> 0"
    using Send_packet [OF assms(1-3), of "sk\<lparr>sockfd := Some ?fd\<rparr>" ?fd None 0] assms(1)
    by (auto simp: Send_def sock_send_def split: sum.splits if_splits)
  with assms(1,4,5) show ?thesis by (auto simp: Send_def sock_send_def sock_new_def)
qed

lemma queue_Send_under_way:
  assumes "0 < n" and "n < 2 ^ 31" and "n \<le> length buf" and "128 \<le> length ss"
  shows "under_way E (queue_Send buf (int n) ss sk)"
proof (cases "sockfd sk")
  case None
  from Send_closed [OF assms(1-3) None] None show ?thesis by (simp add: queue_Send_def under_way_def)
next
  case (Some fd)
  from Send_datagram [OF assms Some] show ?thesis by (auto simp: queue_Send_def under_way_def has_data_def)
qed

lemma queue_Send_keeps:
  "flushed_cb (queue_Send buf n ss sk) = flushed_cb sk" "sockfd (queue_Send buf n ss sk) = sockfd sk"
  by (auto simp: queue_Send_def split: sum.split option.split)

lemma send_again_under_way: "128 \<le> length ss \<Longrightarrow> under_way E (snd (send_again ss sk))"
  unfolding send_again_def snd_conv by (rule queue_Send_under_way) (simp_all add: fff_def)

lemma flushed_under_way:
  assumes "128 \<le> length ss" and "armed_again sk"
  shows "under_way E' (on_flushed (pinging_env ss E) sk) \<and> armed_again (on_flushed (pinging_env ss E) sk)"
proof -
  have "on_flushed (pinging_env ss E) sk = snd (send_again ss sk)"
    using assms(2) by (simp add: on_flushed_def pinging_env_def send_again_def armed_again_def)
  with assms send_again_under_way show ?thesis
    by (simp add: armed_again_def) (simp add: send_again_def queue_Send_keeps)
qed

lemma armed_upd [simp]:
  "armed_again (sk\<lparr>kern_st := k\<rparr>) = armed_again sk" "armed_again (sk\<lparr>err_no := e\<rparr>) = armed_again sk"
  "armed_again (sk\<lparr>sending := s\<rparr>) = armed_again sk" "armed_again (sk\<lparr>send_buf_sending := l\<rparr>) = armed_again sk"
  "armed_again (sk\<lparr>send_buf_waiting := w\<rparr>) = armed_again sk"
  by (simp_all add: armed_again_def)

lemma armed_emit: "armed_again sk \<Longrightarrow> armed_again (snd (emit_error err sk))"
  by (cases "sockfd sk") (simp_all add: emit_error_def Close_def armed_again_def)

lemma armed_error: "armed_again sk \<Longrightarrow> armed_again (snd (on_error E fd sk))"
proof -
  assume a: "armed_again sk"
  obtain err e where g: "get_socket_error E True fd sk =
      (err, sk\<lparr>kern_st := snd (env_so_error E (raw_fd fd) (kern_st sk)), err_no := e\<rparr>)"
    by (rule get_socket_error_upd)
  have "armed_again (sk\<lparr>kern_st := snd (env_so_error E (raw_fd fd) (kern_st sk)), err_no := e\<rparr>)" using a by simp
  from armed_emit [OF this] show ?thesis by (simp add: on_error_def g)
qed

lemma error_under_way:
  "under_way E' (snd (emit_error err sk))" "under_way E' (snd (on_error E fd sk))"
  using emit_error_lists [of err sk] on_error_lists [of E fd sk] by (simp_all add: under_way_def)

lemma send_batches_end:
  assumes "send_batches E fd tmp sk = Some (r, tmp', sk')"
  shows "(armed_again sk \<longrightarrow> armed_again sk') \<and> (r = WouldBlock \<longrightarrow> tmp' \<noteq> [])"
  using assms
proof (induction tmp arbitrary: sk)
  case (Cons pkt tmp)
  then obtain n pkt' e k where
    "bl_send (env_sendmsg E) (raw_fd fd) (socket_flags sk) (fd_type fd = SOCK_UDP) pkt (err_no sk) (kern_st sk) =
       Some (n, pkt', e, k)" by auto
  with Cons.IH [of "sk\<lparr>err_no := e, kern_st := k\<rparr>"] Cons.prems show ?case
    by (auto simp: Let_def split: if_splits)
qed auto

lemma flush_under_way:
  assumes "flush_data (pinging_env ss E) fd sk = Some y" and "128 \<le> length ss" and "armed_again sk"
  shows "under_way (pinging_env ss E) (snd y) \<and> armed_again (snd y)"
proof -
  let ?E = "pinging_env ss E"
  let ?ok = "\<lambda>sk. under_way ?E sk \<and> armed_again sk"
  have "?E = ?E \<longrightarrow> armed_again sk \<longrightarrow> ?ok (snd y)"
  proof (rule flush_data.raw_induct [where P = "\<lambda>E' fd' sk y. E' = ?E \<longrightarrow> armed_again sk \<longrightarrow> ?ok (snd y)",
      OF _ assms(1)], intro impI)
    fix self E' fd' sk y
    assume IH: "\<And>E' fd' sk y. self E' fd' sk = Some y \<Longrightarrow> E' = ?E \<longrightarrow> armed_again sk \<longrightarrow> ?ok (snd y)"
      and body: "(if env_closed E' (kern_st sk) then Some (False, sk)
        else if send_buf_sending sk = [] \<and> send_buf_waiting sk = []
        then Some (True, on_flushed E' (stop_writeable_event E' fd' sk))
        else
          (let (tmp, sk0) =
             (if send_buf_sending sk \<noteq> [] then (send_buf_sending sk, sk\<lparr>send_buf_sending := []\<rparr>)
              else ([bl_new (send_buf_waiting sk)], sk\<lparr>send_buf_waiting := []\<rparr>))
           in send_batches E' fd' tmp sk0 \<bind>
                (\<lambda>(r, tmp', sk1). case r of
                   AllSent \<Rightarrow> self E' fd' sk1
                 | WouldBlock \<Rightarrow> Some (True, sk1\<lparr>send_buf_sending := tmp' @ send_buf_sending sk1\<rparr>)
                 | SendError \<Rightarrow> Some (False, snd (on_error E' fd' sk1))))) = Some y"
      and E: "E' = ?E" and a: "armed_again sk"
    show "?ok (snd y)"
    proof (cases "env_closed E' (kern_st sk) \<or> (send_buf_sending sk = [] \<and> send_buf_waiting sk = [])")
      case True
      have "armed_again (stop_writeable_event E' fd' sk)" using a by (simp add: stop_writeable_event_def)
      with flushed_under_way [OF assms(2) this, of ?E E] True body a E show ?thesis
        by (auto simp: under_way_def split: if_splits)
    next
      case False
      obtain tmp sk0 where t: "(if send_buf_sending sk \<noteq> [] then (send_buf_sending sk, sk\<lparr>send_buf_sending := []\<rparr>)
          else ([bl_new (send_buf_waiting sk)], sk\<lparr>send_buf_waiting := []\<rparr>)) = (tmp, sk0)"
        by fastforce
      have a0: "armed_again sk0" using t a by (auto split: if_splits)
      have c: "env_closed E' (kern_st sk) = False"
        "(send_buf_sending sk = [] \<and> send_buf_waiting sk = []) = False" using False by auto
      from body [unfolded c if_False t Let_def prod.case] obtain r tmp' sk1
        where b: "send_batches E' fd' tmp sk0 = Some (r, tmp', sk1)"
        and y: "(case r of AllSent \<Rightarrow> self E' fd' sk1
                 | WouldBlock \<Rightarrow> Some (True, sk1\<lparr>send_buf_sending := tmp' @ send_buf_sending sk1\<rparr>)
                 | SendError \<Rightarrow> Some (False, snd (on_error E' fd' sk1))) = Some y"
        by (auto simp del: send_batches.simps)
      have a1: "armed_again sk1" "r = WouldBlock \<longrightarrow> tmp' \<noteq> []" using send_batches_end [OF b] a0 by simp_all
      show ?thesis
      proof (cases r)
        case AllSent
        with y IH [of E' fd' sk1 y] E a1 show ?thesis by simp
      next
        case WouldBlock
        with y a1 show ?thesis by (auto simp: under_way_def has_data_def)
      next
        case SendError
        with y a1 armed_error error_under_way show ?thesis by auto
      qed
    qed
  qed
  with assms(3) show ?thesis by simp
qed

lemma writeable_under_way:
  assumes "on_writeable (pinging_env ss E) fd sk = Some sk'" and "128 \<le> length ss" and "queue_frame E R"
    and "armed_again sk" and "has_data sk"
  shows "under_way (pinging_env ss E) sk' \<and> armed_again sk'"
proof (cases "send_buf_sending sk = [] \<and> send_buf_waiting sk = []")
  case True
  have "env_modify (pinging_env ss E) = env_modify E" by (simp add: pinging_env_def)
  with True assms(1,4,5) queue_frameD(1) [OF assms(3), of "raw_fd fd" _ "kern_st sk"] show ?thesis
    by (auto simp: on_writeable_def stop_writeable_event_def under_way_def has_data_def)
next
  case False
  with assms(1) obtain b where "flush_data (pinging_env ss E) fd sk = Some (b, sk')"
    by (auto simp: on_writeable_def)
  from flush_under_way [OF this assms(2,4)] show ?thesis by simp
qed

lemma read_under_way:
  assumes "on_read E' R is_udp fd b sk = Some (Inr (nr, b', sk'))" and "queue_frame E R"
    and "armed_again sk" and "has_data sk"
  shows "armed_again sk' \<and> (sockfd sk' = None \<or> has_data sk')"
proof -
  let ?P = "\<lambda>v. armed_again v \<and> has_data v"
  have "\<exists>sk1. ?P sk1 \<and> snd (snd (nr, b', sk')) \<in> {sk1, snd (emit_error eof_error sk1), snd (on_error E' fd sk1)}"
    by (rule read_loop_keeps [where P = ?P, OF assms(1) [unfolded on_read_def]])
      (use assms(3,4) queue_frameD [OF assms(2)] in \<open>auto simp: has_data_def\<close>)
  then obtain sk1 where "?P sk1" "sk' \<in> {sk1, snd (emit_error eof_error sk1), snd (on_error E' fd sk1)}" by auto
  then show ?thesis
    using armed_emit [of sk1 eof_error] armed_error [of sk1 E' fd] emit_error_lists [of eof_error sk1]
      on_error_lists [of E' fd sk1] by auto
qed

lemma udp_event:
  assumes "attach_cb (pinging_env ss E) R True True fd event b sk = Some (Inr (b', sk'))"
    and "128 \<le> length ss" and "queue_frame E R" and "armed_again sk" and "has_data sk"
  shows "under_way (pinging_env ss E) sk' \<and> armed_again sk'"
  using assms(1)
proof (rule attach_cb_parts)
  let ?E = "pinging_env ss E"
  fix nr sk1 sk2
  assume r: "(if has event PE_READ then on_read ?E R True fd b sk else Some (Inr (0, b, sk))) = Some (Inr (nr, b', sk1))"
    and w: "(if sockfd sk1 \<noteq> None \<and> has event PE_WRITE then on_writeable ?E fd sk1 else Some sk1) = Some sk2"
    and e: "sk' = (if sockfd sk2 \<noteq> None \<and> has event PE_ERROR then snd (on_error ?E fd sk2) else sk2)"
  have 1: "armed_again sk1 \<and> (sockfd sk1 = None \<or> has_data sk1)"
    using r read_under_way [OF _ assms(3-5)] assms(4,5) by (auto split: if_splits)
  have "under_way ?E sk2 \<and> armed_again sk2"
  proof (cases "sockfd sk1 \<noteq> None \<and> has event PE_WRITE")
    case True
    with 1 w writeable_under_way [OF _ assms(2,3)] show ?thesis by auto
  next
    case False
    with 1 w show ?thesis by (auto simp: under_way_def)
  qed
  with e armed_error error_under_way show ?thesis by auto
qed

text \<open>
  After \<open>main\<close> there is always something under way - a task of \<open>Send\<close>, packets that wait, or a batch
  that is not sent yet - until an error closes the socket or the poller ends.
\<close>

lemma udp_step_under_way:
  assumes "udp_step (pinging_env ss E) R s s'" and "128 \<le> length ss" and "queue_frame E R"
    and "under_way (pinging_env ss E) (snd s) \<and> armed_again (snd s)"
  shows "under_way (pinging_env ss E) (snd s') \<and> armed_again (snd s')"
  using assms
proof (induction rule: udp_step.induct)
  case (task sk fd k ts p ts' b)
  then show ?case
    by (simp add: send_task_def Let_def start_writeable_event_def under_way_def has_data_def armed_again_def)
next
  case (event sk fd b event b' sk')
  then have "has_data sk" by (simp add: under_way_def)
  with event udp_event [OF event.hyps(3) event.prems(1,2)] show ?case by simp
qed

theorem pinging_never_stops:
  assumes "128 \<le> length ss" and "queue_frame E R" and "(udp_step (pinging_env ss E) R)\<^sup>*\<^sup>* (b, udp_main ss sk) (b', sk')"
  shows "sockfd sk' = None \<or> env_closed E (kern_st sk') \<or> snd (kern_st sk') \<noteq> [] \<or>
    send_buf_sending sk' \<noteq> [] \<or> send_buf_waiting sk' \<noteq> []"
proof -
  have "under_way (pinging_env ss E) (udp_main ss sk)"
    unfolding udp_main_def using queue_Send_under_way [of 10 helloworld ss] assms(1) by (simp add: helloworld_def)
  moreover have "armed_again (udp_main ss sk)"
    by (simp add: udp_main_def armed_again_def queue_Send_keeps SetOnFlushed_def)
  ultimately have start: "under_way (pinging_env ss E) (snd (b, udp_main ss sk)) \<and> armed_again (snd (b, udp_main ss sk))"
    by simp
  from assms(3) have "under_way (pinging_env ss E) (snd (b', sk')) \<and> armed_again (snd (b', sk'))"
    by (rule rtranclp_induct [where P = "\<lambda>s. under_way (pinging_env ss E) (snd s) \<and> armed_again (snd s)"])
      (rule start, rule udp_step_under_way [OF _ assms(1,2)])
  then show ?thesis by (simp add: under_way_def has_data_def pinging_env_def)
qed

end
