(* ===== verification/LogWriter.thy ===== *)
theory LogWriter
  imports Semaphore "HOL-Library.Sublist"
begin

text \<open>
  The asynchronous writer of \<^verbatim>\<open>utils/logger.cpp\<close>: any number of threads add messages to a list
  that is guarded by a mutex and post a semaphore; one thread of the writer waits for the
  semaphore and writes the list out; the destructor stops that thread, joins it and writes what
  is left. A step is a critical section, a step of the semaphore, the writing of one message, or
  a step of the destructor.
\<close>

datatype 'm worker_pc = AtLoop | AtWait | AtFlush | Writing "'m list" | Finished

datatype 'm dtor_pc = Alive | Stopping | Joining | LastFlush | LastWriting "'m list" | Destroyed

text \<open>
  \<open>lw_pctxs\<close>, \<open>lw_sem\<close> and \<open>lw_running\<close> are the fields \<open>pctxs_\<close>, \<open>sem_\<close> and \<open>running_\<close>; \<open>lw_posting\<close>
  are the threads between the two halves of \<open>Write\<close>; \<open>lw_written\<close> is what the channels have been
  given. The thread of the writer is thread 0 of the semaphore.
\<close>

record 'm log_writer =
  lw_pctxs :: "'m list"
  lw_sem :: sem
  lw_running :: bool
  lw_posting :: "tid set"
  lw_worker :: "'m worker_pc"
  lw_dtor :: "'m dtor_pc"
  lw_written :: "'m list"

text \<open>The constructor starts the thread.\<close>

definition lw_init :: "'m log_writer" where
  "lw_init = \<lparr>lw_pctxs = [], lw_sem = sem_init, lw_running = True, lw_posting = {},
              lw_worker = AtLoop, lw_dtor = Alive, lw_written = []\<rparr>"

text \<open>The two halves of \<open>AsyncLogWriter::Write\<close>.\<close>

definition Write_insert :: "tid \<Rightarrow> 'm \<Rightarrow> 'm log_writer \<Rightarrow> 'm log_writer" where
  "Write_insert t m s = s\<lparr>lw_pctxs := lw_pctxs s @ [m], lw_posting := insert t (lw_posting s)\<rparr>"

definition Write_post :: "tid \<Rightarrow> sem \<Rightarrow> 'm log_writer \<Rightarrow> 'm log_writer" where
  "Write_post t sm s = s\<lparr>lw_sem := sm, lw_posting := lw_posting s - {t}\<rparr>"

text \<open>The swap at the start of \<open>flush_all\<close>, and the writing of one message.\<close>

definition flush_swap :: "'m log_writer \<Rightarrow> 'm list \<times> 'm log_writer" where
  "flush_swap s = (lw_pctxs s, s\<lparr>lw_pctxs := []\<rparr>)"

definition write_to_channels :: "'m \<Rightarrow> 'm log_writer \<Rightarrow> 'm log_writer" where
  "write_to_channels m s = s\<lparr>lw_written := lw_written s @ [m]\<rparr>"

datatype 'm lw_event =
    LAdd tid 'm | LPost tid
  | LCheck | LPass | LSleep | LWake | LSwap | LEmit 'm | LNext
  | LStop | LStopPost | LJoin | LLastSwap | LLastEmit 'm | LEnd

text \<open>No thread may be in \<open>Write\<close> when the writer is destroyed, nor call it after that.\<close>

inductive lw_step :: "'m log_writer \<Rightarrow> 'm lw_event \<Rightarrow> 'm log_writer \<Rightarrow> bool" where
  add: "lw_dtor s = Alive \<Longrightarrow> t \<notin> lw_posting s \<Longrightarrow> lw_step s (LAdd t m) (Write_insert t m s)"
| post: "t \<in> lw_posting s \<Longrightarrow> sem_step (lw_sem s) (Posted 1) sm \<Longrightarrow>
     lw_step s (LPost t) (Write_post t sm s)"
| check: "lw_worker s = AtLoop \<Longrightarrow>
     lw_step s LCheck (s\<lparr>lw_worker := (if lw_running s then AtWait else Finished)\<rparr>)"
| pass: "lw_worker s = AtWait \<Longrightarrow> sem_step (lw_sem s) (Passed 0) sm \<Longrightarrow>
     lw_step s LPass (s\<lparr>lw_sem := sm, lw_worker := AtFlush\<rparr>)"
| sleep: "lw_worker s = AtWait \<Longrightarrow> sem_step (lw_sem s) (Slept 0) sm \<Longrightarrow>
     lw_step s LSleep (s\<lparr>lw_sem := sm\<rparr>)"
| wake: "lw_worker s = AtWait \<Longrightarrow> sem_step (lw_sem s) (Spurious 0) sm \<Longrightarrow>
     lw_step s LWake (s\<lparr>lw_sem := sm\<rparr>)"
| swap: "lw_worker s = AtFlush \<Longrightarrow> flush_swap s = (ms, s1) \<Longrightarrow>
     lw_step s LSwap (s1\<lparr>lw_worker := Writing ms\<rparr>)"
| emit: "lw_worker s = Writing (m # ms) \<Longrightarrow>
     lw_step s (LEmit m) ((write_to_channels m s)\<lparr>lw_worker := Writing ms\<rparr>)"
| round: "lw_worker s = Writing [] \<Longrightarrow> lw_step s LNext (s\<lparr>lw_worker := AtLoop\<rparr>)"
| stop: "lw_dtor s = Alive \<Longrightarrow> lw_posting s = {} \<Longrightarrow>
     lw_step s LStop (s\<lparr>lw_running := False, lw_dtor := Stopping\<rparr>)"
| stop_post: "lw_dtor s = Stopping \<Longrightarrow> sem_step (lw_sem s) (Posted 1) sm \<Longrightarrow>
     lw_step s LStopPost (s\<lparr>lw_sem := sm, lw_dtor := Joining\<rparr>)"
| join: "lw_dtor s = Joining \<Longrightarrow> lw_worker s = Finished \<Longrightarrow>
     lw_step s LJoin (s\<lparr>lw_dtor := LastFlush\<rparr>)"
| last_swap: "lw_dtor s = LastFlush \<Longrightarrow> flush_swap s = (ms, s1) \<Longrightarrow>
     lw_step s LLastSwap (s1\<lparr>lw_dtor := LastWriting ms\<rparr>)"
| last_emit: "lw_dtor s = LastWriting (m # ms) \<Longrightarrow>
     lw_step s (LLastEmit m) ((write_to_channels m s)\<lparr>lw_dtor := LastWriting ms\<rparr>)"
| last: "lw_dtor s = LastWriting [] \<Longrightarrow> lw_step s LEnd (s\<lparr>lw_dtor := Destroyed\<rparr>)"

lemmas lw_ops = Write_insert_def Write_post_def flush_swap_def write_to_channels_def

inductive lw_run :: "'m log_writer \<Rightarrow> 'm lw_event list \<Rightarrow> 'm log_writer \<Rightarrow> bool" where
  lw_nil: "lw_run s [] s"
| lw_snoc: "lw_run s evs s1 \<Longrightarrow> lw_step s1 ev s2 \<Longrightarrow> lw_run s (evs @ [ev]) s2"

lemma lw_run_append: "lw_run s2 es s3 \<Longrightarrow> lw_run s1 evs s2 \<Longrightarrow> lw_run s1 (evs @ es) s3"
  by (induction rule: lw_run.induct) (auto intro: lw_snoc simp flip: append_assoc)

text \<open>The messages that were given to the writer, in the order in which they got into its list.\<close>

fun lw_added :: "'m lw_event list \<Rightarrow> 'm list" where
  "lw_added [] = []"
| "lw_added (LAdd t m # evs) = m # lw_added evs"
| "lw_added (_ # evs) = lw_added evs"

lemma lw_added_append [simp]: "lw_added (evs @ es) = lw_added evs @ lw_added es"
  by (induction evs rule: lw_added.induct) auto

section \<open>Every message is in one place\<close>

fun in_hand :: "'m worker_pc \<Rightarrow> 'm list" where
  "in_hand (Writing ms) = ms"
| "in_hand _ = []"

fun last_in_hand :: "'m dtor_pc \<Rightarrow> 'm list" where
  "last_in_hand (LastWriting ms) = ms"
| "last_in_hand _ = []"

text \<open>How far the destructor is: while it joins, and after that.\<close>

fun joined :: "'m dtor_pc \<Rightarrow> bool" where
  "joined Alive = False"
| "joined Stopping = False"
| "joined Joining = False"
| "joined _ = True"

lemma not_joined [simp]: "\<not> joined d \<Longrightarrow> last_in_hand d = []"
  by (cases d) auto

definition lw_msgs_inv :: "'m log_writer \<Rightarrow> 'm list \<Rightarrow> bool" where
  "lw_msgs_inv s ms \<longleftrightarrow>
     ms = lw_written s @ in_hand (lw_worker s) @ last_in_hand (lw_dtor s) @ lw_pctxs s \<and>
     (joined (lw_dtor s) \<longrightarrow> lw_worker s = Finished) \<and>
     (lw_dtor s \<noteq> Alive \<longrightarrow> lw_posting s = {} \<and> \<not> lw_running s) \<and>
     (\<forall>ms'. lw_dtor s = LastWriting ms' \<or> lw_dtor s = Destroyed \<longrightarrow> lw_pctxs s = [])"

lemma lw_msgs_step:
  assumes "lw_step s ev s'" and "lw_msgs_inv s ms"
  shows "lw_msgs_inv s' (ms @ lw_added [ev])"
  using assms by (induction rule: lw_step.induct) (auto simp: lw_msgs_inv_def lw_ops)

lemma lw_msgs: "lw_run lw_init evs s \<Longrightarrow> lw_msgs_inv s (lw_added evs)"
proof (induction "lw_init :: 'a log_writer" evs s rule: lw_run.induct)
  case lw_nil
  show ?case by (simp add: lw_msgs_inv_def lw_init_def)
next
  case (lw_snoc evs s1 ev s2)
  then show ?case using lw_msgs_step by fastforce
qed

section \<open>The thread of the writer can be joined\<close>

text \<open>
  Until its thread has ended, the destructor's post is in the counter unless the thread is past
  its last \<open>Wait\<close>; the counter cannot have wrapped.
\<close>

fun posted_stop :: "'m dtor_pc \<Rightarrow> nat" where
  "posted_stop Alive = 0"
| "posted_stop Stopping = 0"
| "posted_stop _ = 1"

definition lw_sem_inv :: "'m log_writer \<Rightarrow> nat \<Rightarrow> bool" where
  "lw_sem_inv s n \<longleftrightarrow>
     sem_inv (lw_sem s) \<and> sem_asleep (lw_sem s) \<subseteq> {0} \<and> sem_awake (lw_sem s) \<subseteq> {0} \<and>
     (sem_asleep (lw_sem s) \<noteq> {} \<longrightarrow> lw_worker s = AtWait) \<and>
     finite (lw_posting s) \<and>
     unat (sem_count (lw_sem s)) + card (lw_posting s) \<le> n + posted_stop (lw_dtor s) \<and>
     (lw_dtor s \<noteq> Alive \<longrightarrow> \<not> lw_running s \<and> lw_posting s = {}) \<and>
     (posted_stop (lw_dtor s) = 1 \<and> lw_worker s = AtWait \<longrightarrow> sem_count (lw_sem s) \<noteq> 0)"

lemma sem_post_fields [simp]:
  "sem_count (sem_post n pick s) = sem_count s + n"
  by (simp add: sem_post_def Let_def split: option.splits)

text \<open>Only the thread of the writer waits, so that it is the only thread that can be woken.\<close>

lemma post_threads:
  assumes "sem_step sm (Posted 1) sm'" and "sem_asleep sm \<subseteq> {0} \<and> sem_awake sm \<subseteq> {0}"
  shows "sem_asleep sm' \<subseteq> {0} \<and> sem_awake sm' \<subseteq> {0}" and "sem_count sm' = sem_count sm + 1"
    and "sem_asleep sm' \<noteq> {} \<Longrightarrow> sem_asleep sm \<noteq> {}"
  using assms by (auto elim!: sem_postE simp: sem_post_def Let_def split: option.splits)

lemma wait_threads:
  assumes "sem_asleep sm \<subseteq> {0} \<and> sem_awake sm \<subseteq> {0}"
  shows "sem_step sm (Passed 0) sm' \<Longrightarrow>
      sem_asleep sm' = {} \<and> sem_awake sm' \<subseteq> {0} \<and> sem_count sm \<noteq> 0 \<and> sem_count sm' = sem_count sm - 1"
    and "sem_step sm (Slept 0) sm' \<Longrightarrow>
      sem_asleep sm' \<subseteq> {0} \<and> sem_awake sm' \<subseteq> {0} \<and> sem_count sm = 0 \<and> sem_count sm' = 0"
    and "sem_step sm (Spurious 0) sm' \<Longrightarrow>
      sem_asleep sm' \<subseteq> {0} \<and> sem_awake sm' \<subseteq> {0} \<and> sem_count sm' = sem_count sm"
proof -
  have "(sem_asleep sm = {} \<or> sem_asleep sm = {0}) \<and> (sem_awake sm = {} \<or> sem_awake sm = {0})"
    using assms by (simp add: subset_singleton_iff)
  note sets = this
  show "sem_step sm (Passed 0) sm' \<Longrightarrow>
      sem_asleep sm' = {} \<and> sem_awake sm' \<subseteq> {0} \<and> sem_count sm \<noteq> 0 \<and> sem_count sm' = sem_count sm - 1"
    by (erule sem_passE) (use sets in \<open>auto simp: sem_test_def split: if_splits\<close>)
  show "sem_step sm (Slept 0) sm' \<Longrightarrow>
      sem_asleep sm' \<subseteq> {0} \<and> sem_awake sm' \<subseteq> {0} \<and> sem_count sm = 0 \<and> sem_count sm' = 0"
    by (erule sem_sleepE) (use sets in \<open>auto simp: sem_test_def split: if_splits\<close>)
  show "sem_step sm (Spurious 0) sm' \<Longrightarrow>
      sem_asleep sm' \<subseteq> {0} \<and> sem_awake sm' \<subseteq> {0} \<and> sem_count sm' = sem_count sm"
    by (erule sem_spuriousE) (use sets in auto)
qed

lemma count_post:
  assumes "sem_step sm (Posted 1) sm'" and "unat (sem_count sm) + 1 < 2 ^ 32"
  shows "unat (sem_count sm') = unat (sem_count sm) + 1"
  using sem_step_count [OF assms(1)] assms(2) by simp

lemma lw_sem_step:
  assumes "lw_step s ev s'" and "lw_sem_inv s n" and "n + length (lw_added [ev]) + 1 < 2 ^ 32"
  shows "lw_sem_inv s' (n + length (lw_added [ev]))"
  using assms
proof (induction rule: lw_step.induct)
  case (add s t m)
  then show ?case by (auto simp: lw_sem_inv_def lw_ops card_insert_if)
next
  case (post t s sm)
  have inv: "lw_sem_inv s n" using post.prems by simp
  then have th: "sem_asleep (lw_sem s) \<subseteq> {0} \<and> sem_awake (lw_sem s) \<subseteq> {0}" by (simp add: lw_sem_inv_def)
  note t = post_threads [OF post.hyps(2) th]
  then have "lw_dtor s = Alive" "0 < card (lw_posting s)"
    using inv post.hyps(1) by (auto simp: lw_sem_inv_def card_gt_0_iff)
  with inv have k: "unat (sem_count (lw_sem s)) + 1 < 2 ^ 32"
    using post.prems(2) by (auto simp: lw_sem_inv_def)
  have "card (lw_posting s - {t}) + 1 = card (lw_posting s)"
    using card_Suc_Diff1 [of "lw_posting s" t] post.hyps(1) inv by (simp add: lw_sem_inv_def)
  moreover have "sem_inv sm" using sem_step_inv [OF post.hyps(2)] inv by (simp add: lw_sem_inv_def)
  moreover have "sem_count sm \<noteq> 0" using count_post [OF post.hyps(2) k] by auto
  ultimately show ?case
    using inv t count_post [OF post.hyps(2) k] \<open>lw_dtor s = Alive\<close>
    by (auto simp: lw_sem_inv_def lw_ops)
next
  case (pass s sm)
  have inv: "lw_sem_inv s n" using pass.prems by simp
  then have th: "sem_asleep (lw_sem s) \<subseteq> {0} \<and> sem_awake (lw_sem s) \<subseteq> {0}" by (simp add: lw_sem_inv_def)
  show ?case
    using inv pass.hyps(1) sem_step_inv [OF pass.hyps(2)] wait_threads(1) [OF th pass.hyps(2)]
    by (auto simp: lw_sem_inv_def unat_minus1 simp del: unat_minus_one)
next
  case (sleep s sm)
  have inv: "lw_sem_inv s n" using sleep.prems by simp
  then have th: "sem_asleep (lw_sem s) \<subseteq> {0} \<and> sem_awake (lw_sem s) \<subseteq> {0}" by (simp add: lw_sem_inv_def)
  show ?case
    using inv sleep.hyps(1) sem_step_inv [OF sleep.hyps(2)] wait_threads(2) [OF th sleep.hyps(2)]
    by (simp add: lw_sem_inv_def)
next
  case (wake s sm)
  have inv: "lw_sem_inv s n" using wake.prems by simp
  then have th: "sem_asleep (lw_sem s) \<subseteq> {0} \<and> sem_awake (lw_sem s) \<subseteq> {0}" by (simp add: lw_sem_inv_def)
  show ?case
    using inv wake.hyps(1) sem_step_inv [OF wake.hyps(2)] wait_threads(3) [OF th wake.hyps(2)]
    by (simp add: lw_sem_inv_def)
next
  case (stop_post s sm)
  have inv: "lw_sem_inv s n" using stop_post.prems by simp
  then have th: "sem_asleep (lw_sem s) \<subseteq> {0} \<and> sem_awake (lw_sem s) \<subseteq> {0}" by (simp add: lw_sem_inv_def)
  note t = post_threads [OF stop_post.hyps(2) th]
  have k: "unat (sem_count (lw_sem s)) + 1 < 2 ^ 32"
    using inv stop_post.prems(2) stop_post.hyps(1) by (auto simp: lw_sem_inv_def)
  have "sem_inv sm"
    using sem_step_inv [OF stop_post.hyps(2)] inv by (simp add: lw_sem_inv_def)
  moreover have "sem_count sm \<noteq> 0" using count_post [OF stop_post.hyps(2) k] by auto
  ultimately show ?case
    using inv t stop_post.hyps(1) count_post [OF stop_post.hyps(2) k] by (auto simp: lw_sem_inv_def)
qed (auto simp: lw_sem_inv_def lw_ops)

lemma lw_sem:
  "lw_run lw_init evs s \<Longrightarrow> length (lw_added evs) + 1 < 2 ^ 32 \<Longrightarrow>
   lw_sem_inv s (length (lw_added evs))"
proof (induction "lw_init :: 'a log_writer" evs s rule: lw_run.induct)
  case lw_nil
  show ?case by (simp add: lw_sem_inv_def lw_init_def sem_init_inv) (simp add: sem_init_def)
next
  case (lw_snoc evs s1 ev s2)
  then show ?case using lw_sem_step [OF lw_snoc.hyps(3)] by simp
qed

text \<open>
  From the destructor's post on, the thread of the writer does not sleep, and each step brings
  the destruction nearer.
\<close>

fun worker_left :: "'m worker_pc \<Rightarrow> nat" where
  "worker_left AtWait = 4"
| "worker_left AtFlush = 3"
| "worker_left (Writing ms) = 2 + length ms"
| "worker_left AtLoop = 1"
| "worker_left Finished = 0"

fun dtor_left :: "'m dtor_pc \<Rightarrow> nat" where
  "dtor_left Alive = 5"
| "dtor_left Stopping = 4"
| "dtor_left Joining = 3"
| "dtor_left LastFlush = 2"
| "dtor_left (LastWriting ms) = 1 + length ms"
| "dtor_left Destroyed = 0"

definition lw_left :: "'m log_writer \<Rightarrow> nat" where
  "lw_left s = worker_left (lw_worker s) + dtor_left (lw_dtor s) + 2 * length (lw_pctxs s)"

lemma dtor_step_left:
  assumes "lw_step s ev s'" and "lw_sem_inv s n" and "posted_stop (lw_dtor s) = 1"
  shows "lw_left s' < lw_left s \<and> posted_stop (lw_dtor s') = 1 \<and> lw_added [ev] = []"
  using assms
proof (induction rule: lw_step.induct)
  case (sleep s sm)
  have "sem_count (lw_sem s) = 0"
    using wait_threads(2) [OF _ sleep.hyps(2)] sleep.prems by (simp add: lw_sem_inv_def)
  with sleep show ?case by (simp add: lw_sem_inv_def)
next
  case (wake s sm)
  have "0 \<in> sem_asleep (lw_sem s)" using wake.hyps(2) by (auto elim: sem_spuriousE)
  with wake.prems have "sem_awake (lw_sem s) = {}" by (auto simp: lw_sem_inv_def sem_inv_def)
  with wake.prems \<open>0 \<in> _\<close> have "sem_count (lw_sem s) = 0"
    by (auto simp: lw_sem_inv_def sem_inv_def unat_eq_0)
  with wake show ?case by (simp add: lw_sem_inv_def)
next
  case (stop s)
  then show ?case by simp
next
  case (stop_post s sm)
  then show ?case by simp
next
  case (add s t m)
  then show ?case by simp
next
  case (post t s sm)
  then show ?case by (auto simp: lw_sem_inv_def)
qed (auto simp: lw_left_def lw_ops lw_sem_inv_def)

text \<open>Until the writer is destroyed, some step is possible.\<close>

lemma dtor_can_step:
  assumes "lw_sem_inv s n" and "lw_msgs_inv s ms" and "posted_stop (lw_dtor s) = 1"
    and "lw_dtor s \<noteq> Destroyed"
  shows "\<exists>ev s'. lw_step s ev s'"
proof (cases "lw_dtor s")
  case Joining
  show ?thesis
  proof (cases "lw_worker s")
    case AtWait
    with assms(1,3) have c: "sem_count (lw_sem s) \<noteq> 0" by (simp add: lw_sem_inv_def)
    then have "sem_asleep (lw_sem s) = {}"
      using assms(1) by (force simp: lw_sem_inv_def sem_inv_def unat_eq_0 subset_singleton_iff)
    with c have "sem_step (lw_sem s) (Passed 0)
        (lw_sem s\<lparr>sem_count := sem_count (lw_sem s) - 1, sem_awake := sem_awake (lw_sem s) - {0}\<rparr>)"
      by (intro sem_step.pass) (auto simp: sem_test_def)
    with AtWait show ?thesis by (blast intro: lw_step.pass)
  next
    case (Writing ms')
    then show ?thesis by (cases ms') (blast intro: lw_step.intros)+
  next
    case AtFlush
    then show ?thesis by (blast intro: lw_step.swap [OF _ prod.collapse [symmetric]])
  qed (use Joining in \<open>blast intro: lw_step.check lw_step.join\<close>)+
next
  case (LastWriting ms')
  then show ?thesis by (cases ms') (blast intro: lw_step.intros)+
next
  case LastFlush
  then show ?thesis by (blast intro: lw_step.last_swap [OF _ prod.collapse [symmetric]])
qed (use assms(3,4) in auto)

section \<open>Properties\<close>

text \<open>
  No message is lost, written twice or out of order: at every moment what the channels
  have been given, what the two flushes have in hand and what is in the list are, in this order,
  the messages added so far; once the writer is destroyed, all of them have been written.
\<close>

theorem log_in_order:
  assumes "lw_run lw_init evs s"
  shows "lw_added evs =
      lw_written s @ in_hand (lw_worker s) @ last_in_hand (lw_dtor s) @ lw_pctxs s \<and>
    (lw_dtor s = Destroyed \<longrightarrow> lw_written s = lw_added evs)"
  using lw_msgs [OF assms] by (auto simp: lw_msgs_inv_def)

lemma lw_from:
  assumes "lw_run lw_init evs s" and "posted_stop (lw_dtor s) = 1"
    and "length (lw_added evs) + 1 < 2 ^ 32" and "lw_run s es s'"
  shows "lw_left s' + length es \<le> lw_left s \<and> posted_stop (lw_dtor s') = 1 \<and>
    lw_added (evs @ es) = lw_added evs"
  using assms(4,1,2,3)
proof (induction rule: lw_run.induct)
  case (lw_nil s)
  then show ?case by simp
next
  case (lw_snoc s es s1 ev s2)
  have IH: "lw_left s1 + length es \<le> lw_left s" "posted_stop (lw_dtor s1) = 1"
    "lw_added (evs @ es) = lw_added evs"
    using lw_snoc by auto
  have "lw_sem_inv s1 (length (lw_added (evs @ es)))"
    by (rule lw_sem [OF lw_run_append [OF lw_snoc.hyps(1) lw_snoc.prems(1)]])
       (use lw_snoc.prems(3) IH(3) in simp)
  from dtor_step_left [OF lw_snoc.hyps(2) this IH(2)] IH show ?case by simp
qed

text \<open>
  Property C25. The destructor returns: from its post on, whatever steps the threads take, it is
  over after finitely many of them (the bound is \<open>lw_left\<close>), and as long as it is not over some
  step is possible - the thread of the writer cannot be asleep for good. What it leaves behind
  is every message written. This is for fewer than \<open>2 ^ 32 - 1\<close> messages, the range of the
  semaphore's counter.
\<close>

theorem destructor_returns:
  assumes "lw_run lw_init evs s" and "posted_stop (lw_dtor s) = 1"
    and "length (lw_added evs) + 1 < 2 ^ 32" and "lw_run s es s'"
  shows "length es \<le> lw_left s \<and>
    ((\<nexists>ev s''. lw_step s' ev s'') \<longrightarrow> lw_dtor s' = Destroyed \<and> lw_written s' = lw_added evs)"
proof (intro conjI impI)
  have run: "lw_run lw_init (evs @ es) s'" using lw_run_append [OF assms(4,1)] .
  have from_s: "lw_left s' + length es \<le> lw_left s" "posted_stop (lw_dtor s') = 1"
    "lw_added (evs @ es) = lw_added evs"
    using lw_from [OF assms] by auto
  then show "length es \<le> lw_left s" by simp
  assume stuck: "\<nexists>ev s''. lw_step s' ev s''"
  have "lw_sem_inv s' (length (lw_added (evs @ es)))"
    by (rule lw_sem [OF run]) (use assms(3) from_s(3) in simp)
  then show d: "lw_dtor s' = Destroyed"
    using dtor_can_step [OF _ lw_msgs [OF run] from_s(2)] stuck by blast
  have "lw_worker s' = Finished \<and> lw_pctxs s' = []"
    using lw_msgs [OF run] d by (auto simp: lw_msgs_inv_def)
  with lw_msgs [OF run] d from_s(3) show "lw_written s' = lw_added evs"
    by (simp add: lw_msgs_inv_def)
qed

text \<open>Thread 1 writes one message, and the writer is destroyed before its own thread has run.\<close>

definition demo_lw :: "'m \<Rightarrow> 'm log_writer" where
  "demo_lw m = \<lparr>lw_pctxs = [m], lw_sem = sem_init\<lparr>sem_count := 2\<rparr>, lw_running = False,
              lw_posting = {}, lw_worker = AtLoop, lw_dtor = Joining, lw_written = []\<rparr>"

lemma demo_lw_run: "lw_run lw_init [LAdd 1 m, LPost 1, LStop, LStopPost] (demo_lw m)"
proof -
  let ?s1 = "Write_insert 1 m lw_init"
  let ?p = "\<lambda>n. sem_init\<lparr>sem_count := n\<rparr>"
  let ?s2 = "Write_post 1 (?p 1) ?s1"
  let ?s3 = "?s2\<lparr>lw_running := False, lw_dtor := Stopping\<rparr>"
  have p: "sem_step (?p n) (Posted 1) (?p (n + 1))" for n
    using sem_step.post [where pick = None and s = "?p n" and n = 1] by (simp add: sem_post_def sem_init_def)
  have "lw_run lw_init [] (lw_init :: 'a log_writer)" by (rule lw_nil)
  then have "lw_run lw_init ([] @ [LAdd 1 m]) ?s1"
    by (rule lw_snoc) (rule lw_step.add, simp_all add: lw_init_def)
  then have "lw_run lw_init (([] @ [LAdd 1 m]) @ [LPost 1]) ?s2"
    by (rule lw_snoc) (rule lw_step.post, use p [of 0] in \<open>simp_all add: lw_ops lw_init_def sem_init_def\<close>)
  then have "lw_run lw_init ((([] @ [LAdd 1 m]) @ [LPost 1]) @ [LStop]) ?s3"
    by (rule lw_snoc) (rule lw_step.stop, simp_all add: lw_ops lw_init_def)
  then have "lw_run lw_init (((([] @ [LAdd 1 m]) @ [LPost 1]) @ [LStop]) @ [LStopPost])
      (?s3\<lparr>lw_sem := ?p 2, lw_dtor := Joining\<rparr>)"
    by (rule lw_snoc) (rule lw_step.stop_post, use p [of 1] in \<open>simp_all add: lw_ops\<close>)
  then show ?thesis by (simp add: demo_lw_def lw_ops lw_init_def)
qed

theorem log_in_order_witness:
  "lw_written (demo_lw (7 :: nat)) @ in_hand (lw_worker (demo_lw 7)) @ last_in_hand (lw_dtor (demo_lw 7)) @
     lw_pctxs (demo_lw 7) = [7]"
  using log_in_order [OF demo_lw_run [of "7 :: nat"]] by simp

text \<open>From there on, the thread ends without having written, and the destructor writes the message.\<close>

lemma demo_lw_end:
  "lw_run (demo_lw m) [LCheck, LJoin, LLastSwap, LLastEmit m, LEnd]
     ((demo_lw m)\<lparr>lw_pctxs := [], lw_worker := Finished, lw_dtor := Destroyed, lw_written := [m]\<rparr>)"
proof -
  let ?s1 = "(demo_lw m)\<lparr>lw_worker := Finished\<rparr>"
  let ?s2 = "?s1\<lparr>lw_dtor := LastFlush\<rparr>"
  let ?s3 = "?s1\<lparr>lw_pctxs := [], lw_dtor := LastWriting [m]\<rparr>"
  let ?s4 = "?s3\<lparr>lw_dtor := LastWriting [], lw_written := [m]\<rparr>"
  have "lw_step (demo_lw m) LCheck ?s1" using lw_step.check [of "demo_lw m"] by (simp add: demo_lw_def)
  moreover have "lw_step ?s1 LJoin ?s2" by (rule lw_step.join) (simp_all add: demo_lw_def)
  moreover have "lw_step ?s2 LLastSwap ?s3"
    using lw_step.last_swap [of ?s2] by (simp add: demo_lw_def flush_swap_def)
  moreover have "lw_step ?s3 (LLastEmit m) ?s4"
    using lw_step.last_emit [of ?s3] by (simp add: demo_lw_def write_to_channels_def)
  moreover have "lw_step ?s4 LEnd (?s4\<lparr>lw_dtor := Destroyed\<rparr>)" by (rule lw_step.last) simp
  ultimately have "lw_run (demo_lw m) ((((([] @ [LCheck]) @ [LJoin]) @ [LLastSwap]) @ [LLastEmit m]) @ [LEnd])
      (?s4\<lparr>lw_dtor := Destroyed\<rparr>)"
    using lw_nil [of "demo_lw m"] by (meson lw_snoc)
  then show ?thesis by (simp add: demo_lw_def)
qed

theorem destructor_returns_witness:
  "\<exists>s'. lw_run (demo_lw (7 :: nat)) [LCheck, LJoin, LLastSwap, LLastEmit 7, LEnd] s' \<and>
     (\<nexists>ev s''. lw_step s' ev s'') \<and> lw_dtor s' = Destroyed \<and> lw_written s' = [7]"
proof -
  let ?s = "(demo_lw (7 :: nat))\<lparr>lw_pctxs := [], lw_worker := Finished, lw_dtor := Destroyed, lw_written := [7]\<rparr>"
  have stuck: "\<nexists>ev s''. lw_step ?s ev s''"
    by (auto simp: demo_lw_def elim!: lw_step.cases)
  with destructor_returns [OF demo_lw_run _ _ demo_lw_end [of "7 :: nat"]] demo_lw_end show ?thesis
    by (intro exI [of _ ?s]) (simp add: demo_lw_def)
qed

end
