(* ===== verification/LogSystem.thy ===== *)
theory LogSystem
  imports Helpers Logger LogWriter
begin

text \<open>
  The whole of \<^verbatim>\<open>utils/logger.cpp\<close>: the single \<open>Logger\<close> with its channels and its writer, the macros
  \<open>LOG_T\<close> to \<open>LOG_E\<close> by which any thread logs, and the asynchronous writer that prints to the
  channels. It joins the registry and the capturer of \<^theory_text>\<open>Logger\<close> with the threads of \<^theory_text>\<open>LogWriter\<close>.
\<close>

section \<open>Constructors\<close>

text \<open>What the logger asks of the system.\<close>

record log_world =
  w_localtime :: "int \<Rightarrow> tm"
  w_pid :: int
  w_gettid :: "tid \<Rightarrow> int"
  w_exe_name :: string

text \<open>\<open>LogContext::LogContext\<close>; \<open>tv\<close> is what \<open>gettimeofday\<close> says.\<close>

definition LogContext_new ::
  "log_level \<Rightarrow> string \<Rightarrow> int \<Rightarrow> string \<Rightarrow> int \<Rightarrow> timeval \<Rightarrow> log_context" where
  "LogContext_new level file tid function line tv =
     \<lparr>lc_level = level, lc_line = line, lc_file = file, lc_tid = tid, lc_function = function,
      lc_tv = tv, lc_str = []\<rparr>"

definition LogContextCapturer_new ::
  "log_world \<Rightarrow> tid \<Rightarrow> log_level \<Rightarrow> string \<Rightarrow> string \<Rightarrow> int \<Rightarrow> timeval \<Rightarrow> capturer" where
  "LogContextCapturer_new W t level file function line tv =
     Some (LogContext_new level file (w_gettid W t) function line tv)"

definition LogChannel_new :: "string \<Rightarrow> log_level \<Rightarrow> log_channel" where
  "LogChannel_new name level = \<lparr>ch_name = name, ch_level = level\<rparr>"

definition ConsoleChannel_new :: "string \<Rightarrow> log_level \<Rightarrow> log_channel" where
  "ConsoleChannel_new name level = LogChannel_new name level"

text \<open>
  \<open>Logger\<close>: the registry, and the writer, which is not there at first. \<open>ls_out\<close> is what has been
  written to the standard output.
\<close>

record log_system =
  ls_logger :: logger
  ls_writer :: "log_context log_writer option"
  ls_out :: string

definition Logger_new :: "(nat \<Rightarrow> log_channel) \<Rightarrow> string \<Rightarrow> string \<Rightarrow> log_system" where
  "Logger_new h name out = \<lparr>ls_logger = logger_new h name, ls_writer = None, ls_out = out\<rparr>"

text \<open>
  \<open>Logger::Instance\<close>, as \<open>INSTANCE_IMPL\<close> makes it: the object is made by the first call, with the name
  of the program. The state is that of the channels and of the standard output.
\<close>

definition Instance ::
  "log_world \<Rightarrow> log_system option \<times> (nat \<Rightarrow> log_channel) \<times> string \<Rightarrow>
   log_system \<times> log_system option \<times> (nat \<Rightarrow> log_channel) \<times> string" where
  "Instance W = local_static (\<lambda>(h, out). (Logger_new h (w_exe_name W) out, h, out))"

text \<open>The constructor of the writer starts its thread; \<open>SetWriter\<close> is called once.\<close>

definition SetWriter :: "log_context log_writer \<Rightarrow> log_system \<Rightarrow> log_system" where
  "SetWriter w s = s\<lparr>ls_writer := Some w\<rparr>"

section \<open>Logging a line\<close>

text \<open>A use of one of the macros: what the compiler fills in, the time, and the parts that are put in.\<close>

record log_call =
  cl_level :: log_level
  cl_file :: string
  cl_function :: string
  cl_line :: int
  cl_time :: timeval
  cl_parts :: "string list"

definition LOG_T :: "string \<Rightarrow> string \<Rightarrow> int \<Rightarrow> timeval \<Rightarrow> string list \<Rightarrow> log_call" where
  "LOG_T file fn line tv parts = \<lparr>cl_level = LTRACE, cl_file = file, cl_function = fn, cl_line = line,
     cl_time = tv, cl_parts = parts\<rparr>"

definition LOG_D :: "string \<Rightarrow> string \<Rightarrow> int \<Rightarrow> timeval \<Rightarrow> string list \<Rightarrow> log_call" where
  "LOG_D file fn line tv parts = \<lparr>cl_level = LDEBUG, cl_file = file, cl_function = fn, cl_line = line,
     cl_time = tv, cl_parts = parts\<rparr>"

definition LOG_I :: "string \<Rightarrow> string \<Rightarrow> int \<Rightarrow> timeval \<Rightarrow> string list \<Rightarrow> log_call" where
  "LOG_I file fn line tv parts = \<lparr>cl_level = LINFO, cl_file = file, cl_function = fn, cl_line = line,
     cl_time = tv, cl_parts = parts\<rparr>"

definition LOG_W :: "string \<Rightarrow> string \<Rightarrow> int \<Rightarrow> timeval \<Rightarrow> string list \<Rightarrow> log_call" where
  "LOG_W file fn line tv parts = \<lparr>cl_level = LWARN, cl_file = file, cl_function = fn, cl_line = line,
     cl_time = tv, cl_parts = parts\<rparr>"

definition LOG_E :: "string \<Rightarrow> string \<Rightarrow> int \<Rightarrow> timeval \<Rightarrow> string list \<Rightarrow> log_call" where
  "LOG_E file fn line tv parts = \<lparr>cl_level = LERROR, cl_file = file, cl_function = fn, cl_line = line,
     cl_time = tv, cl_parts = parts\<rparr>"

text \<open>
  The capturer of a macro: it is made, the parts are put in, and it writes when it is destroyed at the
  end of the statement. The result are the contexts it hands to the writer, if there is one.
\<close>

definition log_statement :: "log_world \<Rightarrow> bool \<Rightarrow> tid \<Rightarrow> log_call \<Rightarrow> log_context list" where
  "log_statement W has_writer t c =
     cap_destroy has_writer
       (fold cap_put (cl_parts c)
          (LogContextCapturer_new W t (cl_level c) (cl_file c) (cl_function c) (cl_line c) (cl_time c))) []"

text \<open>What the writer prints in a step, \<open>write_to_channels\<close> for each message that it takes.\<close>

fun printed :: "log_world \<Rightarrow> logger \<Rightarrow> log_context lw_event \<Rightarrow> string" where
  "printed W lg (LEmit m) = write_channels (w_localtime W) (w_pid W) m lg"
| "printed W lg (LLastEmit m) = write_channels (w_localtime W) (w_pid W) m lg"
| "printed W lg _ = []"

datatype ls_event =
    LsSetWriter                                \<comment> \<open>a new writer is installed\<close>
  | LsLog tid log_call                         \<comment> \<open>a thread logs a line\<close>
  | LsWriter "log_context lw_event"            \<comment> \<open>another step of the writer\<close>

fun is_add :: "'m lw_event \<Rightarrow> bool" where
  "is_add (LAdd t m) = True"
| "is_add _ = False"

text \<open>
  The program's end destroys the logger, and with it the writer first: of its members it is declared
  last, so that the registry and the name are still there when the writer's destructor prints what
  is left.
\<close>

inductive ls_step :: "log_world \<Rightarrow> log_system \<Rightarrow> ls_event \<Rightarrow> log_system \<Rightarrow> bool" for W where
  set_writer: "ls_writer s = None \<Longrightarrow> ls_step W s LsSetWriter (SetWriter lw_init s)"
| dropped: "ls_writer s = None \<Longrightarrow> log_statement W False t c = [] \<Longrightarrow> ls_step W s (LsLog t c) s"
| logged: "ls_writer s = Some w \<Longrightarrow> log_statement W True t c = [m] \<Longrightarrow> lw_step w (LAdd t m) w' \<Longrightarrow>
     ls_step W s (LsLog t c) (s\<lparr>ls_writer := Some w'\<rparr>)"
| writer: "ls_writer s = Some w \<Longrightarrow> \<not> is_add ev \<Longrightarrow> lw_step w ev w' \<Longrightarrow>
     ls_step W s (LsWriter ev)
       (s\<lparr>ls_writer := Some w', ls_out := ls_out s @ printed W (ls_logger s) ev\<rparr>)"

inductive ls_run :: "log_world \<Rightarrow> log_system \<Rightarrow> ls_event list \<Rightarrow> log_system \<Rightarrow> bool" for W s where
  ls_nil: "ls_run W s [] s"
| ls_snoc: "ls_run W s evs s1 \<Longrightarrow> ls_step W s1 ev s2 \<Longrightarrow> ls_run W s (evs @ [ev]) s2"

section \<open>Every line is printed\<close>

lemma lw_run_Cons:
  "lw_run w (ev # evs) w' \<Longrightarrow> \<exists>w1. lw_step w ev w1 \<and> lw_run w1 evs w'"
proof (induction evs arbitrary: w' rule: rev_induct)
  case Nil
  then have "lw_run w [] w \<and> lw_step w ev w'"
    by (cases rule: lw_run.cases) (auto elim: lw_run.cases intro: lw_nil)
  then show ?case by (blast elim: lw_run.cases intro: lw_nil)
next
  case (snoc e evs)
  have "lw_run w ((ev # evs) @ [e]) w'" using snoc.prems by simp
  then obtain w2 where "lw_run w (ev # evs) w2" "lw_step w2 e w'"
    by (cases rule: lw_run.cases) auto
  with snoc.IH show ?case by (blast intro: lw_snoc)
qed

text \<open>The message of a line, and the messages of the lines that were logged while there was a writer.\<close>

definition message :: "log_world \<Rightarrow> tid \<Rightarrow> log_call \<Rightarrow> log_context" where
  "message W t c =
     \<lparr>lc_level = cl_level c, lc_line = cl_line c, lc_file = cl_file c, lc_tid = w_gettid W t,
      lc_function = cl_function c, lc_tv = cl_time c, lc_str = concat (cl_parts c)\<rparr>"

fun messages :: "log_world \<Rightarrow> bool \<Rightarrow> ls_event list \<Rightarrow> log_context list" where
  "messages W hw [] = []"
| "messages W hw (LsSetWriter # evs) = messages W True evs"
| "messages W hw (LsLog t c # evs) = (if hw then [message W t c] else []) @ messages W hw evs"
| "messages W hw (LsWriter ev # evs) = messages W hw evs"

lemma log_statement_message: "log_statement W hw t c = (if hw then [message W t c] else [])"
  by (simp add: log_statement_def LogContextCapturer_new_def LogContext_new_def fold_cap_put cap_destroy_def
      cap_endl_def logger_Write_def message_def)

lemma messages_snoc:
  "messages W hw (evs @ [ev]) = messages W hw evs @ messages W (hw \<or> LsSetWriter \<in> set evs) [ev]"
  by (induction W hw evs rule: messages.induct) (cases ev; simp)+

fun emits :: "'m lw_event \<Rightarrow> 'm list" where
  "emits (LEmit m) = [m]"
| "emits (LLastEmit m) = [m]"
| "emits _ = []"

lemma lw_step_written: "lw_step s ev s' \<Longrightarrow> lw_written s' = lw_written s @ emits ev"
  by (induction rule: lw_step.induct) (simp_all add: lw_ops)

lemma printed_emits: "printed W lg ev = concat (map (\<lambda>m. write_channels (w_localtime W) (w_pid W) m lg) (emits ev))"
  by (cases ev) simp_all

lemma added_emits: "\<not> is_add ev \<Longrightarrow> lw_added [ev] = []"
  by (cases ev) simp_all

text \<open>A run of the whole logger contains a run of its writer, and has printed what that has written.\<close>

definition writer_part :: "log_world \<Rightarrow> logger \<Rightarrow> ls_event list \<Rightarrow> log_system \<Rightarrow> bool" where
  "writer_part W lg evs s \<longleftrightarrow>
     ls_logger s = lg \<and>
     (case ls_writer s of
        None \<Rightarrow> LsSetWriter \<notin> set evs \<and> messages W False evs = [] \<and> ls_out s = []
      | Some w \<Rightarrow> LsSetWriter \<in> set evs \<and> (\<exists>wevs. lw_run lw_init wevs w \<and> lw_added wevs = messages W False evs) \<and>
          ls_out s = concat (map (\<lambda>m. write_channels (w_localtime W) (w_pid W) m lg) (lw_written w)))"

lemma writer_part_step:
  assumes "ls_step W s ev s'" and "writer_part W lg evs s"
  shows "writer_part W lg (evs @ [ev]) s'"
  using assms
proof (cases rule: ls_step.cases)
  case set_writer
  with assms(2) show ?thesis
    by (auto simp: writer_part_def SetWriter_def messages_snoc intro: lw_nil exI [of _ "[]"]) (auto simp: lw_init_def)
next
  case (logged w t c m w')
  with assms(2) obtain wevs where w: "lw_run lw_init wevs w" "lw_added wevs = messages W False evs"
    and o: "LsSetWriter \<in> set evs" "ls_logger s = lg"
      "ls_out s = concat (map (\<lambda>m. write_channels (w_localtime W) (w_pid W) m lg) (lw_written w))"
    by (auto simp: writer_part_def)
  have "lw_run lw_init (wevs @ [LAdd t m]) w'" using w(1) logged(5) by (rule lw_snoc)
  moreover have "lw_added (wevs @ [LAdd t m]) = messages W False (evs @ [ev])"
    using w(2) o(1) logged by (simp add: messages_snoc log_statement_message)
  moreover have "lw_written w' = lw_written w" using lw_step_written [OF logged(5)] by simp
  ultimately show ?thesis using o logged(1,2) by (auto simp: writer_part_def)
next
  case (writer w lev w')
  with assms(2) obtain wevs where w: "lw_run lw_init wevs w" "lw_added wevs = messages W False evs"
    and o: "LsSetWriter \<in> set evs" "ls_logger s = lg"
      "ls_out s = concat (map (\<lambda>m. write_channels (w_localtime W) (w_pid W) m lg) (lw_written w))"
    by (auto simp: writer_part_def)
  have "lw_run lw_init (wevs @ [lev]) w'" using w(1) writer(5) by (rule lw_snoc)
  moreover have "lw_added (wevs @ [lev]) = messages W False (evs @ [ev])"
    using w(2) writer by (simp add: messages_snoc added_emits)
  moreover have "ls_out s' = concat (map (\<lambda>m. write_channels (w_localtime W) (w_pid W) m lg) (lw_written w'))"
    using o lw_step_written [OF writer(5)] writer(2) by (simp add: printed_emits)
  ultimately show ?thesis using o writer(1,2) by (auto simp: writer_part_def)
qed (auto simp: writer_part_def messages_snoc)

lemma ls_part: "ls_run W s evs s' \<Longrightarrow> writer_part W lg [] s \<Longrightarrow> writer_part W lg evs s'"
  by (induction rule: ls_run.induct) (auto intro: writer_part_step)

section \<open>Properties\<close>

text \<open>The logger when it is set up: the single instance with its channels, before the writer is installed.\<close>

definition ls_start :: "log_world \<Rightarrow> (nat \<Rightarrow> log_channel) \<Rightarrow> lg_op list \<Rightarrow> log_system" where
  "ls_start W h ops = (let s = fst (Instance W (None, h, [])) in s\<lparr>ls_logger := fold exec_lg_op ops (ls_logger s)\<rparr>)"

text \<open>The line of a message, as often as there are channels that admit its level.\<close>

definition printed_lines :: "log_world \<Rightarrow> (nat \<Rightarrow> log_channel) \<Rightarrow> lg_op list \<Rightarrow> log_context \<Rightarrow> string" where
  "printed_lines W h ops ctx =
     (let lg = logger_after h (w_exe_name W) ops
      in concat (replicate
           (card {n. \<exists>c. registry_after h ops n = Some c \<and> ch_level (lg_heap lg c) \<le> lc_level ctx})
           (log_format (w_localtime W) (w_pid W) lg ctx True True)))"


lemma ls_writer_steps:
  "lw_run w wevs w' \<Longrightarrow> list_all (\<lambda>ev. \<not> is_add ev) wevs \<Longrightarrow> ls_writer s = Some w \<Longrightarrow> ls_run W s0 evs s \<Longrightarrow>
   \<exists>s'. ls_run W s0 (evs @ map LsWriter wevs) s' \<and> ls_writer s' = Some w'"
proof (induction rule: lw_run.induct)
  case (lw_nil w)
  then show ?case by auto
next
  case (lw_snoc w wevs w1 ev w2)
  then obtain s' where s': "ls_run W s0 (evs @ map LsWriter wevs) s'" "ls_writer s' = Some w1" by auto
  have "\<not> is_add ev" using lw_snoc.prems(1) by simp
  from ls_snoc [OF s'(1) ls_step.writer [OF s'(2) this lw_snoc.hyps(2)]] show ?case
    by (intro exI) auto
qed

text \<open>
  One channel, added in a program called \<open>prog\<close>; thread 1 logs a line, and the logger is destroyed
  before the writer's thread has run.
\<close>

definition demo_world :: log_world where
  "demo_world = \<lparr>w_localtime = (\<lambda>_. \<lparr>tm_year = 120, tm_mon = 0, tm_mday = 1, tm_hour = 0, tm_min = 0, tm_sec = 0\<rparr>),
     w_pid = 42, w_gettid = int, w_exe_name = ''prog''\<rparr>"

definition demo_call :: log_call where
  "demo_call = LOG_I ''main.cpp'' ''main'' 7 \<lparr>tv_sec = 0, tv_usec = 0\<rparr> [''x = '', ''1'']"


end
