(* ===== verification/Clock.thy ===== *)
theory Clock
  imports Helpers "HOL-Library.Signed_Division"
begin

text \<open>
  \<^verbatim>\<open>utils/utils.cpp\<close>: the clock that the library reads. One thread reads the system clock every half
  millisecond and publishes it in three variables, in microseconds, milliseconds and seconds,
  one after the other; everybody else reads these. Also the name of the program and the priorities
  of threads.
\<close>

section \<open>The published times\<close>

text \<open>
  Where the thread is: before it reads the clock, or with a reading in hand that it has stored in
  none, one or two of the variables.
\<close>

datatype clock_pc = Sleeping | StoreUs u64 | StoreMs u64 | StoreSec u64

record clock =
  s_now_microseconds :: u64
  s_now_milliseconds :: u64
  s_now_seconds :: u64
  updater :: clock_pc
  system_clock :: u64

text \<open>The static initialisers read the system clock three times.\<close>

definition clock_init :: "u64 \<Rightarrow> u64 \<Rightarrow> u64 \<Rightarrow> clock" where
  "clock_init t0 t1 t2 =
     \<lparr>s_now_microseconds = t0, s_now_milliseconds = t1 div 1000, s_now_seconds = t2 div 1000000,
      updater = Sleeping, system_clock = t2\<rparr>"

text \<open>The body of the thread's loop, a step per access to a variable.\<close>

definition update :: "clock \<Rightarrow> clock" where
  "update s =
     (case updater s of
        Sleeping \<Rightarrow> s\<lparr>updater := StoreUs (system_clock s)\<rparr>
      | StoreUs n \<Rightarrow> s\<lparr>s_now_microseconds := n, updater := StoreMs n\<rparr>
      | StoreMs n \<Rightarrow> s\<lparr>s_now_milliseconds := n div 1000, updater := StoreSec n\<rparr>
      | StoreSec n \<Rightarrow> s\<lparr>s_now_seconds := n div 1000000, updater := Sleeping\<rparr>)"

text \<open>
  The statics behind the thread: the thread object itself, the token that detaches it, and the flag of
  each of the three functions that read the clock. \<open>threads\<close> and \<open>detached\<close> count how many threads have
  been started and detached.
\<close>

record clock_statics =
  s_update_ts_thread :: "unit option"
  s_once_token :: "unit option"
  s_flag_us :: "bool option"
  s_flag_ms :: "bool option"
  s_flag_sec :: "bool option"
  threads :: nat
  detached :: nat

definition statics_init :: clock_statics where
  "statics_init = \<lparr>s_update_ts_thread = None, s_once_token = None, s_flag_us = None, s_flag_ms = None,
     s_flag_sec = None, threads = 0, detached = 0\<rparr>"

definition init_update_ts_thread :: "clock_statics \<Rightarrow> bool \<times> clock_statics" where
  "init_update_ts_thread s =
     (let (_, th, s1) = local_static (\<lambda>s. ((), s\<lparr>threads := threads s + 1\<rparr>)) (s_update_ts_thread s, s);
          s2 = s1\<lparr>s_update_ts_thread := th\<rparr>;
          (_, tok, s3) = local_static (\<lambda>s. ((), snd (OnceToken_new (Some (\<lambda>s. s\<lparr>detached := detached s + 1\<rparr>)) None s)))
                           (s_once_token s2, s2)
      in (True, s3\<lparr>s_once_token := tok\<rparr>))"

definition get_current_microseconds :: "clock_statics \<Rightarrow> clock \<Rightarrow> u64 \<times> clock_statics" where
  "get_current_microseconds st s =
     (let (_, f, st1) = local_static init_update_ts_thread (s_flag_us st, st)
      in (s_now_microseconds s, st1\<lparr>s_flag_us := f\<rparr>))"

definition get_current_milliseconds :: "clock_statics \<Rightarrow> clock \<Rightarrow> u64 \<times> clock_statics" where
  "get_current_milliseconds st s =
     (let (_, f, st1) = local_static init_update_ts_thread (s_flag_ms st, st)
      in (s_now_milliseconds s, st1\<lparr>s_flag_ms := f\<rparr>))"

definition get_current_seconds :: "clock_statics \<Rightarrow> clock \<Rightarrow> u64 \<times> clock_statics" where
  "get_current_seconds st s =
     (let (_, f, st1) = local_static init_update_ts_thread (s_flag_sec st, st)
      in (s_now_seconds s, st1\<lparr>s_flag_sec := f\<rparr>))"

lemma get_current_value [simp]:
  "fst (get_current_microseconds st s) = s_now_microseconds s"
  "fst (get_current_milliseconds st s) = s_now_milliseconds s"
  "fst (get_current_seconds st s) = s_now_seconds s"
  by (simp_all add: get_current_microseconds_def get_current_milliseconds_def get_current_seconds_def split_beta)

text \<open>Whatever is called first and however often, one thread is started, and it is detached.\<close>

datatype time_unit = CallUs | CallMs | CallSec

fun call_clock :: "clock \<Rightarrow> time_unit \<Rightarrow> clock_statics \<Rightarrow> clock_statics" where
  "call_clock s CallUs st = snd (get_current_microseconds st s)"
| "call_clock s CallMs st = snd (get_current_milliseconds st s)"
| "call_clock s CallSec st = snd (get_current_seconds st s)"

definition one_thread :: "bool \<Rightarrow> clock_statics \<Rightarrow> bool" where
  "one_thread called st \<longleftrightarrow>
     (s_update_ts_thread st = (if called then Some () else None)) \<and>
     (s_once_token st = s_update_ts_thread st) \<and>
     (\<not> called \<longrightarrow> s_flag_us st = None \<and> s_flag_ms st = None \<and> s_flag_sec st = None) \<and>
     threads st = of_bool called \<and> detached st = of_bool called"

lemma clock_call_once: "one_thread c st \<Longrightarrow> one_thread True (call_clock s call st)"
  by (cases call; cases c)
    (auto simp: one_thread_def get_current_microseconds_def get_current_milliseconds_def get_current_seconds_def
      init_update_ts_thread_def local_static_def OnceToken_new_def run_opt_def Let_def split: option.splits)

lemma one_clock_thread:
  assumes "calls \<noteq> []"
  shows "threads (fold (call_clock s) calls statics_init) = 1 \<and> detached (fold (call_clock s) calls statics_init) = 1"
proof -
  have "one_thread c st \<Longrightarrow> one_thread (c \<or> calls \<noteq> []) (fold (call_clock s) calls st)" for c st calls
  proof (induction calls arbitrary: c st)
    case (Cons call calls)
    then show ?case using clock_call_once [of c st s call] by fastforce
  qed simp
  moreover have "one_thread False statics_init" by (simp add: one_thread_def statics_init_def)
  ultimately show ?thesis using assms by (fastforce simp: one_thread_def)
qed

text \<open>The system clock goes on between the steps of the thread; here it is never set back.\<close>

inductive clock_steps :: "clock \<Rightarrow> clock \<Rightarrow> bool" where
  stay: "clock_steps s s"
| step: "clock_steps s s' \<Longrightarrow> clock_steps s (update s')"
| tick: "clock_steps s s' \<Longrightarrow> system_clock s' \<le> t \<Longrightarrow> clock_steps s (s'\<lparr>system_clock := t\<rparr>)"

fun in_progress :: "clock_pc \<Rightarrow> u64 \<Rightarrow> u64" where
  "in_progress Sleeping t = t"
| "in_progress (StoreUs n) t = n"
| "in_progress (StoreMs n) t = n"
| "in_progress (StoreSec n) t = n"

text \<open>
  The reading in hand is not ahead of the clock, and what is published is not ahead of it; the
  variables that were stored in this round agree with it.
\<close>

definition clock_inv :: "clock \<Rightarrow> bool" where
  "clock_inv s \<longleftrightarrow>
     (let n = in_progress (updater s) (system_clock s)
      in n \<le> system_clock s \<and> s_now_microseconds s \<le> n \<and> s_now_milliseconds s \<le> n div 1000 \<and>
         s_now_seconds s \<le> n div 1000000 \<and>
         (case updater s of
            StoreMs n \<Rightarrow> s_now_microseconds s = n
          | StoreSec n \<Rightarrow> s_now_microseconds s = n \<and> s_now_milliseconds s = n div 1000
          | _ \<Rightarrow> True))"

lemma u64_div_mono: "a \<le> b \<Longrightarrow> a div c \<le> b div c" for a b c :: u64
  by (simp add: word_le_nat_alt unat_div div_le_mono)

lemma le_div: "x \<le> a div c \<Longrightarrow> a \<le> b \<Longrightarrow> x \<le> b div c" for a b c x :: u64
  using u64_div_mono order.trans by blast

lemma clock_init_inv: "t0 \<le> t1 \<Longrightarrow> t1 \<le> t2 \<Longrightarrow> clock_inv (clock_init t0 t1 t2)"
  by (auto simp: clock_inv_def clock_init_def Let_def intro: u64_div_mono)

lemma update_inv: "clock_inv s \<Longrightarrow> clock_inv (update s)"
  by (cases "updater s") (auto simp: clock_inv_def update_def Let_def intro: u64_div_mono le_div)

lemma tick_inv: "clock_inv s \<Longrightarrow> system_clock s \<le> t \<Longrightarrow> clock_inv (s\<lparr>system_clock := t\<rparr>)"
  by (cases "updater s") (auto simp: clock_inv_def Let_def intro: le_div)

lemma steps_inv: "clock_steps s s' \<Longrightarrow> clock_inv s \<Longrightarrow> clock_inv s'"
  by (induction rule: clock_steps.induct) (auto intro: update_inv tick_inv)

text \<open>No step makes a published time smaller.\<close>

definition times_le :: "clock \<Rightarrow> clock \<Rightarrow> bool" where
  "times_le s s' \<longleftrightarrow> s_now_microseconds s \<le> s_now_microseconds s' \<and>
     s_now_milliseconds s \<le> s_now_milliseconds s' \<and> s_now_seconds s \<le> s_now_seconds s'"

lemma update_times: "clock_inv s \<Longrightarrow> times_le s (update s)"
  by (cases "updater s") (auto simp: clock_inv_def update_def times_le_def Let_def)

lemma steps_times: "clock_steps s s' \<Longrightarrow> clock_inv s \<Longrightarrow> times_le s s'"
proof (induction rule: clock_steps.induct)
  case (step s s')
  then have "times_le s s'" "times_le s' (update s')"
    using update_times steps_inv by auto
  then show ?case by (auto simp: times_le_def intro: order.trans)
qed (simp_all add: times_le_def)

section \<open>The program's name and the priorities of threads\<close>

text \<open>\<open>readlink\<close> fills a buffer of zeros; the path is what stands before the first zero.\<close>

definition get_exe_path :: "(nat \<Rightarrow> int \<times> string) \<Rightarrow> string option" where
  "get_exe_path readlink =
     (let size = 4096 * 2 + 1; (n, bytes) = readlink size; buf = take (nat n) bytes @ replicate (size - nat n) (CHR 0x00)
      in if n \<le> 0 then Some ''./''
         else if CHR 0x00 \<in> set buf then Some (takeWhile (\<lambda>c. c \<noteq> CHR 0x00) buf)
         else None)"

text \<open>\<open>rfind\<close>, with -1 for \<open>npos\<close>, and \<open>substr\<close> from behind it.\<close>

fun rfind :: "char \<Rightarrow> string \<Rightarrow> int" where
  "rfind c [] = -1"
| "rfind c (x # xs) = (if rfind c xs \<noteq> -1 then rfind c xs + 1 else if x = c then 0 else -1)"

definition get_exe_name :: "string \<Rightarrow> string" where
  "get_exe_name path = drop (nat (rfind (CHR ''/'') path + 1)) path"

lemma rfind_range: "-1 \<le> rfind c s \<and> rfind c s < int (length s)"
  by (induction s) auto

lemma rfind_none: "rfind c s = -1 \<longleftrightarrow> c \<notin> set s"
proof (induction s)
  case (Cons x xs)
  then show ?case using rfind_range [of c xs] by auto
qed simp

lemma exe_name_parts:
  "\<exists>dir. path = dir @ get_exe_name path \<and> CHR ''/'' \<notin> set (get_exe_name path) \<and>
    (dir = [] \<or> last dir = CHR ''/'')"
proof (induction path)
  case Nil
  show ?case by (simp add: get_exe_name_def)
next
  case (Cons x xs)
  show ?case
  proof (cases "rfind (CHR ''/'') xs = -1")
    case True
    then have "CHR ''/'' \<notin> set xs" by (simp add: rfind_none)
    with True show ?thesis by (auto simp: get_exe_name_def intro: exI [of _ "[x]"])
  next
    case False
    then have "get_exe_name (x # xs) = get_exe_name xs" "get_exe_name xs \<noteq> xs"
      using rfind_range [of "CHR ''/''" xs]
      by (auto simp: get_exe_name_def nat_add_distrib drop_Cons' dest: arg_cong [of _ _ length])
    moreover obtain dir where "xs = dir @ get_exe_name xs" "CHR ''/'' \<notin> set (get_exe_name xs)"
      "dir = [] \<or> last dir = CHR ''/''" using Cons by blast
    ultimately show ?thesis by (intro exI [of _ "x # dir"]) auto
  qed
qed

datatype ThreadPriority =
  TPRIORITY_LOWEST | TPRIORITY_LOW | TPRIORITY_NORMAL | TPRIORITY_HIGH | TPRIORITY_HIGHEST

text \<open>The table of \<open>set_thread_priority\<close>; the division truncates.\<close>

fun priorities :: "int \<Rightarrow> int \<Rightarrow> ThreadPriority \<Rightarrow> int" where
  "priorities mn mx TPRIORITY_LOWEST = mn"
| "priorities mn mx TPRIORITY_LOW = mn + (mx - mn) sdiv 4"
| "priorities mn mx TPRIORITY_NORMAL = mn + (mx - mn) sdiv 2"
| "priorities mn mx TPRIORITY_HIGH = mn + ((mx - mn) * 3) sdiv 4"
| "priorities mn mx TPRIORITY_HIGHEST = mx"

text \<open>\<open>set_thread_priority\<close>: the bounds of the policy, the own thread for 0, and the call itself.\<close>

definition set_thread_priority ::
  "int \<Rightarrow> int \<Rightarrow> nat \<Rightarrow> (nat \<Rightarrow> int \<Rightarrow> 'k \<Rightarrow> int \<times> 'k) \<Rightarrow> ThreadPriority \<Rightarrow> nat \<Rightarrow> 'k \<Rightarrow> bool \<times> 'k" where
  "set_thread_priority mn mx self setschedparam priority tid k =
     (if mn = -1 \<or> mx = -1 then (False, k)
      else (case setschedparam (if tid = 0 then self else tid) (priorities mn mx priority) k of
              (r, k') \<Rightarrow> (r = 0, k')))"

text \<open>\<open>set_thread_name\<close> hands the name up to its first zero to \<open>pthread_setname_np\<close>.\<close>

definition set_thread_name :: "nat \<Rightarrow> (nat \<Rightarrow> string \<Rightarrow> 'k \<Rightarrow> int \<times> 'k) \<Rightarrow> string \<Rightarrow> 'k \<Rightarrow> bool \<times> 'k" where
  "set_thread_name self setname name k =
     (case setname self (takeWhile (\<lambda>c. c \<noteq> CHR 0x00) name) k of (r, k') \<Rightarrow> (r = 0, k'))"

lemma priorities_range:
  assumes "mn \<le> mx"
  shows "mn \<le> priorities mn mx p \<and> priorities mn mx p \<le> mx"
proof -
  have d: "(mx - mn) sdiv 4 = (mx - mn) div 4" "(mx - mn) sdiv 2 = (mx - mn) div 2"
    "((mx - mn) * 3) sdiv 4 = ((mx - mn) * 3) div 4"
    using assms by (simp_all add: signed_divide_int_def sgn_if)
  have "0 \<le> (mx - mn) div 4 \<and> (mx - mn) div 4 \<le> mx - mn" "0 \<le> (mx - mn) div 2 \<and> (mx - mn) div 2 \<le> mx - mn"
    "0 \<le> ((mx - mn) * 3) div 4 \<and> ((mx - mn) * 3) div 4 \<le> mx - mn"
    using assms by presburger+
  with assms show ?thesis by (cases p) (simp_all add: d del: left_diff_distrib_numeral)
qed

section \<open>Properties\<close>

text \<open>
  Property C37. The published times are those of the clock: as long as the system clock is not set back,
  none of them ever decreases, none is ahead of the clock, and once the thread has gone through a
  round they are at least the clock's at the beginning of that round - in all three units,
  although they are stored one after the other.
\<close>

theorem published_times:
  assumes "t0 \<le> t1" and "t1 \<le> t2" and "clock_steps (clock_init t0 t1 t2) s" and "clock_steps s s'"
  shows "fst (get_current_microseconds st s) \<le> fst (get_current_microseconds st s') \<and>
    fst (get_current_milliseconds st s) \<le> fst (get_current_milliseconds st s') \<and>
    fst (get_current_seconds st s) \<le> fst (get_current_seconds st s') \<and>
    fst (get_current_microseconds st s') \<le> system_clock s' \<and>
    fst (get_current_milliseconds st s') \<le> system_clock s' div 1000 \<and>
    fst (get_current_seconds st s') \<le> system_clock s' div 1000000 \<and>
    (updater s = Sleeping \<and> clock_steps (((update ^^ 4) s)) s' \<longrightarrow>
       system_clock s \<le> fst (get_current_microseconds st s') \<and>
       system_clock s div 1000 \<le> fst (get_current_milliseconds st s') \<and>
       system_clock s div 1000000 \<le> fst (get_current_seconds st s'))"
proof -
  have inv: "clock_inv s" "clock_inv s'"
    using steps_inv [OF assms(3) clock_init_inv [OF assms(1,2)]] steps_inv [OF assms(4)] by auto
  have round: "system_clock s \<le> s_now_microseconds s' \<and> system_clock s div 1000 \<le> s_now_milliseconds s' \<and>
      system_clock s div 1000000 \<le> s_now_seconds s'"
    if "updater s = Sleeping" "clock_steps ((update ^^ 4) s) s'"
  proof -
    let ?s = "(update ^^ 4) s"
    have "clock_inv ?s" using update_inv inv(1) by (simp add: eval_nat_numeral)
    from steps_times [OF that(2) this] have "times_le ?s s'" .
    moreover have "s_now_microseconds ?s = system_clock s" "s_now_milliseconds ?s = system_clock s div 1000"
      "s_now_seconds ?s = system_clock s div 1000000"
      using that(1) by (simp_all add: eval_nat_numeral update_def)
    ultimately show ?thesis by (simp add: times_le_def)
  qed
  have "s_now_microseconds s' \<le> system_clock s' \<and> s_now_milliseconds s' \<le> system_clock s' div 1000 \<and>
      s_now_seconds s' \<le> system_clock s' div 1000000"
    using inv(2) by (auto simp: clock_inv_def Let_def intro: order.trans le_div)
  with round steps_times [OF assms(4) inv(1)] show ?thesis
    by (auto simp: times_le_def)
qed

theorem published_times_witness:
  "fst (get_current_seconds statics_init ((update ^^ 4) ((clock_init 1999999 1999999 1999999)\<lparr>system_clock := 2000001\<rparr>))) = 2"
proof -
  let ?i = "clock_init 1999999 1999999 1999999"
  let ?s = "?i\<lparr>system_clock := 2000001\<rparr>"
  have s: "clock_steps ?i ?s" by (rule clock_steps.tick [OF clock_steps.stay]) (simp add: clock_init_def)
  have u: "clock_steps ?s ((update ^^ 4) ?s)"
    by (simp add: eval_nat_numeral) (intro clock_steps.intros)
  have "updater ?s = Sleeping" "system_clock ?s = 2000001"
    "system_clock ((update ^^ 4) ?s) = 2000001"
    by (simp_all add: clock_init_def eval_nat_numeral update_def)
  with published_times [OF _ _ s u, of statics_init] clock_steps.stay [of "(update ^^ 4) ?s"] show ?thesis
    by (intro order.antisym) auto
qed

end
