(* ===== verification/Spec2Isabelle.thy ===== *)
theory Spec2Isabelle
  imports
    Prelude UvError Helpers
    LinkedList AsyncRace Buffer BufferList
    Semaphore TaskQueue ThreadGroup
    Task TaskExecutor Epoll Poller PollerLoop PollerProps PollerDelay PollerSafety PollerWake PollerLive Timer
    PollerLife Socket SocketDgram SocketRead SocketEvents SocketDgramRead SocketLink SocketSetup SocketConnect SocketLife
    TestPrograms TestUdp
    SocketUtils SocketUtilsProps DnsCache LogWriter Logger LogSystem Clock
begin

text \<open>
  A model of \<^verbatim>\<open>common_library\<close>, a C++ network library: an event loop over \<open>epoll\<close> that runs queued
  tasks, delay tasks and the callbacks of descriptors on one thread, sockets that send and
  receive through it, and the containers and thread utilities they are built from.

  How the parts interact. \<open>EventPoller\<close> (\<^verbatim>\<open>poller/event_poller.cpp\<close>) owns a list of tasks, a
  multimap of delay tasks, a table of callbacks by descriptor, and a pipe that wakes its
  \<open>epoll_wait\<close> when a task is queued. \<open>Socket\<close> (\<^verbatim>\<open>net/socket.cpp\<close>) registers its descriptor with
  the poller and is called back when it is readable or writable; what it sends goes through
  \<open>EventPoller::AsyncFirst\<close> into a list of waiting packets, from which \<open>BufferList\<close>
  (\<^verbatim>\<open>net/buffer.cpp\<close>) makes batches for \<open>sendmsg\<close>. \<open>Timer\<close> is a delay task that puts itself back.
  \<open>TaskQueue\<close> is a blocking queue of its own on \<open>Semaphore\<close>; \<open>ThreadGroup\<close> holds threads; \<open>DNSCache\<close>
  remembers resolved names, and \<open>SocketUtils\<close> (\<^verbatim>\<open>net/socket_utils.cpp\<close>) makes the sockets that
  \<open>Connect\<close> and \<open>Listen\<close> use. The logger hands lines to a thread of its own, which waits on a
  \<open>Semaphore\<close>. One more thread publishes the time that all of them read.

  The theories, and the code they model:

  \<^item> \<^theory_text>\<open>Prelude\<close>: machine integers (\<open>u32\<close>, \<open>u64\<close>, the conversion to \<open>int\<close>), options and lists.
  \<^item> \<^theory_text>\<open>UvError\<close>: \<^verbatim>\<open>utils/uv_error.cpp\<close>, and the loop that repeats an interrupted system call, which
    every wrapper of a system call uses.
  \<^item> \<^theory_text>\<open>Helpers\<close>: the helpers of \<^verbatim>\<open>utils/\<close>: objects that are made once (\<^verbatim>\<open>utils.h\<close>), \<open>OnceToken\<close>,
    \<open>MutexWrapper\<close> over any number of threads, \<open>StringPrinter\<close>, and the type traits as a function on a
    datatype of types.
  \<^item> \<^theory_text>\<open>LinkedList\<close>: \<^verbatim>\<open>utils/list.h\<close>. Nodes live in a heap, list objects are records of pointers, so
    that aliasing, dangling pointers and leaks can be stated. The list refines sequences
    (\<open>list_run_refines\<close>) as long as \<open>append\<close> is not called with the list itself.
  \<^item> \<^theory_text>\<open>AsyncRace\<close>: \<open>async\<close> on several threads, a step per access to memory: the calls that do not overlap
    lose nothing (\<open>serial_async\<close>), and what goes wrong with those that do (\<open>overlapping_async\<close>).
  \<^item> \<^theory_text>\<open>Buffer\<close>, \<^theory_text>\<open>BufferList\<close>: \<^verbatim>\<open>net/buffer.h\<close>, \<^verbatim>\<open>net/buffer.cpp\<close>. Blocks of bytes that may be
    uninitialised, 32-bit sizes; \<open>sendmsg\<close> is a parameter that takes any prefix. The stream
    and the datagram theorem say that nothing is lost, repeated or reordered.
  \<^item> \<^theory_text>\<open>Semaphore\<close>, \<^theory_text>\<open>TaskQueue\<close>: \<^verbatim>\<open>thread/semaphore.h\<close>, \<^verbatim>\<open>thread/task_queue.h\<close>. Step relations over
    any number of threads, with a step per critical section; invariants by rule induction
    over runs.
  \<^item> \<^theory_text>\<open>ThreadGroup\<close>: \<^verbatim>\<open>thread/group.h\<close>. Thread objects in a heap; ending the program is an error value.
  \<^item> \<^theory_text>\<open>Task\<close>, \<^theory_text>\<open>Epoll\<close>, \<^theory_text>\<open>Poller\<close>, \<^theory_text>\<open>PollerLoop\<close>: \<^verbatim>\<open>thread/task.h\<close>, the masks and the operations of
    \<^verbatim>\<open>poller/event_poller.cpp\<close> with the pipe of \<^verbatim>\<open>poller/pipe_wrapper.cpp\<close>, and its loop. The code
    of users is a term of the datatype \<open>prog\<close>, which can call every operation of the poller,
    throw, and return a delay.
  \<^item> \<^theory_text>\<open>TaskExecutor\<close>: the interface of \<^verbatim>\<open>thread/task_executor.h\<close> as a locale, with the order in which
    the tasks of a series of calls wait; \<^theory_text>\<open>PollerSafety\<close> interprets it on the poller.
  \<^item> \<^theory_text>\<open>PollerProps\<close>, \<^theory_text>\<open>PollerDelay\<close>, \<^theory_text>\<open>PollerSafety\<close>, \<^theory_text>\<open>PollerWake\<close>, \<^theory_text>\<open>PollerLive\<close>: what the poller
    keeps and promises: the order of tasks, delay tasks on time, cancellation, wake-ups,
    registration of descriptors, the end of the loop and of each round.
  \<^item> \<^theory_text>\<open>PollerLife\<close>: the constructors and destructors of \<open>EventPoller\<close> and \<open>PipeWrapper\<close>: a new poller
    satisfies what the theorems above ask of one, an old one runs what is queued.
  \<^item> \<^theory_text>\<open>Timer\<close>: \<^verbatim>\<open>poller/timer.cpp\<close>, on the poller's delay tasks.
  \<^item> \<^theory_text>\<open>Socket\<close>, \<^theory_text>\<open>SocketDgram\<close>, \<^theory_text>\<open>SocketRead\<close>, \<^theory_text>\<open>SocketEvents\<close>: the data path of
    \<^verbatim>\<open>net/socket.cpp\<close> on one thread (that of the poller): sending, flushing, receiving, closing and
    errors; flushing datagrams, and the types of queued packets; the callback that a connection
    registers with the poller, and that of a listening socket, which accepts.
  \<^item> \<^theory_text>\<open>SocketDgramRead\<close>: \<open>on_read\<close> for datagrams, which are taken whole.
  \<^item> \<^theory_text>\<open>SocketLink\<close>: two sockets that are connected to each other, with the network between them, as a
    sequence of sends, runs of the task lists, events, arrivals and closes on both sides; it joins
    the sending and the receiving half of the data path end to end.
  \<^item> \<^theory_text>\<open>SocketSetup\<close>: the constructor of \<open>Socket\<close>, the callback for errors, \<open>GetIdentifier\<close> and
    \<open>socket_log\<close>.
  \<^item> \<^theory_text>\<open>SocketConnect\<close>: the life of a connection in \<^verbatim>\<open>net/socket.cpp\<close>: \<open>Connect\<close>, \<open>Listen\<close>, \<open>Close\<close>, the
    destructors and the closures that are shared through weak pointers, as a step relation over
    one socket, the tasks it has queued and its entries in the poller's table.
  \<^item> \<^theory_text>\<open>SocketLife\<close>: a client's socket as a whole: the connection of \<open>SocketConnect\<close> and the data path of
    \<open>SocketEvents\<close> with one descriptor, over any series of calls, tasks, timeouts and events.
  \<^item> \<^theory_text>\<open>TestPrograms\<close>: \<^verbatim>\<open>test/test_connect.cpp\<close>, a client that dials again whenever its connection fails or
    ends, and \<^verbatim>\<open>test/test_listen.cpp\<close>, a server that keeps its connections in a map, as users of the
    connection. \<^theory_text>\<open>TestUdp\<close>: \<^verbatim>\<open>test/test_udp_listen.cpp\<close>, which sends a datagram whenever the last one is
    gone, on the data path.
  \<^item> \<^theory_text>\<open>SocketUtils\<close>, \<^theory_text>\<open>SocketUtilsProps\<close>: \<^verbatim>\<open>net/socket_utils.cpp\<close> in the state monad, with triples
    over a table of what the system knows of each descriptor.
  \<^item> \<^theory_text>\<open>DnsCache\<close>: \<^verbatim>\<open>net/dns_cache.cpp\<close>.
  \<^item> \<^theory_text>\<open>Logger\<close>, \<^theory_text>\<open>LogWriter\<close>: \<^verbatim>\<open>utils/logger.cpp\<close>: the registry of channels against a map from names,
    the line that a channel prints, the capturer behind the macros and \<open>Ticker\<close> of
    \<^verbatim>\<open>utils/time_ticker.h\<close>; and the asynchronous writer, a step relation over the writing threads,
    its own thread and its destructor.
  \<^item> \<^theory_text>\<open>LogSystem\<close>: the two of them together: the single instance, the macros, and any number of threads
    that log lines through them, up to what the standard output is given.
  \<^item> \<^theory_text>\<open>Clock\<close>: \<^verbatim>\<open>utils/utils.cpp\<close>: the thread that publishes the time, a step per access to one of its
    three variables, and the statics by which its readers start it; the name of the program, and the
    priorities and names of threads.

  Conventions. A loop that may not end is a \<open>partial_function\<close> into an option, and each such loop
  has a theorem that it returns: \<open>None\<close> means that it runs for ever, or that a null or dangling
  pointer is followed in \<^theory_text>\<open>LinkedList\<close>. No fuel is used. Exceptions are values of a sum
  type. The system (\<open>sendmsg\<close>, \<open>recvfrom\<close>, \<open>epoll\<close>, the pipe, the clock, \<open>getaddrinfo\<close>) is a record
  of functions on a state of its own; what a theorem needs of it is a named hypothesis
  (\<open>kernel_ok\<close>, \<open>pipe_laws\<close>, \<open>recv_law\<close>, \<open>resolver_ends\<close>, ...), and each has an instance in the
  witness of the theorem. Contracts that several operations share are locales
  (\<open>list_queue\<close>, \<open>buffer\<close>, \<open>counting_semaphore\<close>, \<open>task_executor\<close>, \<open>prog_invariant\<close> and those that extend it,
  \<open>flushing\<close> for the two modes of sending, \<open>flush_keeps\<close> for the invariants of \<open>flush_data\<close>),
  interpreted on the definitions of the model.

  The theorems also say that the code gets on with its work, as far as it does: a flush of the socket
  ends only when everything was sent, when \<open>sendmsg\<close> refused the next packet (\<open>refused\<close>) or when the
  socket is closed; a read of a connection ends only when nothing is left, when the user has
  stopped the receiving or when the socket is closed (\<open>read_out\<close>); a flush of the delay tasks
  passes over no due task; and \<open>Listen\<close>, \<open>Connect\<close> and the constructor of the poller succeed when no system call fails (\<open>calls_succeed\<close>, \<open>poller_calls_succeed\<close>).

  How the models of the socket meet. \<open>Socket\<close> has the packets, the errors and the state of the kernel
  and lets a descriptor be attached in one step; \<open>SocketConnect\<close> has the descriptors, the tasks and
  the closures and takes the results of the system calls as part of a step. Both have \<open>Close\<close> and
  \<open>emit_error\<close>, each over its own fields. \<open>SocketLife\<close> is the socket with the fields of both: it proves
  that the two views agree and that all that the data path does is a run of \<open>SocketConnect\<close>, so the
  theorems about connections hold under traffic. \<open>SocketLink\<close> starts where \<open>Connect\<close> and \<open>Listen\<close> have brought a
  connection, with both descriptors attached; its steps call \<open>Send\<close>, \<open>send_task\<close>, \<open>attach_cb\<close> and \<open>Close\<close> of
  the data path as they are.

  Not modelled: declarations without code (\<open>noncopyable\<close>), the text of the lines that functions log on their
  way, and of the test programs the set-up of the logger and the signal handlers. The other theories about the poller
  model it on one thread: \<open>async\<close> takes no lock (\<^verbatim>\<open>event_poller.cpp\<close> line 270), so that calls from other
  threads race on the list of tasks, as \<^theory_text>\<open>AsyncRace\<close> shows, and the theorems about queued tasks hold for
  calls that do not overlap. The changes of the logger's registry, which race with its writer's thread
  in the same way, are taken to come before the first line is logged.
\<close>

end
